(* ===== verification/Prelude.thy ===== *)
theory Prelude
  imports Main "HOL-Library.AList" "HOL-Library.Sublist" "HOL-Library.Code_Target_Numeral"
begin

text \<open>
  Generic vocabulary of the development: the collections of rewrite rules the component
  theories share, and facts about lists and association lists that no single component
  owns. A C++ operation whose behaviour is undefined (a dangling iterator, \<open>back()\<close> of an
  empty list) is modelled by the value \<open>None\<close> of an \<open>option\<close>; a C++ exception is an
  \<open>Inl\<close> of a sum type.
\<close>

named_theorems field_name \<open>the characters of a header name\<close>
named_theorems field_value \<open>the characters of a header value\<close>
named_theorems window_simps \<open>the operations of the form parser's buffer on its window\<close>

subsection \<open>Lists\<close>

text \<open>The first elements of a list up to a projection: the order a loop that skips what it has
  already seen visits a sequence in.\<close>

fun dedup_by :: "('a \<Rightarrow> 'b) \<Rightarrow> 'b list \<Rightarrow> 'a list \<Rightarrow> 'a list" where
  "dedup_by f seen [] = []"
| "dedup_by f seen (x # xs) =
     (if f x \<in> set seen then dedup_by f seen xs else x # dedup_by f (f x # seen) xs)"

lemma dedup_by_cong_seen: "set seen = set seen' \<Longrightarrow> dedup_by f seen xs = dedup_by f seen' xs"
proof (induction xs arbitrary: seen seen')
  case (Cons x xs)
  have "dedup_by f (f x # seen) xs = dedup_by f (f x # seen') xs"
    by (rule Cons.IH) (simp add: Cons.prems)
  then show ?case using Cons.prems Cons.IH[OF Cons.prems] by simp
qed simp

lemma set_dedup_by: "f ` set (dedup_by f seen xs) = f ` set xs - set seen"
  by (induction xs arbitrary: seen) auto

lemma set_dedup_by_subset: "set (dedup_by f seen xs) \<subseteq> set xs"
proof (induction xs arbitrary: seen)
  case (Cons x xs)
  show ?case using Cons[of seen] Cons[of "f x # seen"] by auto
qed simp

lemma distinct_dedup_by: "distinct (map f (dedup_by f seen xs))"
proof (induction xs arbitrary: seen)
  case (Cons x xs)
  have "f x \<notin> f ` set (dedup_by f (f x # seen) xs)"
    by (simp add: set_dedup_by)
  with Cons show ?case by simp
qed simp

lemma length_dedup_by: "length (dedup_by f seen xs) = card (f ` set xs - set seen)"
proof -
  have "length (dedup_by f seen xs) = card (set (map f (dedup_by f seen xs)))"
    by (metis distinct_card distinct_dedup_by length_map)
  then show ?thesis by (simp add: set_dedup_by)
qed

lemma dedup_by_append:
  "dedup_by f seen (xs @ ys) =
     dedup_by f seen xs @ dedup_by f (map f (dedup_by f seen xs) @ seen) ys"
proof (induction xs arbitrary: seen)
  case (Cons x xs)
  have "dedup_by f (f x # map f (dedup_by f (f x # seen) xs) @ seen) ys =
        dedup_by f (map f (dedup_by f (f x # seen) xs) @ f x # seen) ys"
    by (rule dedup_by_cong_seen) auto
  with Cons show ?case by simp
qed simp

lemma dedup_by_filter:
  assumes "\<And>x y. f x = f y \<Longrightarrow> P x = P y"
  shows "dedup_by f seen (filter P xs) = filter P (dedup_by f seen xs)"
proof (induction xs arbitrary: seen)
  case (Cons x xs)
  show ?case
  proof (cases "P x")
    case True
    with Cons show ?thesis by simp
  next
    case False
    have skip: "filter P (dedup_by f (f x # s) ys) = filter P (dedup_by f s ys)" for s ys
    proof (induction ys arbitrary: s)
      case (Cons y ys)
      show ?case
      proof (cases "f y = f x")
        case True
        then have "\<not> P y" using assms False by blast
        then show ?thesis using Cons[of s] True by auto
      next
        case neq: False
        have "dedup_by f (f y # f x # s) ys = dedup_by f (f x # f y # s) ys"
          by (rule dedup_by_cong_seen) auto
        with Cons[of "f y # s"] Cons[of s] neq show ?thesis by simp
      qed
    qed simp
    with Cons False show ?thesis by simp
  qed
qed simp

lemma dedup_by_map: "map f (dedup_by f seen xs) = dedup_by (\<lambda>x. x) seen (map f xs)"
  by (induction xs arbitrary: seen) auto

lemma dedup_by_id_seen: "dedup_by (\<lambda>x. x) (k # seen) xs = filter (\<lambda>x. x \<noteq> k) (dedup_by (\<lambda>x. x) seen xs)"
proof (induction xs arbitrary: seen)
  case (Cons x xs)
  have "dedup_by (\<lambda>x. x) (x # k # seen) xs = dedup_by (\<lambda>x. x) (k # x # seen) xs"
    by (rule dedup_by_cong_seen) auto
  with Cons[of seen] Cons[of "x # seen"] show ?case
    by (auto simp: filter_id_conv set_dedup_by[where f = "\<lambda>x. x", simplified])
qed simp

text \<open>Moving an element to the front of a bounded list of distinct elements.\<close>

lemma take_filter_front:
  assumes "distinct xs" "k \<in> set (take n xs)"
  shows "filter (\<lambda>x. x \<noteq> k) (take n xs) = take (n - 1) (filter (\<lambda>x. x \<noteq> k) xs)"
  using assms
proof (induction xs arbitrary: n)
  case (Cons x xs)
  from Cons.prems(2) obtain m where n: "n = Suc m" by (cases n) auto
  show ?case
  proof (cases "x = k")
    case True
    with Cons.prems have "filter (\<lambda>y. y \<noteq> k) xs = xs" and "filter (\<lambda>y. y \<noteq> k) (take m xs) = take m xs"
      by (auto simp: filter_id_conv dest: in_set_takeD)
    with n True show ?thesis by simp
  next
    case False
    with Cons.prems n have k: "k \<in> set (take m xs)" by simp
    then obtain l where "m = Suc l" by (cases m) auto
    with n False Cons.IH[OF _ k] Cons.prems(1) show ?thesis by simp
  qed
qed simp

lemma take_filter_absent:
  "k \<notin> set (take n xs) \<Longrightarrow> m \<le> n \<Longrightarrow> take m (filter (\<lambda>x. x \<noteq> k) xs) = take m xs"
proof (induction xs arbitrary: n m)
  case (Cons x xs)
  show ?case
  proof (cases n)
    case 0
    with Cons.prems show ?thesis by simp
  next
    case (Suc n')
    with Cons show ?thesis by (cases m) auto
  qed
qed simp

subsection \<open>Association lists with distinct keys\<close>

lemma map_of_filter_key:
  "map_of (filter (\<lambda>(k, v). P k) xs) k = (if P k then map_of xs k else None)"
  by (induction xs) auto

lemma delete_eq_filter: "AList.delete k xs = filter (\<lambda>(k', v). k' \<noteq> k) xs"
  by (simp add: AList.delete_eq case_prod_beta' eq_commute)

lemma map_of_delete [simp]: "map_of (AList.delete k xs) = (map_of xs)(k := None)"
  by (rule AList.delete_conv')

lemma distinct_fst_unique:
  "distinct (map fst xs) \<Longrightarrow> (k, v) \<in> set xs \<Longrightarrow> (k, w) \<in> set xs \<Longrightarrow> v = w"
  by (metis map_of_is_SomeI option.inject)

lemma map_of_set_conv:
  "distinct (map fst xs) \<Longrightarrow> map_of xs k = Some v \<longleftrightarrow> (k, v) \<in> set xs"
  by (simp add: map_of_eq_Some_iff)

lemma absent_key: "k \<notin> fst ` set xs \<Longrightarrow> {q \<in> set xs. fst q \<noteq> k} = set xs"
  by (induction xs) auto

lemma delete_notin: "k \<notin> fst ` set xs \<Longrightarrow> AList.delete k xs = xs"
  by (induction xs) auto

lemma set_delete_iff:
  "(k', v) \<in> set (AList.delete k xs) \<longleftrightarrow> k' \<noteq> k \<and> (k', v) \<in> set xs"
  by (auto simp: delete_eq_filter)

lemma length_delete_distinct:
  assumes "distinct (map fst xs)" and "k \<in> fst ` set xs"
  shows "length (AList.delete k xs) = length xs - 1"
  using assms
proof (induction xs)
  case (Cons x xs)
  show ?case
  proof (cases "fst x = k")
    case True
    with Cons.prems have "k \<notin> fst ` set xs" by auto
    with True show ?thesis by (cases x) (simp add: delete_notin)
  next
    case False
    with Cons have "length (AList.delete k xs) = length xs - 1" and "xs \<noteq> []"
      by auto
    with False show ?thesis by (cases x) (cases xs; simp)
  qed
qed simp

end
