(* ===== verification/CppString.thy ===== *)
theory CppString
  imports Prelude "HOL-Library.Char_ord" "HOL-Library.List_Lexorder"
begin

text \<open>
  The operations of \<open>std::string\<close>, \<open>std::istringstream\<close> and \<open><charconv>\<close> the program uses, on
  Isabelle's \<open>string\<close> (a list of bytes). \<open>npos\<close> is \<open>None\<close>; a stream is the characters it has
  left, and a failed extraction is \<open>None\<close>. The lemmas locate the first occurrence of a pattern
  and show that it does not move when characters are appended, the fact the incremental HTTP
  parser rests on.
\<close>

subsection \<open>Searching and cutting\<close>

text \<open>\<open>s.find(pat)\<close>: the position of the first occurrence.\<close>

fun str_find :: "'a list \<Rightarrow> 'a list \<Rightarrow> nat option" where
  "str_find pat [] = (if pat = [] then Some 0 else None)"
| "str_find pat (x # xs) =
     (if prefix pat (x # xs) then Some 0 else map_option Suc (str_find pat xs))"

text \<open>\<open>s.find(pat, pos)\<close>.\<close>

definition str_find_from :: "'a list \<Rightarrow> 'a list \<Rightarrow> nat \<Rightarrow> nat option" where
  "str_find_from pat s pos =
     (if length s < pos then None else map_option (\<lambda>i. pos + i) (str_find pat (drop pos s)))"

text \<open>\<open>s.substr(pos, n)\<close> for \<open>pos \<le> s.size()\<close> (every call of the program is in range).\<close>

definition substr :: "'a list \<Rightarrow> nat \<Rightarrow> nat \<Rightarrow> 'a list" where
  "substr s pos n = take n (drop pos s)"

text \<open>\<open>s.find_last_of(c)\<close>.\<close>

fun find_last_of :: "'a \<Rightarrow> 'a list \<Rightarrow> nat option" where
  "find_last_of c [] = None"
| "find_last_of c (x # xs) =
     (case find_last_of c xs of Some i \<Rightarrow> Some (Suc i) | None \<Rightarrow> if x = c then Some 0 else None)"

lemma str_find_Some:
  "str_find pat s = Some i \<Longrightarrow> prefix pat (drop i s)"
  by (induction s arbitrary: i) (auto split: if_splits)

lemma str_find_bound: "str_find pat s = Some i \<Longrightarrow> i + length pat \<le> length s"
proof (induction s arbitrary: i)
  case (Cons x xs)
  show ?case
  proof (cases "prefix pat (x # xs)")
    case True
    with Cons.prems show ?thesis using prefix_length_le by fastforce
  next
    case False
    with Cons show ?thesis by auto
  qed
qed (auto split: if_splits)

lemma str_find_least:
  "str_find pat s = Some i \<Longrightarrow> j < i \<Longrightarrow> \<not> prefix pat (drop j s)"
proof (induction s arbitrary: i j)
  case (Cons x xs)
  then show ?case by (cases j) (auto split: if_splits)
qed (auto split: if_splits)

lemma str_find_None_iff: "str_find pat s = None \<longleftrightarrow> (\<forall>j. \<not> prefix pat (drop j s))"
proof (induction s)
  case Nil
  then show ?case by simp
next
  case (Cons x xs)
  show ?case
  proof
    assume "str_find pat (x # xs) = None"
    then have "\<not> prefix pat (x # xs)" and "\<forall>j. \<not> prefix pat (drop j xs)"
      using Cons by (auto split: if_splits)
    then show "\<forall>j. \<not> prefix pat (drop j (x # xs))"
      by (metis drop_Cons' )
  next
    assume a: "\<forall>j. \<not> prefix pat (drop j (x # xs))"
    then have "\<not> prefix pat (x # xs)" by (metis drop_0)
    moreover have "\<forall>j. \<not> prefix pat (drop j xs)"
      using a by (metis drop_Suc_Cons)
    ultimately show "str_find pat (x # xs) = None" using Cons by simp
  qed
qed

lemma str_findI:
  assumes "prefix pat (drop i s)" and "\<And>j. j < i \<Longrightarrow> \<not> prefix pat (drop j s)"
    and "i \<le> length s"
  shows "str_find pat s = Some i"
proof (cases "str_find pat s")
  case None
  with assms(1) show ?thesis by (simp add: str_find_None_iff)
next
  case (Some k)
  then show ?thesis
    using assms str_find_Some str_find_least by (metis linorder_neqE_nat)
qed

lemma prefix_iff_take: "prefix pat s \<longleftrightarrow> take (length pat) s = pat"
  by (metis append_eq_conv_conj append_take_drop_id prefix_def)

lemma prefix_drop_append:
  assumes "j + length pat \<le> length s"
  shows "prefix pat (drop j (s @ t)) \<longleftrightarrow> prefix pat (drop j s)"
  using assms by (simp add: prefix_iff_take)

lemma str_find_append:
  assumes "str_find pat s = Some i"
  shows "str_find pat (s @ t) = Some i"
proof (rule str_findI)
  have b: "i + length pat \<le> length s" using assms by (rule str_find_bound)
  show "prefix pat (drop i (s @ t))"
    using b str_find_Some[OF assms] by (simp only: prefix_drop_append)
  show "\<not> prefix pat (drop j (s @ t))" if "j < i" for j
  proof -
    have "j + length pat \<le> length s" using b that by simp
    then show ?thesis
      using str_find_least[OF assms that] by (simp only: prefix_drop_append) simp
  qed
  show "i \<le> length (s @ t)" using b by simp
qed

lemma str_find_append_bounded:
  assumes "str_find pat (s @ t) = Some i" and "i + length pat \<le> length s"
  shows "str_find pat s = Some i"
proof (rule str_findI)
  show "prefix pat (drop i s)"
    using assms str_find_Some prefix_drop_append by metis
  show "\<not> prefix pat (drop j s)" if "j < i" for j
    using assms str_find_least[OF assms(1) that] that prefix_drop_append[of j pat s t] by simp
  show "i \<le> length s" using assms(2) by simp
qed

lemma str_find_split:
  assumes "str_find pat s = Some i"
  shows "s = take i s @ pat @ drop (i + length pat) s"
proof -
  from str_find_Some[OF assms] obtain r where r: "drop i s = pat @ r"
    by (auto simp: prefix_def)
  then have "drop (i + length pat) s = r"
    by (metis add.commute append_eq_conv_conj drop_drop)
  with r show ?thesis by (metis append_take_drop_id)
qed

text \<open>Cutting at the first occurrence of a separator that the left part does not contain.\<close>

lemma str_find_mem: "str_find [c] s = Some i \<Longrightarrow> c \<in> set s"
  by (metis in_set_conv_decomp str_find_split append_Cons append_Nil)

lemma str_find_single_None: "str_find [c] s = None \<longleftrightarrow> c \<notin> set s"
  by (induction s) auto

lemma str_find_single: "c \<notin> set xs \<Longrightarrow> str_find [c] (xs @ c # ys) = Some (length xs)"
  by (induction xs) auto

lemma take_str_find:
  "(case str_find [c] s of Some i \<Rightarrow> take i s | None \<Rightarrow> s) = takeWhile (\<lambda>x. x \<noteq> c) s"
  by (induction s) (auto split: option.splits)

lemma find_last_of_None: "find_last_of c s = None \<longleftrightarrow> c \<notin> set s"
  by (induction s) (auto split: option.splits)

lemma find_last_of_append:
  "c \<notin> set ys \<Longrightarrow> find_last_of c (xs @ c # ys) = Some (length xs)"
  by (induction xs) (auto simp: find_last_of_None[THEN iffD2])

subsection \<open>Character classes and decimal numbers\<close>

definition is_digit :: "char \<Rightarrow> bool" where
  "is_digit c \<longleftrightarrow> 48 \<le> (of_char c :: nat) \<and> (of_char c :: nat) \<le> 57"

definition is_space :: "char \<Rightarrow> bool" where
  "is_space c \<longleftrightarrow> (of_char c :: nat) = 32 \<or> (9 \<le> (of_char c :: nat) \<and> (of_char c :: nat) \<le> 13)"

definition to_lower :: "char \<Rightarrow> char" where
  "to_lower c =
     (if 65 \<le> (of_char c :: nat) \<and> (of_char c :: nat) \<le> 90 then char_of ((of_char c :: nat) + 32) else c)"

definition digit_val :: "char \<Rightarrow> nat" where
  "digit_val c = of_char c - 48"

definition digits_val :: "string \<Rightarrow> nat" where
  "digits_val s = foldl (\<lambda>n c. 10 * n + digit_val c) 0 s"

text \<open>\<open>std::to_string\<close>.\<close>

fun string_of_nat :: "nat \<Rightarrow> string" where
  "string_of_nat n =
     (if n < 10 then [char_of (48 + n)] else string_of_nat (n div 10) @ [char_of (48 + n mod 10)])"

declare string_of_nat.simps [simp del]

definition string_of_int :: "int \<Rightarrow> string" where
  "string_of_int i = (if i < 0 then CHR ''-'' # string_of_nat (nat (- i)) else string_of_nat (nat i))"

lemma of_char_digit: "n < 10 \<Longrightarrow> (of_char (char_of (48 + n) :: char) :: nat) = 48 + n"
  by simp

lemma string_of_nat_digits: "c \<in> set (string_of_nat n) \<Longrightarrow> is_digit c"
proof (induction n rule: string_of_nat.induct)
  case (1 n)
  show ?case
  proof (cases "n < 10")
    case True
    with "1.prems" show ?thesis
      by (simp add: string_of_nat.simps[of n] is_digit_def)
  next
    case False
    with 1 show ?thesis
      by (auto simp: string_of_nat.simps[of n] is_digit_def)
  qed
qed

lemma string_of_nat_nonempty: "string_of_nat n \<noteq> []"
  by (simp add: string_of_nat.simps[of n])

lemma digits_val_string_of_nat: "digits_val (string_of_nat n) = n"
proof (induction n rule: string_of_nat.induct)
  case (1 n)
  show ?case
  proof (cases "n < 10")
    case True
    then show ?thesis
      by (simp add: string_of_nat.simps[of n] digits_val_def digit_val_def)
  next
    case False
    with 1 show ?thesis
      by (simp add: string_of_nat.simps[of n] digits_val_def digit_val_def)
  qed
qed

lemma string_of_nat_inject: "string_of_nat m = string_of_nat n \<longleftrightarrow> m = n"
  by (metis digits_val_string_of_nat)

lemma not_digit_literals [simp]:
  "\<not> is_digit (CHR ''-'')" "\<not> is_digit (CHR '':'')" "\<not> is_digit (CHR '' '')"
  "\<not> is_digit (CHR 0x0A)" "\<not> is_digit (CHR 0x0D)" "\<not> is_digit (CHR ''#'')"
  by (simp_all add: is_digit_def)

lemma string_of_nat_neq_minus: "string_of_nat n \<noteq> CHR ''-'' # s"
  using string_of_nat_digits[of "CHR ''-''" n] by auto

lemma string_of_int_inject: "string_of_int i = string_of_int j \<longleftrightarrow> i = j"
  by (auto simp: string_of_int_def string_of_nat_inject string_of_nat_neq_minus
      string_of_nat_neq_minus[symmetric] split: if_splits)

lemma string_of_int_chars:
  "c \<in> set (string_of_int i) \<Longrightarrow> is_digit c \<or> c = CHR ''-''"
  by (auto simp: string_of_int_def string_of_nat_digits split: if_splits)

subsection \<open>Parsing numbers\<close>

text \<open>The two exceptions of \<open>std::stoi\<close> and \<open>std::stoul\<close>.\<close>

datatype num_error = Invalid_argument | Out_of_range

text \<open>An optional sign, then the digits: the sign is \<open>True\<close> for a minus.\<close>

definition split_sign :: "string \<Rightarrow> bool \<times> string" where
  "split_sign s = (case s of
       [] \<Rightarrow> (False, [])
     | c # r \<Rightarrow> if c = CHR ''-'' then (True, r) else if c = CHR ''+'' then (False, r) else (False, s))"

text \<open>\<open>std::from_chars\<close> for \<open>long long\<close>: no white space and no plus sign is skipped; \<open>None\<close> is any
  \<open>ec\<close> other than success.\<close>

definition from_chars_ll :: "string \<Rightarrow> int option" where
  "from_chars_ll s =
     (let (neg, r) = (case s of c # r \<Rightarrow> if c = CHR ''-'' then (True, r) else (False, s) | [] \<Rightarrow> (False, []));
          ds = takeWhile is_digit r;
          v = (if neg then - int (digits_val ds) else int (digits_val ds))
      in if ds = [] then None
         else if v < - (2 ^ 63) \<or> 2 ^ 63 \<le> v then None else Some v)"

text \<open>\<open>std::stoul\<close> on a 64-bit \<open>unsigned long\<close>: leading white space and a sign are accepted, and a
  minus sign negates modulo \<open>2 ^ 64\<close>.\<close>

definition stoul :: "string \<Rightarrow> num_error + nat" where
  "stoul s =
     (let (neg, r) = split_sign (dropWhile is_space s); ds = takeWhile is_digit r; v = digits_val ds
      in if ds = [] then Inl Invalid_argument
         else if 2 ^ 64 \<le> v then Inl Out_of_range
         else Inr (if neg then (2 ^ 64 - v) mod 2 ^ 64 else v))"

text \<open>\<open>std::stoi\<close>, with its 32-bit \<open>int\<close>.\<close>

definition stoi :: "string \<Rightarrow> num_error + int" where
  "stoi s =
     (let (neg, r) = split_sign (dropWhile is_space s); ds = takeWhile is_digit r;
          v = (if neg then - int (digits_val ds) else int (digits_val ds))
      in if ds = [] then Inl Invalid_argument
         else if v < - (2 ^ 31) \<or> 2 ^ 31 \<le> v then Inl Out_of_range else Inr v)"

subsection \<open>Streams\<close>

text \<open>\<open>std::getline(stream, out, delim)\<close>: the line and what the stream has left; it fails at the
  end of the stream.\<close>

definition getline :: "char \<Rightarrow> string \<Rightarrow> (string \<times> string) option" where
  "getline d s =
     (if s = [] then None
      else Some (takeWhile (\<lambda>c. c \<noteq> d) s, drop 1 (dropWhile (\<lambda>c. c \<noteq> d) s)))"

text \<open>\<open>stream >> word\<close>: the word is empty when the extraction fails.\<close>

definition stream_word :: "string \<Rightarrow> string \<times> string" where
  "stream_word s =
     (let r = dropWhile is_space s
      in (takeWhile (\<lambda>c. \<not> is_space c) r, dropWhile (\<lambda>c. \<not> is_space c) r))"

text \<open>\<open>stream >> n\<close> for an \<open>int n\<close>: the value stored, what is left, and whether the stream failed.\<close>

definition stream_int :: "string \<Rightarrow> int \<times> string \<times> bool" where
  "stream_int s =
     (let (neg, r) = split_sign (dropWhile is_space s); ds = takeWhile is_digit r;
          v = (if neg then - int (digits_val ds) else int (digits_val ds));
          rest = dropWhile is_digit r
      in if ds = [] then (0, rest, True)
         else if v < - (2 ^ 31) then (- (2 ^ 31), rest, True)
         else if 2 ^ 31 \<le> v then (2 ^ 31 - 1, rest, True)
         else (v, rest, False))"

lemma getline_shrinks: "getline d s = Some (l, r) \<Longrightarrow> length r < length s"
  using length_dropWhile_le[of "\<lambda>c. c \<noteq> d" s]
  by (cases s) (auto simp: getline_def split: if_splits)

lemma getline_append:
  "d \<notin> set l \<Longrightarrow> getline d (l @ d # r) = Some (l, r)"
  by (simp add: getline_def takeWhile_append dropWhile_append takeWhile_eq_all_conv[THEN iffD2])

lemma getline_last:
  "d \<notin> set l \<Longrightarrow> l \<noteq> [] \<Longrightarrow> getline d l = Some (l, [])"
proof -
  assume "d \<notin> set l" and "l \<noteq> []"
  then have "dropWhile (\<lambda>c. c \<noteq> d) l = []" and "takeWhile (\<lambda>c. c \<noteq> d) l = l"
    by (auto simp: takeWhile_eq_all_conv)
  with \<open>l \<noteq> []\<close> show ?thesis by (simp add: getline_def del: dropWhile_eq_Nil_conv)
qed

text \<open>All lines of a stream: \<open>while (std::getline(stream, line))\<close>.\<close>

function lines :: "string \<Rightarrow> string list" where
  "lines s = (case getline (CHR 0x0A) s of None \<Rightarrow> [] | Some (l, r) \<Rightarrow> l # lines r)"
  by pat_completeness auto
termination
  by (relation "measure length") (auto simp: getline_shrinks)

declare lines.simps [simp del]

lemma lines_Nil [simp]: "lines [] = []"
  by (simp add: lines.simps getline_def)

lemma lines_append: "CHR 0x0A \<notin> set l \<Longrightarrow> lines (l @ CHR 0x0A # r) = l # lines r"
  by (simp add: lines.simps[of "l @ CHR 0x0A # r"] getline_append)

lemma lines_concat:
  "(\<And>l. l \<in> set ls \<Longrightarrow> CHR 0x0A \<notin> set l) \<Longrightarrow>
   lines (concat (map (\<lambda>l. l @ [CHR 0x0A]) ls)) = ls"
  by (induction ls) (simp_all add: lines_append)

end
