(* ===== verification/HttpChars.thy ===== *)
theory HttpChars
  imports CppString "HOL-Library.Word"
begin

unbundle bit_operations_syntax

text \<open>
  The text routines of the HTTP library (httplib.h): comparison and hashing of header names
  without case, the character classes of header fields, hexadecimal digits, UTF-8, and cutting
  lines at separators. The library works on pointers into a line; here a piece of a line is the
  line with a start and an end position. The lemmas say what each loop computes.
\<close>

subsection \<open>Names without case\<close>

text \<open>The table of \<open>case_ignore::to_lower\<close>.\<close>

definition lower_table :: "nat list" where
  "lower_table =
     [0, 1, 2, 3, 4, 5, 6, 7, 8, 9, 10, 11, 12, 13, 14, 15, 16, 17, 18, 19, 20, 21, 22, 23, 24,
      25, 26, 27, 28, 29, 30, 31, 32, 33, 34, 35, 36, 37, 38, 39, 40, 41, 42, 43, 44, 45, 46, 47,
      48, 49, 50, 51, 52, 53, 54, 55, 56, 57, 58, 59, 60, 61, 62, 63, 64, 97, 98, 99, 100, 101,
      102, 103, 104, 105, 106, 107, 108, 109, 110, 111, 112, 113, 114, 115, 116, 117, 118, 119,
      120, 121, 122, 91, 92, 93, 94, 95, 96, 97, 98, 99, 100, 101, 102, 103, 104, 105, 106, 107,
      108, 109, 110, 111, 112, 113, 114, 115, 116, 117, 118, 119, 120, 121, 122, 123, 124, 125,
      126, 127, 128, 129, 130, 131, 132, 133, 134, 135, 136, 137, 138, 139, 140, 141, 142, 143,
      144, 145, 146, 147, 148, 149, 150, 151, 152, 153, 154, 155, 156, 157, 158, 159, 160, 161,
      162, 163, 164, 165, 166, 167, 168, 169, 170, 171, 172, 173, 174, 175, 176, 177, 178, 179,
      180, 181, 182, 183, 184, 185, 186, 187, 188, 189, 190, 191, 224, 225, 226, 227, 228, 229,
      230, 231, 232, 233, 234, 235, 236, 237, 238, 239, 240, 241, 242, 243, 244, 245, 246, 215,
      248, 249, 250, 251, 252, 253, 254, 223, 224, 225, 226, 227, 228, 229, 230, 231, 232, 233,
      234, 235, 236, 237, 238, 239, 240, 241, 242, 243, 244, 245, 246, 247, 248, 249, 250, 251,
      252, 253, 254, 255]"

definition case_lower :: "char \<Rightarrow> char" where
  "case_lower c = char_of (lower_table ! of_char c)"

definition case_equal :: "string \<Rightarrow> string \<Rightarrow> bool" where
  "case_equal a b \<longleftrightarrow> length a = length b \<and> list_all2 (\<lambda>ca cb. case_lower ca = case_lower cb) a b"

text \<open>\<open>hash_core\<close> with its 64-bit accumulator.\<close>

fun hash_core :: "string \<Rightarrow> 64 word \<Rightarrow> 64 word" where
  "hash_core [] h = h"
| "hash_core (c # s) h =
     hash_core s ((drop_bit 6 (- 1) AND (h * 33)) XOR of_nat (of_char (case_lower c)))"

definition case_hash :: "string \<Rightarrow> 64 word" where
  "case_hash key = hash_core key 0"

lemma lower_table_length [simp]: "length lower_table = 256"
  by (simp add: lower_table_def)

text \<open>The table maps the letters of ASCII and of Latin-1 and nothing else.\<close>

lemma lower_table_map:
  "lower_table = map (\<lambda>n. if 65 \<le> n \<and> n \<le> 90 \<or> 192 \<le> n \<and> n \<le> 222 \<and> n \<noteq> 215 then n + 32 else n) [0..<256]"
proof -
  have "[0::nat..<256] = 0 # 1 # [2..<256]" by (simp add: upt_conv_Cons flip: numeral_2_eq_2)
  then show ?thesis unfolding lower_table_def by (simp only: list.map upt_rec_numeral) simp
qed

lemma lower_table_nth:
  "n < 256 \<Longrightarrow> lower_table ! n =
     (if 65 \<le> n \<and> n \<le> 90 \<or> 192 \<le> n \<and> n \<le> 222 \<and> n \<noteq> 215 then n + 32 else n)"
  by (simp add: lower_table_map)

lemma case_lower_conv:
  "case_lower c = (let n = of_char c :: nat
     in if 65 \<le> n \<and> n \<le> 90 \<or> 192 \<le> n \<and> n \<le> 222 \<and> n \<noteq> 215 then char_of (n + 32) else c)"
  by (simp add: case_lower_def lower_table_nth Let_def)

lemma case_equal_iff: "case_equal a b \<longleftrightarrow> map case_lower a = map case_lower b"
  by (auto simp: case_equal_def list_all2_conv_all_nth list_eq_iff_nth_eq)

lemma case_equal_refl [simp]: "case_equal a a"
  by (simp add: case_equal_iff)

lemma case_equal_sym: "case_equal a b \<Longrightarrow> case_equal b a"
  by (simp add: case_equal_iff)

lemma case_equal_trans: "case_equal a b \<Longrightarrow> case_equal b c \<Longrightarrow> case_equal a c"
  by (simp add: case_equal_iff)

text \<open>What an unordered container asks of its hash: equal names hash alike.\<close>

lemma hash_core_map: "map case_lower a = map case_lower b \<Longrightarrow> hash_core a h = hash_core b h"
proof (induction a arbitrary: b h)
  case (Cons c a)
  then obtain c' b' where "b = c' # b'" "case_lower c = case_lower c'" "map case_lower a = map case_lower b'"
    by (cases b) auto
  with Cons.IH show ?case by simp
qed simp

lemma case_equal_hash: "case_equal a b \<Longrightarrow> case_hash a = case_hash b"
  unfolding case_equal_iff case_hash_def by (rule hash_core_map)

subsection \<open>Character classes\<close>

definition is_alnum :: "char \<Rightarrow> bool" where
  "is_alnum c \<longleftrightarrow> (let n = (of_char c :: nat) in 48 \<le> n \<and> n \<le> 57 \<or> 65 \<le> n \<and> n \<le> 90 \<or> 97 \<le> n \<and> n \<le> 122)"

definition is_token_char :: "char \<Rightarrow> bool" where
  "is_token_char c \<longleftrightarrow> is_alnum c \<or> c \<in> set (''!#$%&*+-.^_`|~'' @ [CHR 0x27])"

definition is_token :: "string \<Rightarrow> bool" where
  "is_token s \<longleftrightarrow> s \<noteq> [] \<and> list_all is_token_char s"

definition is_field_name :: "string \<Rightarrow> bool" where
  "is_field_name s = is_token s"

definition is_vchar :: "char \<Rightarrow> bool" where
  "is_vchar c \<longleftrightarrow> 33 \<le> (of_char c :: nat) \<and> (of_char c :: nat) \<le> 126"

definition is_obs_text :: "char \<Rightarrow> bool" where
  "is_obs_text c \<longleftrightarrow> 128 \<le> (of_char c :: nat)"

definition is_field_vchar :: "char \<Rightarrow> bool" where
  "is_field_vchar c \<longleftrightarrow> is_vchar c \<or> is_obs_text c"

function field_content_loop :: "string \<Rightarrow> nat \<Rightarrow> bool" where
  "field_content_loop s i =
     (if i < length s - 1
      then (let c = s ! i
            in if c = CHR '' '' \<or> c = CHR 0x09 \<or> is_field_vchar c then field_content_loop s (i + 1) else False)
      else is_field_vchar (s ! i))"
  by pat_completeness auto
termination by (relation "measure (\<lambda>(s, i). length s - i)") auto

declare field_content_loop.simps [simp del]

definition is_field_content :: "string \<Rightarrow> bool" where
  "is_field_content s =
     (if s = [] then True
      else if length s = 1 then is_field_vchar (s ! 0)
      else if length s = 2 then is_field_vchar (s ! 0) \<and> is_field_vchar (s ! 1)
      else is_field_vchar (s ! 0) \<and> field_content_loop s 1)"

definition is_field_value :: "string \<Rightarrow> bool" where
  "is_field_value s = is_field_content s"

definition is_space_or_tab :: "char \<Rightarrow> bool" where
  "is_space_or_tab c \<longleftrightarrow> c = CHR '' '' \<or> c = CHR 0x09"

text \<open>The grammar the loop checks: no blank at either end, visible characters and blanks between.\<close>

lemma field_content_loop_iff:
  "i < length s \<Longrightarrow> field_content_loop s i \<longleftrightarrow>
     is_field_vchar (last s) \<and> (\<forall>j \<in> {i..<length s - 1}. is_space_or_tab (s ! j) \<or> is_field_vchar (s ! j))"
proof (induction s i rule: field_content_loop.induct)
  case (1 s i)
  let ?P = "\<lambda>j. is_space_or_tab (s ! j) \<or> is_field_vchar (s ! j)"
  show ?case
  proof (cases "i < length s - 1")
    case True
    then have ivl: "{i..<length s - 1} = insert i {i + 1..<length s - 1}" by auto
    have "field_content_loop s i \<longleftrightarrow> ?P i \<and> field_content_loop s (i + 1)"
      using True by (subst field_content_loop.simps) (simp add: Let_def is_space_or_tab_def)
    moreover have "field_content_loop s (i + 1) \<longleftrightarrow>
        is_field_vchar (last s) \<and> (\<forall>j \<in> {i + 1..<length s - 1}. ?P j)" if "?P i"
      by (rule "1.IH"[OF True refl]) (use True that in \<open>simp_all add: is_space_or_tab_def disj_ac\<close>)
    ultimately show ?thesis unfolding ivl by blast
  next
    case False
    with 1(2) have "i = length s - 1" "s \<noteq> []" by auto
    then have "s ! i = last s" by (simp add: last_conv_nth)
    with False show ?thesis by (subst field_content_loop.simps) simp
  qed
qed

text \<open>No blank at either end, and only visible characters and blanks between.\<close>

lemma is_field_value_iff:
  "is_field_value s \<longleftrightarrow> s = [] \<or>
     is_field_vchar (hd s) \<and> is_field_vchar (last s) \<and> (\<forall>c \<in> set s. is_space_or_tab c \<or> is_field_vchar c)"
proof (cases "3 \<le> length s")
  case True
  then obtain a t where s: "s = a # t" "2 \<le> length t" by (cases s) auto
  then obtain m b where t: "t = m @ [b]" "m \<noteq> []" by (cases t rule: rev_cases) (auto simp: neq_Nil_conv Suc_le_length_iff)
  have "field_content_loop s 1 \<longleftrightarrow> is_field_vchar b \<and>
      (\<forall>j \<in> {1..<Suc (length m)}. is_space_or_tab (s ! j) \<or> is_field_vchar (s ! j))"
    using field_content_loop_iff[of 1 s] s t by simp
  also have "{1..<Suc (length m)} = Suc ` {..<length m}"
    by (simp add: image_Suc_lessThan atLeastLessThanSuc_atLeastAtMost)
  also have "(\<forall>j \<in> Suc ` {..<length m}. is_space_or_tab (s ! j) \<or> is_field_vchar (s ! j)) \<longleftrightarrow>
      (\<forall>c \<in> set m. is_space_or_tab c \<or> is_field_vchar c)"
    using s t by (auto simp: nth_append all_set_conv_all_nth)
  finally show ?thesis
    using s t by (auto simp: is_field_value_def is_field_content_def all_set_conv_all_nth)
next
  case False
  then consider "s = []" | a where "s = [a]" | a b where "s = [a, b]"
    by (cases s; cases "tl s"; cases "tl (tl s)") auto
  then show ?thesis
    by cases (auto simp: is_field_value_def is_field_content_def)
qed

lemmas [field_name] = is_field_name_def is_token_def is_token_char_def is_alnum_def

lemmas [field_value] = is_field_value_iff is_field_vchar_def is_vchar_def is_obs_text_def is_space_or_tab_def

subsection \<open>Hexadecimal digits and UTF-8\<close>

definition is_hex :: "char \<Rightarrow> nat option" where
  "is_hex c =
     (let n = of_char c :: nat
      in if 48 \<le> n \<and> n \<le> 57 then Some (n - 48)
         else if 65 \<le> n \<and> n \<le> 70 then Some (n - 65 + 10)
         else if 97 \<le> n \<and> n \<le> 102 then Some (n - 97 + 10)
         else None)"

text \<open>
  \<open>from_hex_to_i(s, i, cnt, val)\<close>: the value of \<open>cnt\<close> digits from \<open>i\<close> on. Reading at the end
  of the string gives the terminating zero, which is not a digit; the callers ask for at most
  four digits, so that an \<open>int\<close> holds the value.
\<close>

fun hex_digits :: "string \<Rightarrow> nat \<Rightarrow> nat \<Rightarrow> nat \<Rightarrow> nat option" where
  "hex_digits s i 0 val = Some val"
| "hex_digits s i (Suc cnt) val =
     (let c = (if i < length s then s ! i else CHR 0x00)
      in if c = CHR 0x00 then None
         else (case is_hex c of Some v \<Rightarrow> hex_digits s (i + 1) cnt (val * 16 + v) | None \<Rightarrow> None))"

definition from_hex_to_i :: "string \<Rightarrow> nat \<Rightarrow> nat \<Rightarrow> nat option" where
  "from_hex_to_i s i cnt = (if length s \<le> i then None else hex_digits s i cnt 0)"

text \<open>The upper-case digit \<open>%X\<close> prints, and the escape \<open>%02X\<close> of a byte.\<close>

definition hex_digit :: "nat \<Rightarrow> char" where
  "hex_digit v = (if v < 10 then char_of (48 + v) else char_of (55 + v))"

definition percent_byte :: "char \<Rightarrow> string" where
  "percent_byte c = [CHR 0x25, hex_digit (of_char c div 16), hex_digit (of_char c mod 16)]"

text \<open>\<open>to_utf8\<close>: the bytes it writes, none for a code that has no encoding.\<close>

definition byte_of :: "int \<Rightarrow> char" where
  "byte_of i = char_of (nat (i mod 256))"

definition to_utf8 :: "int \<Rightarrow> string" where
  "to_utf8 code =
     (if code < 0x80 then [byte_of (code AND 0x7F)]
      else if code < 0x800 then
        [byte_of (0xC0 OR (drop_bit 6 code AND 0x1F)), byte_of (0x80 OR (code AND 0x3F))]
      else if code < 0xD800 then
        [byte_of (0xE0 OR (drop_bit 12 code AND 0xF)), byte_of (0x80 OR (drop_bit 6 code AND 0x3F)),
         byte_of (0x80 OR (code AND 0x3F))]
      else if code < 0xE000 then []
      else if code < 0x10000 then
        [byte_of (0xE0 OR (drop_bit 12 code AND 0xF)), byte_of (0x80 OR (drop_bit 6 code AND 0x3F)),
         byte_of (0x80 OR (code AND 0x3F))]
      else if code < 0x110000 then
        [byte_of (0xF0 OR (drop_bit 18 code AND 0x7)), byte_of (0x80 OR (drop_bit 12 code AND 0x3F)),
         byte_of (0x80 OR (drop_bit 6 code AND 0x3F)), byte_of (0x80 OR (code AND 0x3F))]
      else [])"

lemma hex_digit_is_hex [simp]: "v < 16 \<Longrightarrow> is_hex (hex_digit v) = Some v"
  by (simp add: is_hex_def hex_digit_def Let_def)

lemma hex_digit_nonzero [simp]: "v < 16 \<Longrightarrow> hex_digit v \<noteq> CHR 0x00"
proof
  assume "v < 16" "hex_digit v = CHR 0x00"
  then have "is_hex (CHR 0x00) = Some v" by (metis hex_digit_is_hex)
  then show False by (simp add: is_hex_def)
qed

lemma is_hex_bound: "is_hex c = Some v \<Longrightarrow> v < 16"
  by (auto simp: is_hex_def Let_def split: if_splits)

lemma nth_append_drop: "i < length s \<Longrightarrow> drop i s = c # r \<Longrightarrow> s ! i = c"
  by (simp add: Cons_nth_drop_Suc[symmetric])

lemma from_hex_percent_byte:
  assumes "drop i s = hex_digit (of_char c div 16) # hex_digit (of_char c mod 16) # r"
  shows "from_hex_to_i s i 2 = Some (of_char c)"
proof -
  have c: "(of_char c :: nat) div 16 < 16"
    using nat_of_char_less_256[of c] by linarith
  have "length s - i \<ge> 2" using arg_cong[OF assms, of length] by simp
  moreover have "s ! i = hex_digit (of_char c div 16)" "s ! (i + 1) = hex_digit (of_char c mod 16)"
    using assms nth_drop[of i s 0] nth_drop[of i s 1] calculation by auto
  ultimately show ?thesis using c by (simp add: from_hex_to_i_def numeral_2_eq_2 Let_def)
qed

text \<open>A code that is encoded takes one to four bytes; surrogates are not encoded.\<close>

lemma to_utf8_length:
  "0 \<le> code \<Longrightarrow> to_utf8 code = [] \<longleftrightarrow> 0xD800 \<le> code \<and> code < 0xE000 \<or> 0x110000 \<le> code"
  "length (to_utf8 code) \<le> 4"
  by (auto simp: to_utf8_def)

subsection \<open>Cutting a line\<close>

text \<open>\<open>trim\<close> moves the ends of a piece inwards over blanks; the left end may move past the right.\<close>

function trim_left :: "string \<Rightarrow> nat \<Rightarrow> nat" where
  "trim_left s l = (if l < length s \<and> is_space_or_tab (s ! l) then trim_left s (l + 1) else l)"
  by pat_completeness auto
termination by (relation "measure (\<lambda>(s, l). length s - l)") auto

declare trim_left.simps [simp del]

fun trim_right :: "string \<Rightarrow> nat \<Rightarrow> nat" where
  "trim_right s 0 = 0"
| "trim_right s (Suc r) = (if is_space_or_tab (s ! r) then trim_right s r else Suc r)"

definition trim :: "string \<Rightarrow> nat \<Rightarrow> nat \<Rightarrow> nat \<times> nat" where
  "trim s l r = (trim_left s l, trim_right s r)"

definition trim_copy :: "string \<Rightarrow> string" where
  "trim_copy s = (let (l, r) = trim s 0 (length s) in substr s l (r - l))"

definition trim_double_quotes_copy :: "string \<Rightarrow> string" where
  "trim_double_quotes_copy s =
     (if 2 \<le> length s \<and> hd s = CHR 0x22 \<and> last s = CHR 0x22 then substr s 1 (length s - 2) else s)"

text \<open>The two parts \<open>divide\<close> passes on: what is before the first \<open>d\<close> and what is after it.\<close>

definition divide :: "string \<Rightarrow> char \<Rightarrow> string \<times> string" where
  "divide s d =
     (case str_find [d] s of None \<Rightarrow> (s, []) | Some i \<Rightarrow> (take i s, drop (i + 1) s))"

text \<open>The pieces \<open>split\<close> passes on, in order.\<close>

definition emit :: "string \<Rightarrow> nat \<Rightarrow> nat \<Rightarrow> string list" where
  "emit s l r = (let (a, b) = trim s l r in if a < b then [substr s a (b - a)] else [])"

function split_loop :: "string \<Rightarrow> char \<Rightarrow> nat \<Rightarrow> nat \<Rightarrow> nat \<Rightarrow> nat \<Rightarrow> string list" where
  "split_loop s d m i beg count =
     (if i < length s
      then if s ! i = d \<and> count < m then emit s beg i @ split_loop s d m (i + 1) (i + 1) (count + 1)
           else split_loop s d m (i + 1) beg count
      else if i \<noteq> 0 then emit s beg i else [])"
  by pat_completeness auto
termination by (relation "measure (\<lambda>(s, d, m, i, beg, count). length s - i)") auto

declare split_loop.simps [simp del]

definition split_max :: "string \<Rightarrow> char \<Rightarrow> nat \<Rightarrow> string list" where
  "split_max s d m = split_loop s d m 0 0 1"

definition split :: "string \<Rightarrow> char \<Rightarrow> string list" where
  "split s d = split_max s d (2 ^ 64 - 1)"

text \<open>The piece without its blanks, and the pieces between separators.\<close>

definition strip :: "string \<Rightarrow> string" where
  "strip s = rev (dropWhile is_space_or_tab (rev (dropWhile is_space_or_tab s)))"

fun pieces :: "char \<Rightarrow> string \<Rightarrow> string list" where
  "pieces d [] = [[]]"
| "pieces d (c # s) = (if c = d then [] # pieces d s else (c # hd (pieces d s)) # tl (pieces d s))"

lemma trim_left_append:
  assumes "list_all is_space_or_tab b" "q = [] \<or> \<not> is_space_or_tab (hd q)"
  shows "trim_left (p @ b @ q) (length p) = length p + length b"
  using assms(1)
proof (induction b arbitrary: p)
  case Nil
  with assms(2) show ?case by (subst trim_left.simps) (cases q, auto)
next
  case (Cons c b)
  have "trim_left (p @ (c # b) @ q) (length p) = trim_left ((p @ [c]) @ b @ q) (length (p @ [c]))"
    using Cons.prems by (subst trim_left.simps) simp
  with Cons.IH[of "p @ [c]"] Cons.prems show ?case by simp
qed

lemma trim_left_ge: "l \<le> trim_left s l"
proof (induction s l rule: trim_left.induct)
  case (1 s l)
  then show ?case by (subst trim_left.simps) (auto intro: Suc_leD)
qed

lemma trim_right_append:
  assumes "list_all is_space_or_tab b" "p = [] \<or> \<not> is_space_or_tab (last p)"
  shows "trim_right (p @ b @ q) (length p + length b) = length p"
  using assms(1)
proof (induction b arbitrary: q rule: rev_induct)
  case Nil
  with assms(2) show ?case by (cases p rule: rev_cases) (auto simp: nth_append)
next
  case (snoc c b)
  then show ?case using snoc.IH[of "c # q"] by (simp add: nth_append)
qed

lemma trim_right_le: "trim_right s r \<le> r"
  by (induction r) auto

lemma trim_right_blank:
  "\<forall>j \<in> {l..<r}. is_space_or_tab (s ! j) \<Longrightarrow> l \<le> r \<Longrightarrow> trim_right s r \<le> l"
proof (induction r)
  case (Suc r)
  then show ?case using trim_right_le[of s r] by (cases "l = Suc r") (auto simp: le_Suc_eq)
qed simp

lemma trim_left_blank:
  "\<forall>j \<in> {l..<r}. is_space_or_tab (s ! j) \<Longrightarrow> r \<le> length s \<Longrightarrow> l \<le> r \<Longrightarrow> r \<le> trim_left s l"
proof (induction s l rule: trim_left.induct)
  case (1 s l)
  show ?case
  proof (cases "l = r")
    case False
    with 1 show ?thesis by (subst trim_left.simps) auto
  qed (simp add: trim_left_ge)
qed

text \<open>A piece is blank, or it is blanks, the stripped piece and blanks.\<close>

lemma strip_cases:
  obtains "list_all is_space_or_tab s" "strip s = []"
  | b m e where "s = b @ m @ e" "list_all is_space_or_tab b" "list_all is_space_or_tab e" "m \<noteq> []"
      "\<not> is_space_or_tab (hd m)" "\<not> is_space_or_tab (last m)" "strip s = m"
proof (cases "list_all is_space_or_tab s")
  case True
  then have "dropWhile is_space_or_tab s = []" by (simp add: list_all_iff)
  with True that(1) show ?thesis by (simp add: strip_def del: dropWhile_eq_Nil_conv)
next
  case False
  define b where "b = takeWhile is_space_or_tab s"
  define r where "r = dropWhile is_space_or_tab s"
  define e where "e = rev (takeWhile is_space_or_tab (rev r))"
  define m where "m = rev (dropWhile is_space_or_tab (rev r))"
  have s: "s = b @ r" unfolding b_def r_def by simp
  have r: "r = m @ e" unfolding m_def e_def
    by (metis rev_append rev_rev_ident takeWhile_dropWhile_id)
  have "r \<noteq> []" using False by (auto simp: r_def list_all_iff)
  then have h: "\<not> is_space_or_tab (hd r)" by (simp add: r_def hd_dropWhile)
  have "m \<noteq> []"
  proof
    assume "m = []"
    then have "list_all is_space_or_tab r" by (simp add: m_def list_all_iff)
    with \<open>r \<noteq> []\<close> h show False by (cases r) auto
  qed
  moreover have "\<not> is_space_or_tab (last m)"
    using \<open>m \<noteq> []\<close> hd_dropWhile[of is_space_or_tab "rev r"] by (simp add: m_def last_rev)
  moreover have "hd m = hd r" using \<open>m \<noteq> []\<close> r by simp
  moreover have "list_all is_space_or_tab b" "list_all is_space_or_tab e"
    by (auto simp: b_def e_def list_all_iff dest: set_takeWhileD)
  moreover have "strip s = m" by (simp add: strip_def m_def r_def)
  moreover have "s = b @ m @ e" using s r by blast
  ultimately show ?thesis using that(2)[of b m e] h by metis
qed

lemma emit_strip:
  assumes "l \<le> r" "r \<le> length s"
  shows "emit s l r = (if strip (substr s l (r - l)) = [] then [] else [strip (substr s l (r - l))])"
proof -
  define p w q where "p = take l s" and "w = substr s l (r - l)" and "q = drop r s"
  have s: "s = p @ w @ q" using assms
    by (simp add: p_def w_def q_def substr_def)
       (metis append_take_drop_id drop_drop le_add_diff_inverse2 append.assoc)
  have l: "l = length p" "r = length p + length w" using assms by (simp_all add: p_def w_def substr_def)
  show ?thesis
  proof (rule strip_cases[of w])
    assume "list_all is_space_or_tab w" "strip w = []"
    then have "\<forall>j \<in> {l..<r}. is_space_or_tab (s ! j)"
      using l by (auto simp: s nth_append list_all_length)
    with trim_right_blank trim_left_blank assms \<open>strip w = []\<close> show ?thesis
      by (fastforce simp: emit_def trim_def w_def)
  next
    fix b m e
    assume w: "w = b @ m @ e" "list_all is_space_or_tab b" "list_all is_space_or_tab e" "m \<noteq> []"
      "\<not> is_space_or_tab (hd m)" "\<not> is_space_or_tab (last m)" "strip w = m"
    have "trim_left (p @ b @ m @ e @ q) (length p) = length p + length b"
      using w by (intro trim_left_append) auto
    moreover have "trim_right ((p @ b @ m) @ e @ q) (length (p @ b @ m) + length e) = length (p @ b @ m)"
      using w by (intro trim_right_append) auto
    ultimately have "emit s l r = [m]"
      using w l unfolding s by (simp add: emit_def trim_def substr_def add.assoc)
    with w show ?thesis by (simp add: w_def)
  qed
qed

lemma trim_copy_strip: "trim_copy s = strip s"
proof -
  have "trim_copy s = concat (emit s 0 (length s))"
    by (auto simp: trim_copy_def emit_def trim_def substr_def)
  then show ?thesis using emit_strip[of 0 "length s" s] by (simp add: substr_def)
qed

lemma pieces_nonempty [simp]: "pieces d s \<noteq> []"
  by (induction s) auto

lemma pieces_sep: "d \<notin> set w \<Longrightarrow> pieces d (w @ d # s) = w # pieces d s"
  by (induction w) auto

lemma pieces_last: "d \<notin> set w \<Longrightarrow> pieces d w = [w]"
  by (induction w) auto

lemma strip_Nil [simp]: "strip [] = []"
  by (simp add: strip_def)

lemma emit_filter:
  "l \<le> r \<Longrightarrow> r \<le> length s \<Longrightarrow> emit s l r = filter (\<lambda>t. t \<noteq> []) [strip (substr s l (r - l))]"
  by (simp add: emit_strip)

lemma split_loop_pieces:
  assumes "beg \<le> i" "i \<le> length s" "d \<notin> set (substr s beg (i - beg))" "count + (length s - i) \<le> m"
  shows "split_loop s d m i beg count = filter (\<lambda>t. t \<noteq> []) (map strip (pieces d (drop beg s)))"
  using assms
proof (induction s d m i beg count rule: split_loop.induct)
  case (1 s d m i beg count)
  let ?w = "substr s beg (i - beg)"
  have w: "drop beg s = ?w @ drop i s"
    using "1.prems"(1,2) by (simp add: substr_def) (metis append_take_drop_id drop_drop le_add_diff_inverse2)
  show ?case
  proof (cases "i < length s")
    case True
    show ?thesis
    proof (cases "s ! i = d")
      case eq: True
      have count: "count < m" using "1.prems"(4) True by simp
      have "split_loop s d m (i + 1) (i + 1) (count + 1) =
          filter (\<lambda>t. t \<noteq> []) (map strip (pieces d (drop (i + 1) s)))"
        using "1.IH"(1)[OF True] eq count "1.prems" True by (simp add: substr_def)
      moreover have "pieces d (drop beg s) = ?w # pieces d (drop (i + 1) s)"
        using w True eq "1.prems"(3) pieces_sep[of d ?w "drop (i + 1) s"] by (simp flip: Cons_nth_drop_Suc)
      ultimately show ?thesis
        using True eq count emit_filter[of beg i s] "1.prems" by (subst split_loop.simps) simp
    next
      case False
      have "substr s beg (i + 1 - beg) = ?w @ [s ! i]"
        using "1.prems"(1) True by (simp add: substr_def Suc_diff_le take_Suc_conv_app_nth)
      then show ?thesis
        using "1.IH"(2)[OF True] False "1.prems" True by (subst split_loop.simps) auto
    qed
  next
    case False
    then have "i = length s" using "1.prems"(2) by simp
    then have "pieces d (drop beg s) = [?w]" using w "1.prems"(3) pieces_last[of d ?w] by simp
    then show ?thesis
      using False emit_filter[of beg i s] "1.prems"(1,2) by (subst split_loop.simps) auto
  qed
qed

text \<open>\<open>split\<close> passes on the pieces between the separators, stripped, without the empty ones.\<close>

lemma split_pieces:
  "length s < 2 ^ 64 - 1 \<Longrightarrow> split s d = filter (\<lambda>t. t \<noteq> []) (map strip (pieces d s))"
  using split_loop_pieces[of 0 0 s d 1 "2 ^ 64 - 1"] by (simp add: split_def split_max_def substr_def)

lemma divide_append: "d \<notin> set a \<Longrightarrow> divide (a @ d # b) d = (a, b)"
  by (simp add: divide_def str_find_single)

lemma divide_none: "d \<notin> set a \<Longrightarrow> divide a d = (a, [])"
  by (simp add: divide_def str_find_single_None[THEN iffD2])

lemma divide_join: "divide s d = (a, b) \<Longrightarrow> s = a \<and> b = [] \<and> d \<notin> set s \<or> s = a @ d # b"
  using str_find_split[of "[d]" s] str_find_single_None[of d s]
  by (auto simp: divide_def split: option.splits)

end
