(* ===== verification/HttpStream.thy ===== *)
theory HttpStream
  imports HttpChars
begin

text \<open>
  The streams of the HTTP library (httplib.h): a socket read through a buffer, writing all of a
  string, and the reader that takes a line at a time from a stream. What arrives on a socket is a
  list of chunks, one for each time the kernel has data, and then a result that is not positive:
  0 when the peer has closed the connection, negative for an error or a timeout. What the kernel
  takes of each write is a list of results, after which it takes everything. The lemmas show that
  reading depends only on the bytes that arrive and not on the chunks.
\<close>

subsection \<open>Sockets\<close>

record stream =
  read_buff :: string
  arriving :: "string list"
  arrival_end :: int
  sent :: string
  send_results :: "int list"

text \<open>\<open>recv\<close> of at most \<open>len\<close> bytes: a result that is not positive, or the bytes.\<close>

definition read_socket :: "stream \<Rightarrow> nat \<Rightarrow> (int + string) \<times> stream" where
  "read_socket s len =
     (case arriving s of
        [] \<Rightarrow> (Inl (arrival_end s), s)
      | c # cs \<Rightarrow> (Inr (take len c), s\<lparr>arriving := (if length c \<le> len then cs else drop len c # cs)\<rparr>))"

definition read_buff_size :: nat where
  "read_buff_size = 4096"

definition stream_read :: "stream \<Rightarrow> nat \<Rightarrow> (int + string) \<times> stream" where
  "stream_read s len =
     (if read_buff s \<noteq> []
      then (Inr (take len (read_buff s)), s\<lparr>read_buff := drop len (read_buff s)\<rparr>)
      else if len < read_buff_size
      then (case read_socket s read_buff_size of
              (Inl n, s') \<Rightarrow> (Inl n, s')
            | (Inr d, s') \<Rightarrow> (Inr (take len d), s'\<lparr>read_buff := drop len d\<rparr>))
      else read_socket s len)"

definition stream_write :: "stream \<Rightarrow> string \<Rightarrow> int \<times> stream" where
  "stream_write s data =
     (case send_results s of
        [] \<Rightarrow> (int (length data), s\<lparr>sent := sent s @ data\<rparr>)
      | r # rs \<Rightarrow>
          if r < 0 then (r, s\<lparr>send_results := rs\<rparr>)
          else (let n = min (nat r) (length data)
                in (int n, s\<lparr>sent := sent s @ take n data, send_results := rs\<rparr>)))"

text \<open>\<open>write_data\<close>: its result and the stream after it.\<close>

function write_data_loop :: "stream \<Rightarrow> string \<Rightarrow> nat \<Rightarrow> bool \<times> stream" where
  "write_data_loop s d offset =
     (if offset < length d
      then (let (n, s') = stream_write s (drop offset d)
            in if n < 0 then (False, s') else write_data_loop s' d (offset + nat n))
      else (True, s))"
  by pat_completeness auto
termination
  by (relation "measure (\<lambda>(s, d, offset). length (send_results s) + (length d - offset))")
     (auto simp: stream_write_def Let_def split: list.splits if_splits)

declare write_data_loop.simps [simp del]

definition write_data :: "stream \<Rightarrow> string \<Rightarrow> bool \<times> stream" where
  "write_data s d = write_data_loop s d 0"

text \<open>The bytes still to be read. A chunk is not empty, and what follows the chunks is not positive.\<close>

definition unread :: "stream \<Rightarrow> string" where
  "unread s = read_buff s @ concat (arriving s)"

definition stream_ok :: "stream \<Rightarrow> bool" where
  "stream_ok s \<longleftrightarrow> [] \<notin> set (arriving s) \<and> arrival_end s \<le> 0"

text \<open>Streams with the same bytes left to read and the same bytes written.\<close>

definition same_bytes :: "stream \<Rightarrow> stream \<Rightarrow> bool" where
  "same_bytes s t \<longleftrightarrow> stream_ok s \<and> stream_ok t \<and> unread s = unread t \<and> arrival_end s = arrival_end t \<and>
     sent s = sent t \<and> send_results s = send_results t"

text \<open>A read returns bytes while there are any, at most as many as asked for.\<close>

lemma stream_read_cases:
  assumes ok: "stream_ok s" and "0 < len"
  obtains "unread s = []" "stream_read s len = (Inl (arrival_end s), s)"
  | d s' where "stream_read s len = (Inr d, s')" "d \<noteq> []" "length d \<le> len" "unread s = d @ unread s'"
      "stream_ok s'" "arrival_end s' = arrival_end s" "sent s' = sent s" "send_results s' = send_results s"
proof (cases "read_buff s = []")
  case False
  show ?thesis
    using that(2)[of "take len (read_buff s)" "s\<lparr>read_buff := drop len (read_buff s)\<rparr>"] False assms
    by (simp add: stream_read_def unread_def stream_ok_def)
next
  case buff: True
  show ?thesis
  proof (cases "arriving s")
    case Nil
    then show ?thesis
      using that(1) buff by (simp add: stream_read_def read_socket_def unread_def)
  next
    case (Cons c cs)
    have c: "c \<noteq> []" "[] \<notin> set cs" using ok Cons by (auto simp: stream_ok_def)
    show ?thesis
    proof (cases "len < read_buff_size")
      case True
      define s1 where "s1 = s\<lparr>arriving := (if length c \<le> read_buff_size then cs else drop read_buff_size c # cs),
        read_buff := drop len (take read_buff_size c)\<rparr>"
      have "stream_read s len = (Inr (take len (take read_buff_size c)), s1)"
        using buff Cons True by (simp add: stream_read_def read_socket_def s1_def)
      moreover have "unread s = take len (take read_buff_size c) @ unread s1"
      proof -
        have "take len (take read_buff_size c) @ drop len (take read_buff_size c) @ drop read_buff_size c = c"
          by (metis append_assoc append_take_drop_id)
        then show ?thesis
          using buff Cons unfolding unread_def s1_def by (cases "length c \<le> read_buff_size") auto
      qed
      moreover have "stream_ok s1" using ok c by (auto simp: s1_def stream_ok_def)
      moreover have "take len (take read_buff_size c) \<noteq> []"
        using c assms(2) True by (simp add: read_buff_size_def)
      ultimately show ?thesis using that(2)[of "take len (take read_buff_size c)" s1] by (simp add: s1_def)
    next
      case False
      then show ?thesis
        using that(2)[of "take len c" "s\<lparr>arriving := (if length c \<le> len then cs else drop len c # cs)\<rparr>"]
          buff Cons c ok assms(2)
        by (auto simp: stream_read_def read_socket_def unread_def stream_ok_def)
    qed
  qed
qed

text \<open>Reading one byte takes the first one.\<close>

lemma stream_read_1:
  assumes "stream_ok s"
  shows "stream_read s 1 = (Inl (arrival_end s), s) \<and> unread s = [] \<or>
    (\<exists>c s'. stream_read s 1 = (Inr [c], s') \<and> unread s = c # unread s' \<and> stream_ok s' \<and>
       arrival_end s' = arrival_end s \<and> sent s' = sent s \<and> send_results s' = send_results s)"
proof (rule stream_read_cases[OF assms, of 1])
  fix d s'
  assume d: "stream_read s 1 = (Inr d, s')" "d \<noteq> []" "length d \<le> 1" "unread s = d @ unread s'"
    "stream_ok s'" "arrival_end s' = arrival_end s" "sent s' = sent s" "send_results s' = send_results s"
  then obtain c where "d = [c]" by (cases d) auto
  with d show ?thesis by auto
qed auto

text \<open>A \<open>write_data\<close> sends a prefix, all of it when it returns true.\<close>

lemma write_data_loop_sends:
  "offset \<le> length d \<Longrightarrow> write_data_loop s d offset = (r, s') \<Longrightarrow>
   \<exists>k. offset \<le> k \<and> k \<le> length d \<and> sent s' = sent s @ take (k - offset) (drop offset d) \<and> (r \<longrightarrow> k = length d)"
proof (induction s d offset arbitrary: r s' rule: write_data_loop.induct)
  case (1 s d offset)
  show ?case
  proof (cases "offset < length d")
    case False
    with "1.prems" show ?thesis by (intro exI[of _ offset]) (simp add: write_data_loop.simps[of s])
  next
    case True
    obtain n s1 where w: "stream_write s (drop offset d) = (n, s1)" by fastforce
    show ?thesis
    proof (cases "n < 0")
      case True
      with w \<open>offset < length d\<close> "1.prems" show ?thesis
        by (intro exI[of _ offset])
           (auto simp: write_data_loop.simps[of s] stream_write_def Let_def split: list.splits if_splits)
    next
      case False
      from w False have n: "nat n \<le> length d - offset" "sent s1 = sent s @ take (nat n) (drop offset d)"
        by (auto simp: stream_write_def Let_def split: list.splits if_splits)
      have "write_data_loop s1 d (offset + nat n) = (r, s')"
        using "1.prems"(2) True w False by (subst (asm) write_data_loop.simps) simp
      moreover have "offset + nat n \<le> length d" using n True by simp
      ultimately obtain k where
        k: "offset + nat n \<le> k" "k \<le> length d" "r \<longrightarrow> k = length d"
          "sent s' = sent s1 @ take (k - (offset + nat n)) (drop (offset + nat n) d)"
        using "1.IH"[OF True w[symmetric] refl False] by blast
      then have k': "k - offset = nat n + (k - (offset + nat n))" by simp
      have "take (k - offset) (drop offset d) =
          take (nat n) (drop offset d) @ take (k - (offset + nat n)) (drop (offset + nat n) d)"
        unfolding k' take_add by (simp add: add.commute)
      with k n show ?thesis by (intro exI[of _ k]) simp
    qed
  qed
qed

lemma write_data_all: "send_results s = [] \<Longrightarrow> write_data s d = (True, s\<lparr>sent := sent s @ d\<rparr>)"
  unfolding write_data_def
  by (subst write_data_loop.simps)
     (auto simp: stream_write_def write_data_loop.simps[of _ d "length d"])

subsection \<open>Reading a line\<close>

text \<open>
  \<open>stream_line_reader\<close>: the first bytes of a line are kept in a buffer of fixed size on the stack,
  a longer line is moved to a buffer that grows.
\<close>

record line_reader =
  fixed_buffer :: string
  fixed_buffer_size :: nat
  growable_buffer :: string

definition line_reader :: "nat \<Rightarrow> line_reader" where
  "line_reader len = \<lparr>fixed_buffer = [], fixed_buffer_size = len, growable_buffer = []\<rparr>"

definition line_text :: "line_reader \<Rightarrow> string" where
  "line_text lr = (if growable_buffer lr = [] then fixed_buffer lr else growable_buffer lr)"

text \<open>\<open>ptr()\<close> read as a C string.\<close>

definition line_c_str :: "line_reader \<Rightarrow> string" where
  "line_c_str lr = takeWhile (\<lambda>c. c \<noteq> CHR 0x00) (line_text lr)"

definition line_size :: "line_reader \<Rightarrow> nat" where
  "line_size lr = (if growable_buffer lr = [] then length (fixed_buffer lr) else length (growable_buffer lr))"

definition end_with_crlf :: "line_reader \<Rightarrow> bool" where
  "end_with_crlf lr \<longleftrightarrow> 2 \<le> line_size lr \<and>
     line_text lr ! (line_size lr - 2) = CHR 0x0D \<and> line_text lr ! (line_size lr - 1) = CHR 0x0A"

definition line_append :: "line_reader \<Rightarrow> char \<Rightarrow> line_reader" where
  "line_append lr c =
     (if length (fixed_buffer lr) < fixed_buffer_size lr - 1
      then lr\<lparr>fixed_buffer := fixed_buffer lr @ [c]\<rparr>
      else lr\<lparr>growable_buffer := (if growable_buffer lr = [] then fixed_buffer lr else growable_buffer lr) @ [c]\<rparr>)"

definition MAX_LINE_LENGTH :: nat where
  "MAX_LINE_LENGTH = 32768"

text \<open>The loop of \<open>getline\<close>, with the byte before.\<close>

function getline_loop :: "line_reader \<Rightarrow> char \<Rightarrow> nat \<Rightarrow> stream \<Rightarrow> bool \<times> line_reader \<times> stream" where
  "getline_loop lr prev_byte i s =
     (if MAX_LINE_LENGTH \<le> line_size lr then (False, lr, s)
      else (case stream_read s 1 of
              (Inl n, s') \<Rightarrow> (if n < 0 then False else i \<noteq> 0, lr, s')
            | (Inr d, s') \<Rightarrow>
                (if d = [] then (i \<noteq> 0, lr, s')
                 else
                   let byte = hd d; lr' = line_append lr byte
                   in if prev_byte = CHR 0x0D \<and> byte = CHR 0x0A then (True, lr', s')
                      else getline_loop lr' byte (i + 1) s')))"
  by pat_completeness auto

termination getline_loop
  by (relation "measure (\<lambda>(lr, p, i, s). (fixed_buffer_size lr - length (fixed_buffer lr)) + (MAX_LINE_LENGTH - line_size lr))")
     (auto simp: line_append_def line_size_def Let_def split: if_splits)

declare getline_loop.simps [simp del]

definition line_getline :: "line_reader \<Rightarrow> stream \<Rightarrow> bool \<times> line_reader \<times> stream" where
  "line_getline lr s = getline_loop (lr\<lparr>fixed_buffer := [], growable_buffer := []\<rparr>) (CHR 0x00) 0 s"

text \<open>The growing buffer is used when the fixed one is full; the reader's text is then what was appended.\<close>

definition reader_ok :: "line_reader \<Rightarrow> bool" where
  "reader_ok lr \<longleftrightarrow> growable_buffer lr = [] \<or> fixed_buffer_size lr - 1 \<le> length (fixed_buffer lr)"

lemma line_size_text: "line_size lr = length (line_text lr)"
  by (simp add: line_size_def line_text_def)

lemma line_append_text:
  "reader_ok lr \<Longrightarrow> line_text (line_append lr c) = line_text lr @ [c] \<and> reader_ok (line_append lr c)"
  by (auto simp: line_append_def line_text_def reader_ok_def)

lemma line_append_fixed [simp]: "fixed_buffer_size (line_append lr c) = fixed_buffer_size lr"
  by (simp add: line_append_def)

text \<open>The same loop on the bytes that arrive: the result, the line, and what is left.\<close>

fun line_of :: "string \<Rightarrow> char \<Rightarrow> int \<Rightarrow> string \<Rightarrow> bool \<times> string \<times> string" where
  "line_of acc prev end [] =
     (if MAX_LINE_LENGTH \<le> length acc then (False, acc, []) else (if end < 0 then False else acc \<noteq> [], acc, []))"
| "line_of acc prev end (c # bs) =
     (if MAX_LINE_LENGTH \<le> length acc then (False, acc, c # bs)
      else if prev = CHR 0x0D \<and> c = CHR 0x0A then (True, acc @ [c], bs)
      else line_of (acc @ [c]) c end bs)"

definition read_line :: "int \<Rightarrow> string \<Rightarrow> bool \<times> string \<times> string" where
  "read_line end bs = line_of [] (CHR 0x00) end bs"

lemma getline_loop_line_of:
  assumes "stream_ok s" "reader_ok lr" "i = length (line_text lr)"
  shows "\<exists>lr' s'. getline_loop lr prev i s =
      (fst (line_of (line_text lr) prev (arrival_end s) (unread s)), lr', s') \<and>
    line_text lr' = fst (snd (line_of (line_text lr) prev (arrival_end s) (unread s))) \<and>
    unread s' = snd (snd (line_of (line_text lr) prev (arrival_end s) (unread s))) \<and>
    stream_ok s' \<and> arrival_end s' = arrival_end s \<and> sent s' = sent s \<and> send_results s' = send_results s \<and>
    fixed_buffer_size lr' = fixed_buffer_size lr"
  using assms
proof (induction lr prev i s rule: getline_loop.induct)
  case (1 lr prev i s)
  show ?case
  proof (cases "MAX_LINE_LENGTH \<le> line_size lr")
    case True
    then show ?thesis
      using "1.prems" by (cases "unread s") (auto simp: getline_loop.simps[of lr] line_size_text)
  next
    case len: False
    from stream_read_1[OF "1.prems"(1)] show ?thesis
    proof (elim disjE conjE exE)
      assume "stream_read s 1 = (Inl (arrival_end s), s)" "unread s = []"
      then show ?thesis
        using len "1.prems" by (auto simp: getline_loop.simps[of lr] line_size_text)
    next
      fix c s1
      assume r: "stream_read s 1 = (Inr [c], s1)" "unread s = c # unread s1" "stream_ok s1"
        "arrival_end s1 = arrival_end s" "sent s1 = sent s" "send_results s1 = send_results s"
      note app = line_append_text[OF "1.prems"(2), of c]
      show ?thesis
      proof (cases "prev = CHR 0x0D \<and> c = CHR 0x0A")
        case True
        then show ?thesis
          using len r app by (subst getline_loop.simps) (simp add: line_size_text Let_def line_append_fixed)
      next
        case False
        have "getline_loop lr prev i s = getline_loop (line_append lr c) c (i + 1) s1"
          using len r False by (subst getline_loop.simps) (auto simp: Let_def)
        then have "getline_loop lr prev i s = getline_loop (line_append lr c) c (i + 1) s1" .
        moreover have "line_of (line_text lr) prev (arrival_end s) (unread s) =
            line_of (line_text lr @ [c]) c (arrival_end s) (unread s1)"
          using len r(2) False by (auto simp: line_size_text)
        moreover have "\<exists>lr' s'. getline_loop (line_append lr c) c (i + 1) s1 =
            (fst (line_of (line_text (line_append lr c)) c (arrival_end s1) (unread s1)), lr', s') \<and>
          line_text lr' = fst (snd (line_of (line_text (line_append lr c)) c (arrival_end s1) (unread s1))) \<and>
          unread s' = snd (snd (line_of (line_text (line_append lr c)) c (arrival_end s1) (unread s1))) \<and>
          stream_ok s' \<and> arrival_end s' = arrival_end s1 \<and> sent s' = sent s1 \<and> send_results s' = send_results s1 \<and>
          fixed_buffer_size lr' = fixed_buffer_size (line_append lr c)"
          by (rule "1.IH"[OF len r(1)[symmetric] refl]) (use False r app "1.prems"(3) in auto)
        ultimately show ?thesis using r app by simp
      qed
    qed
  qed
qed

text \<open>A \<open>line_getline\<close> depends on the bytes that arrive, not on the chunks they arrive in.\<close>

lemma line_getline_read_line:
  assumes "stream_ok s"
  obtains ok l r lr' s' where "read_line (arrival_end s) (unread s) = (ok, l, r)" "line_getline lr s = (ok, lr', s')"
    "line_text lr' = l" "unread s' = r" "stream_ok s'" "arrival_end s' = arrival_end s" "sent s' = sent s"
    "send_results s' = send_results s"
proof -
  let ?lr = "lr\<lparr>fixed_buffer := [], growable_buffer := []\<rparr>"
  have "line_text ?lr = []" "reader_ok ?lr" by (simp_all add: line_text_def reader_ok_def)
  with getline_loop_line_of[OF assms, of ?lr 0 "CHR 0x00"] that show ?thesis
    unfolding line_getline_def read_line_def by (metis list.size(3) prod.collapse)
qed

text \<open>A line that ends in CRLF and is not too long is read as it is.\<close>

lemma line_of_crlf:
  assumes "str_find [CHR 0x0D, CHR 0x0A] (prev # l @ [CHR 0x0D, CHR 0x0A]) = Some (Suc (length l))"
    "length acc + length l + 2 \<le> MAX_LINE_LENGTH"
  shows "line_of acc prev end (l @ [CHR 0x0D, CHR 0x0A] @ r) = (True, acc @ l @ [CHR 0x0D, CHR 0x0A], r)"
  using assms
proof (induction l arbitrary: acc prev)
  case (Cons c l)
  then show ?case by (auto split: if_splits)
qed (auto split: if_splits)

lemma read_line_crlf:
  assumes "str_find [CHR 0x0D, CHR 0x0A] (l @ [CHR 0x0D, CHR 0x0A]) = Some (length l)" "length l + 2 \<le> MAX_LINE_LENGTH"
  shows "read_line end (l @ [CHR 0x0D, CHR 0x0A] @ r) = (True, l @ [CHR 0x0D, CHR 0x0A], r)"
  using line_of_crlf[of "CHR 0x00" l "[]" "end" r] assms by (simp add: read_line_def)

lemma line_of_shrinks:
  "line_of acc prev end bs = (ok, l, r) \<Longrightarrow> \<exists>x. bs = x @ r \<and> l = acc @ x"
  by (induction acc prev "end" bs rule: line_of.induct) (auto split: if_splits)

lemma line_of_grows: "line_of acc prev end bs = (ok, l, r) \<Longrightarrow> length acc \<le> length l"
  using line_of_shrinks by fastforce

lemma read_line_consumes:
  assumes "read_line end bs = (ok, l, r)"
  shows "bs = l @ r" "ok \<Longrightarrow> length r < length bs"
proof -
  show bs: "bs = l @ r" using line_of_shrinks[of "[]"] assms by (auto simp: read_line_def)
  show "length r < length bs" if ok
  proof (rule ccontr)
    assume "\<not> length r < length bs"
    with bs have "l = []" by simp
    show False
    proof (cases bs)
      case Nil
      with assms that show False by (auto simp: read_line_def split: if_splits)
    next
      case (Cons a bs')
      with assms have "line_of [a] a end bs' = (ok, l, r)" by (simp add: read_line_def MAX_LINE_LENGTH_def)
      from line_of_grows[OF this] \<open>l = []\<close> show False by simp
    qed
  qed
qed

end
