(* ===== verification/UriCoding.thy ===== *)
theory UriCoding
  imports HttpChars
begin

text \<open>
  Percent encoding and decoding of URIs in the HTTP library (httplib.h): the encoders of path and
  query components, the decoder the server applies to the path of a request and to header values,
  and the query string. The decoders look ahead in the string they decode, so they are recursive
  in the position. Each encoder is inverted by its decoder.
\<close>

subsection \<open>Encoders\<close>

definition is_uri_unreserved :: "char \<Rightarrow> bool" where
  "is_uri_unreserved c \<longleftrightarrow> is_alnum c \<or> c \<in> set (''-_.!~*()'' @ [CHR 0x27])"

definition encode_uri_component :: "string \<Rightarrow> string" where
  "encode_uri_component value =
     concat (map (\<lambda>c. if is_uri_unreserved c then [c] else percent_byte c) value)"

definition encode_uri :: "string \<Rightarrow> string" where
  "encode_uri value =
     concat (map (\<lambda>c. if is_uri_unreserved c \<or> c \<in> set '';/?:@&=+$,#'' then [c] else percent_byte c) value)"

text \<open>\<open>encode_path\<close> stops at a zero byte, the end of a C string.\<close>

definition encode_path_char :: "char \<Rightarrow> string" where
  "encode_path_char c =
     (if c = CHR '' '' then ''%20'' else if c = CHR ''+'' then ''%2B''
      else if c = CHR 0x0D then ''%0D'' else if c = CHR 0x0A then ''%0A''
      else if c = CHR 0x27 then ''%27'' else if c = CHR '','' then ''%2C''
      else if c = CHR '';'' then ''%3B''
      else if 128 \<le> (of_char c :: nat) then percent_byte c else [c])"

definition encode_path :: "string \<Rightarrow> string" where
  "encode_path s = concat (map encode_path_char (takeWhile (\<lambda>c. c \<noteq> CHR 0x00) s))"

definition is_rfc_unreserved :: "char \<Rightarrow> bool" where
  "is_rfc_unreserved c \<longleftrightarrow> is_alnum c \<or> c \<in> set ''-._~''"

definition path_component_char :: "char \<Rightarrow> string" where
  "path_component_char c =
     (if is_rfc_unreserved c then [c]
      else if c \<in> set (''!$&()*+,;='' @ [CHR 0x27]) then [c]
      else if c = CHR '':'' then [c]
      else if c = CHR ''@'' then [c]
      else percent_byte c)"

definition encode_path_component :: "string \<Rightarrow> string" where
  "encode_path_component component = concat (map path_component_char component)"

definition query_component_char :: "bool \<Rightarrow> char \<Rightarrow> string" where
  "query_component_char space_as_plus c =
     (if is_rfc_unreserved c then [c]
      else if c = CHR '' '' then (if space_as_plus then ''+'' else ''%20'')
      else if c = CHR ''+'' then (if space_as_plus then ''%2B'' else [c])
      else if c \<in> set (''!$()*,;'' @ [CHR 0x27]) then [c]
      else if c = CHR '':'' \<or> c = CHR ''@'' then [c]
      else if c = CHR ''/'' then [c]
      else if c = CHR ''?'' then [c]
      else percent_byte c)"

definition encode_query_component :: "string \<Rightarrow> bool \<Rightarrow> string" where
  "encode_query_component component space_as_plus = concat (map (query_component_char space_as_plus) component)"

subsection \<open>Decoders\<close>

function decode_uri_loop :: "string \<Rightarrow> nat \<Rightarrow> string" where
  "decode_uri_loop value i =
     (if i < length value
      then (if value ! i = CHR 0x25 \<and> i + 2 < length value
            then (case from_hex_to_i value (i + 1) 2 of
                    Some val \<Rightarrow> char_of val # decode_uri_loop value (i + 3)
                  | None \<Rightarrow> value ! i # decode_uri_loop value (i + 1))
            else value ! i # decode_uri_loop value (i + 1))
      else [])"
  by pat_completeness auto
termination by (relation "measure (\<lambda>(s, i). length s - i)") auto

declare decode_uri_loop.simps [simp del]

definition decode_uri_component :: "string \<Rightarrow> string" where
  "decode_uri_component value = decode_uri_loop value 0"

definition decode_uri :: "string \<Rightarrow> string" where
  "decode_uri value = decode_uri_loop value 0"

text \<open>\<open>%uXXXX\<close> stands for a code of UTF-16, any other escape for a byte.\<close>

function decode_path_loop :: "string \<Rightarrow> nat \<Rightarrow> string" where
  "decode_path_loop s i =
     (if i < length s
      then (if s ! i = CHR 0x25 \<and> i + 1 < length s
            then (if s ! (i + 1) = CHR ''u''
                  then (case from_hex_to_i s (i + 2) 4 of
                          Some val \<Rightarrow> to_utf8 (int val) @ decode_path_loop s (i + 6)
                        | None \<Rightarrow> s ! i # decode_path_loop s (i + 1))
                  else (case from_hex_to_i s (i + 1) 2 of
                          Some val \<Rightarrow> char_of val # decode_path_loop s (i + 3)
                        | None \<Rightarrow> s ! i # decode_path_loop s (i + 1)))
            else s ! i # decode_path_loop s (i + 1))
      else [])"
  by pat_completeness auto
termination by (relation "measure (\<lambda>(s, i). length s - i)") auto

declare decode_path_loop.simps [simp del]

definition decode_path_component :: "string \<Rightarrow> string" where
  "decode_path_component component = decode_path_loop component 0"

text \<open>
  \<open>std::strtoul\<close> in base 16 on two characters, when it uses both: it skips blanks and takes a
  sign, and a negative number wraps.
\<close>

definition strtoul_pair :: "char \<Rightarrow> char \<Rightarrow> nat option" where
  "strtoul_pair a b =
     (if is_space a \<or> a = CHR ''+'' then is_hex b
      else if a = CHR ''-'' then map_option (\<lambda>v. (2 ^ 64 - v) mod 2 ^ 64) (is_hex b)
      else (case is_hex a of None \<Rightarrow> None | Some v \<Rightarrow> map_option (\<lambda>w. v * 16 + w) (is_hex b)))"

function decode_query_loop :: "string \<Rightarrow> bool \<Rightarrow> nat \<Rightarrow> string" where
  "decode_query_loop s plus_as_space i =
     (if i < length s
      then (if s ! i = CHR 0x25 \<and> i + 2 < length s
            then (case strtoul_pair (s ! (i + 1)) (s ! (i + 2)) of
                    Some value \<Rightarrow> char_of value # decode_query_loop s plus_as_space (i + 3)
                  | None \<Rightarrow> s ! i # decode_query_loop s plus_as_space (i + 1))
            else if s ! i = CHR ''+'' \<and> plus_as_space then CHR '' '' # decode_query_loop s plus_as_space (i + 1)
            else s ! i # decode_query_loop s plus_as_space (i + 1))
      else [])"
  by pat_completeness auto
termination by (relation "measure (\<lambda>(s, p, i). length s - i)") auto

declare decode_query_loop.simps [simp del]

definition decode_query_component :: "string \<Rightarrow> bool \<Rightarrow> string" where
  "decode_query_component component plus_as_space = decode_query_loop component plus_as_space 0"

subsection \<open>Round trips\<close>

lemma percent_byte_length [simp]: "length (percent_byte c) = 3"
  by (simp add: percent_byte_def)

lemma of_char_halves: "(of_char c :: nat) div 16 < 16" "(of_char c :: nat) mod 16 < 16"
  using nat_of_char_less_256[of c] by linarith+

text \<open>What each decoder does where an escape, or an ordinary character, starts.\<close>

lemma decode_uri_escape:
  "decode_uri_loop (p @ percent_byte c @ r) (length p) = c # decode_uri_loop (p @ percent_byte c @ r) (length p + 3)"
proof -
  have "from_hex_to_i (p @ percent_byte c @ r) (length p + 1) 2 = Some (of_char c)"
    by (rule from_hex_percent_byte) (simp add: percent_byte_def)
  then show ?thesis by (subst decode_uri_loop.simps) (simp add: nth_append percent_byte_def)
qed

lemma decode_path_escape:
  "decode_path_loop (p @ percent_byte c @ r) (length p) = c # decode_path_loop (p @ percent_byte c @ r) (length p + 3)"
proof -
  have h: "from_hex_to_i (p @ percent_byte c @ r) (length p + 1) 2 = Some (of_char c)"
    by (rule from_hex_percent_byte) (simp add: percent_byte_def)
  have "is_hex (hex_digit (of_char c div 16)) = Some (of_char c div 16)"
    using of_char_halves[of c] by simp
  then have "hex_digit (of_char c div 16) \<noteq> CHR ''u''" by (auto simp: is_hex_def)
  with h show ?thesis by (subst decode_path_loop.simps) (simp add: nth_append percent_byte_def)
qed

lemma is_hex_not_sign:
  assumes "is_hex a = Some v"
  shows "\<not> is_space a" "a \<noteq> CHR ''+''" "a \<noteq> CHR ''-''"
  using assms by (auto simp: is_hex_def is_space_def Let_def split: if_splits)

lemma decode_query_escape:
  "decode_query_loop (p @ percent_byte c @ r) b (length p) =
     c # decode_query_loop (p @ percent_byte c @ r) b (length p + 3)"
proof -
  have "is_hex (hex_digit (of_char c div 16)) = Some (of_char c div 16)"
    using of_char_halves[of c] by simp
  note sign = is_hex_not_sign[OF this]
  have "strtoul_pair (hex_digit (of_char c div 16)) (hex_digit (of_char c mod 16)) = Some (of_char c)"
    using sign of_char_halves[of c] by (simp add: strtoul_pair_def)
  then show ?thesis by (subst decode_query_loop.simps) (simp add: nth_append percent_byte_def)
qed

lemma decode_uri_plain:
  "c \<noteq> CHR 0x25 \<Longrightarrow> decode_uri_loop (p @ c # r) (length p) = c # decode_uri_loop (p @ c # r) (length p + 1)"
  by (subst decode_uri_loop.simps) simp

lemma decode_path_plain:
  "c \<noteq> CHR 0x25 \<Longrightarrow> decode_path_loop (p @ c # r) (length p) = c # decode_path_loop (p @ c # r) (length p + 1)"
  by (subst decode_path_loop.simps) simp

lemma decode_query_plain:
  "c \<noteq> CHR 0x25 \<Longrightarrow> decode_query_loop (p @ c # r) b (length p) =
     (if c = CHR ''+'' \<and> b then CHR '' '' else c) # decode_query_loop (p @ c # r) b (length p + 1)"
  by (subst decode_query_loop.simps) simp

text \<open>
  A decoder inverts an encoder that writes each character as itself or as its escape. The laws are
  what the three decoders share.
\<close>

locale percent_coding =
  fixes enc :: "char \<Rightarrow> string"
    and dec :: "string \<Rightarrow> nat \<Rightarrow> string"
  assumes dec_end: "length s \<le> i \<Longrightarrow> dec s i = []"
    and dec_enc: "dec (p @ enc c @ r) (length p) = c # dec (p @ enc c @ r) (length p + length (enc c))"
begin

lemma dec_concat: "dec (p @ concat (map enc s)) (length p) = s"
proof (induction s arbitrary: p)
  case Nil
  show ?case by (rule dec_end) simp
next
  case (Cons c s)
  have "dec (p @ enc c @ concat (map enc s)) (length p) = c # dec ((p @ enc c) @ concat (map enc s)) (length (p @ enc c))"
    using dec_enc[of p c "concat (map enc s)"] by simp
  then show ?case using Cons.IH[of "p @ enc c"] by simp
qed

lemma dec_enc_all: "dec (concat (map enc s)) 0 = s"
  using dec_concat[of "[]" s] by simp

end

lemma decode_ends:
  "length s \<le> i \<Longrightarrow> decode_uri_loop s i = []"
  "length s \<le> i \<Longrightarrow> decode_path_loop s i = []"
  "length s \<le> i \<Longrightarrow> decode_query_loop s b i = []"
  by (subst decode_uri_loop.simps decode_path_loop.simps decode_query_loop.simps, simp)+

lemma percent_not_plain:
  "\<not> is_uri_unreserved (CHR 0x25)" "\<not> is_rfc_unreserved (CHR 0x25)" "\<not> is_rfc_unreserved (CHR ''+'')"
  by (simp_all add: is_uri_unreserved_def is_rfc_unreserved_def is_alnum_def)

lemma path_component_cases: "path_component_char c = percent_byte c \<or> path_component_char c = [c] \<and> c \<noteq> CHR 0x25"
  using percent_not_plain(2) by (cases "c = CHR 0x25") (simp_all add: path_component_char_def)

lemma query_component_cases:
  "query_component_char b c = percent_byte c \<or>
   query_component_char b c = [c] \<and> c \<noteq> CHR 0x25 \<and> (b \<longrightarrow> c \<noteq> CHR ''+'') \<or>
   b \<and> c = CHR '' '' \<and> query_component_char b c = ''+''"
proof -
  have "percent_byte (CHR '' '') = ''%20''" "percent_byte (CHR ''+'') = ''%2B''"
    by (simp_all add: percent_byte_def hex_digit_def flip: of_char_eq_iff[where 'a = nat])
  moreover have "\<not> is_rfc_unreserved (CHR '' '')"
    by (simp add: is_rfc_unreserved_def is_alnum_def)
  ultimately show ?thesis
    using percent_not_plain(2,3)
    by (cases "c = CHR 0x25"; cases "c = CHR ''+''"; cases "c = CHR '' ''") (simp_all add: query_component_char_def)
qed

interpretation uri_comp: percent_coding "\<lambda>c. if is_uri_unreserved c then [c] else percent_byte c" decode_uri_loop
proof
  fix p c r
  have "is_uri_unreserved c \<Longrightarrow> c \<noteq> CHR 0x25" using percent_not_plain(1) by auto
  then show "decode_uri_loop (p @ (if is_uri_unreserved c then [c] else percent_byte c) @ r) (length p) =
      c # decode_uri_loop (p @ (if is_uri_unreserved c then [c] else percent_byte c) @ r)
        (length p + length (if is_uri_unreserved c then [c] else percent_byte c))"
    using decode_uri_plain[of c p r] by (simp add: decode_uri_escape)
qed (simp add: decode_ends)

interpretation path_comp: percent_coding path_component_char decode_path_loop
proof
  fix p c r
  show "decode_path_loop (p @ path_component_char c @ r) (length p) =
      c # decode_path_loop (p @ path_component_char c @ r) (length p + length (path_component_char c))"
    using path_component_cases[of c] decode_path_plain[of c p r] decode_path_escape[of p c r] by auto
qed (simp add: decode_ends)

interpretation query_comp: percent_coding "query_component_char b" "\<lambda>s. decode_query_loop s b"
proof
  fix p c r
  show "decode_query_loop (p @ query_component_char b c @ r) b (length p) =
      c # decode_query_loop (p @ query_component_char b c @ r) b (length p + length (query_component_char b c))"
    using query_component_cases[of b c]
  proof (elim disjE conjE)
    assume "query_component_char b c = percent_byte c"
    then show ?thesis using decode_query_escape[of p c r b] by simp
  next
    assume "query_component_char b c = [c]" "c \<noteq> CHR 0x25" "b \<longrightarrow> c \<noteq> CHR ''+''"
    then show ?thesis using decode_query_plain[of c p r b] by auto
  next
    assume "query_component_char b c = ''+''" "b" "c = CHR '' ''"
    then show ?thesis using decode_query_plain[of "CHR ''+''" p r b] by simp
  qed
qed (simp add: decode_ends)

text \<open>
  Percent coding loses nothing: decoding the encoding of a path component, of a query component
  (with the same treatment of spaces) or of a URI component gives the component back, whatever
  bytes it has.
\<close>

theorem percent_coding_roundtrip:
  "decode_path_component (encode_path_component s) = s \<and>
   decode_query_component (encode_query_component s b) b = s \<and>
   decode_uri_component (encode_uri_component s) = s"
  unfolding decode_path_component_def encode_path_component_def decode_query_component_def
    encode_query_component_def decode_uri_component_def encode_uri_component_def
  by (intro conjI path_comp.dec_enc_all query_comp.dec_enc_all uri_comp.dec_enc_all)

subsection \<open>Query strings\<close>

text \<open>
  \<open>Params\<close> is a \<open>std::multimap\<close>: the pairs in the order of their keys, equal keys in the order of
  insertion.
\<close>

type_synonym params = "(string \<times> string) list"

definition multimap_emplace :: "string \<Rightarrow> 'a \<Rightarrow> (string \<times> 'a) list \<Rightarrow> (string \<times> 'a) list" where
  "multimap_emplace k v ps = takeWhile (\<lambda>(k', _). k' \<le> k) ps @ [(k, v)] @ dropWhile (\<lambda>(k', _). k' \<le> k) ps"

fun params_loop :: "bool \<Rightarrow> params \<Rightarrow> string" where
  "params_loop first [] = []"
| "params_loop first ((k, v) # ps) =
     (if first then [] else ''&'') @ encode_query_component k True @ ''='' @ encode_query_component v True @
     params_loop False ps"

definition params_to_query_str :: "params \<Rightarrow> string" where
  "params_to_query_str ps = params_loop True ps"

text \<open>The cache of \<open>parse_query_text\<close> drops a pair whose text has occurred before.\<close>

fun parse_query_pairs :: "string list \<Rightarrow> string set \<Rightarrow> params \<Rightarrow> params" where
  "parse_query_pairs [] cache ps = ps"
| "parse_query_pairs (kv # kvs) cache ps =
     (if kv \<in> cache then parse_query_pairs kvs cache ps
      else
        let (key, val) = divide kv (CHR ''='')
        in parse_query_pairs kvs (insert kv cache)
             (if key \<noteq> []
              then multimap_emplace (decode_query_component key True) (decode_query_component val True) ps
              else ps))"

definition parse_query_text :: "string \<Rightarrow> params \<Rightarrow> params" where
  "parse_query_text data ps = parse_query_pairs (split data (CHR ''&'')) {} ps"

subsection \<open>A query string and its parameters\<close>

definition pair_text :: "string \<times> string \<Rightarrow> string" where
  "pair_text p = encode_query_component (fst p) True @ ''='' @ encode_query_component (snd p) True"

lemma hex_digit_char: "v < 16 \<Longrightarrow> is_alnum (hex_digit v)"
  by (simp add: hex_digit_def is_alnum_def)

lemma query_char_safe:
  assumes "c \<in> set (encode_query_component s True)"
  shows "c \<noteq> CHR ''&'' \<and> c \<noteq> CHR ''='' \<and> \<not> is_space_or_tab c"
proof -
  obtain x where x: "c \<in> set (query_component_char True x)"
    using assms by (auto simp: encode_query_component_def)
  have an: "a \<noteq> CHR ''&'' \<and> a \<noteq> CHR ''='' \<and> \<not> is_space_or_tab a" if "is_rfc_unreserved a" for a
    using that by (auto simp: is_rfc_unreserved_def is_alnum_def is_space_or_tab_def)
  have hex: "is_rfc_unreserved (hex_digit v)" if "v < 16" for v
    using hex_digit_char[OF that] by (simp add: is_rfc_unreserved_def)
  have pb: "c \<noteq> CHR ''&'' \<and> c \<noteq> CHR ''='' \<and> \<not> is_space_or_tab c" if "c \<in> set (percent_byte x)"
    using that an hex of_char_halves[of x] by (auto simp: percent_byte_def is_space_or_tab_def)
  show ?thesis
  proof (cases "query_component_char True x = percent_byte x")
    case False
    then show ?thesis
      using x an[of x] by (auto simp: query_component_char_def is_space_or_tab_def split: if_splits)
  qed (use x pb in simp)
qed

lemma pair_text_safe: "c \<in> set (pair_text p) \<Longrightarrow> c \<noteq> CHR ''&'' \<and> \<not> is_space_or_tab c"
  using query_char_safe by (auto simp: pair_text_def is_space_or_tab_def)

lemma strip_pair_text: "strip (pair_text p) = pair_text p"
proof -
  have "dropWhile is_space_or_tab s = s" if "\<forall>c \<in> set s. \<not> is_space_or_tab c" for s
    using that by (cases s) auto
  note id = this
  have "\<forall>c \<in> set (pair_text p). \<not> is_space_or_tab c" using pair_text_safe by blast
  then show ?thesis using id[of "pair_text p"] id[of "rev (pair_text p)"] by (simp add: strip_def)
qed

lemma pair_text_nonempty [simp]: "pair_text p \<noteq> []"
  by (simp add: pair_text_def)

lemma encode_query_Nil: "encode_query_component s True = [] \<longleftrightarrow> s = []"
  by (metis query_comp.dec_enc_all encode_query_component_def concat.simps(1) list.simps(8) query_comp.dec_end le0
      decode_ends(3) list.size(3))

lemma divide_pair_text:
  "divide (pair_text p) (CHR ''='') = (encode_query_component (fst p) True, encode_query_component (snd p) True)"
  using divide_append[of "CHR ''=''" "encode_query_component (fst p) True" "encode_query_component (snd p) True"]
    query_char_safe by (auto simp: pair_text_def)

lemma pair_text_inj: "pair_text p = pair_text q \<Longrightarrow> p = q"
  using divide_pair_text[of p] divide_pair_text[of q] percent_coding_roundtrip
  by (metis prod.inject prod_eq_iff)

lemma params_pieces_rest:
  "CHR ''&'' \<notin> set w \<Longrightarrow> pieces (CHR ''&'') (w @ params_loop False ps) = w # map pair_text ps"
proof (induction ps arbitrary: w)
  case Nil
  then show ?case by (simp add: pieces_last)
next
  case (Cons p ps)
  have "params_loop False (p # ps) = CHR ''&'' # pair_text p @ params_loop False ps"
    by (cases p) (simp add: pair_text_def)
  moreover have "CHR ''&'' \<notin> set (pair_text p)" using pair_text_safe by blast
  ultimately show ?case using Cons.IH[of "pair_text p"] pieces_sep[OF Cons.prems] by simp
qed

lemma params_pieces:
  assumes "ps \<noteq> []"
  shows "pieces (CHR ''&'') (params_to_query_str ps) = map pair_text ps"
proof -
  obtain p ps' where p: "ps = p # ps'" using assms by (cases ps) auto
  have "params_to_query_str ps = pair_text p @ params_loop False ps'"
    by (cases p) (simp add: p pair_text_def params_to_query_str_def)
  moreover have "CHR ''&'' \<notin> set (pair_text p)" using pair_text_safe by blast
  ultimately show ?thesis using params_pieces_rest[of "pair_text p" ps'] p by simp
qed

lemma multimap_emplace_last:
  "\<forall>(k', v') \<in> set ps. k' \<le> k \<Longrightarrow> multimap_emplace k v ps = ps @ [(k, v)]"
  by (induction ps) (auto simp: multimap_emplace_def)

lemma parse_query_pairs_texts:
  assumes "distinct ps" "sorted (map fst (qs @ ps))" "\<forall>p \<in> set ps. fst p \<noteq> [] \<and> pair_text p \<notin> cache"
  shows "parse_query_pairs (map pair_text ps) cache qs = qs @ ps"
  using assms
proof (induction ps arbitrary: cache qs)
  case (Cons p ps)
  obtain k v where p: "p = (k, v)" by (cases p)
  have "fst q \<le> k" if "q \<in> set qs" for q
    using Cons.prems(2) p that by (simp add: sorted_append)
  then have "\<forall>(k', v') \<in> set qs. k' \<le> k" by auto
  then have e: "multimap_emplace k v qs = qs @ [p]" using p by (simp add: multimap_emplace_last)
  have "parse_query_pairs (map pair_text ps) (insert (pair_text p) cache) (qs @ [p]) = (qs @ [p]) @ ps"
  proof (rule Cons.IH)
    show "distinct ps" "sorted (map fst ((qs @ [p]) @ ps))" using Cons.prems by simp_all
    show "\<forall>q \<in> set ps. fst q \<noteq> [] \<and> pair_text q \<notin> insert (pair_text p) cache"
    proof
      fix q
      assume q: "q \<in> set ps"
      then have "q \<noteq> p" using Cons.prems(1) by auto
      then have "pair_text q \<noteq> pair_text p" using pair_text_inj by blast
      with q Cons.prems(3) show "fst q \<noteq> [] \<and> pair_text q \<notin> insert (pair_text p) cache" by simp
    qed
  qed
  moreover have "pair_text p \<notin> cache" "encode_query_component k True \<noteq> []"
    using Cons.prems(3) p by (auto simp: encode_query_Nil)
  moreover have "decode_query_component (encode_query_component x True) True = x" for x
    using percent_coding_roundtrip by blast
  ultimately show ?case
    using p e by (simp add: divide_pair_text)
qed simp

text \<open>
  The query string a client builds from its parameters gives the server the same parameters, in
  the same order: names and values may have any bytes, only an empty name is lost.
\<close>

theorem query_roundtrip:
  assumes "sorted (map fst ps)" "distinct ps" "\<forall>p \<in> set ps. fst p \<noteq> []"
    and "length (params_to_query_str ps) < 2 ^ 64 - 1"
  shows "parse_query_text (params_to_query_str ps) [] = ps"
proof (cases "ps = []")
  case True
  then show ?thesis by (simp add: parse_query_text_def params_to_query_str_def split_pieces)
next
  case False
  have "split (params_to_query_str ps) (CHR ''&'') = map pair_text ps"
    using params_pieces[OF False] by (simp add: split_pieces[OF assms(4)] strip_pair_text filter_map o_def)
  then show ?thesis
    using parse_query_pairs_texts[of ps "[]" "{}"] assms by (simp add: parse_query_text_def)
qed

lemma query_roundtrip_witness:
  "parse_query_text (params_to_query_str [(''a b'', ''1&2''), (''c'', [])]) [] = [(''a b'', ''1&2''), (''c'', [])]"
proof (rule query_roundtrip)
  show "length (params_to_query_str [(''a b'', ''1&2''), (''c'', [])]) < 2 ^ 64 - 1"
    by (simp add: params_to_query_str_def encode_query_component_def query_component_char_def)
qed auto

end
