(* ===== verification/HttpRanges.thy ===== *)
theory HttpRanges
  imports HttpMessage
begin

text \<open>
  Byte ranges of the HTTP library (httplib.h): parsing the Range header, checking the ranges against
  the length of the content and merging those that overlap, and cutting the ranges out of a body.
  The lemmas show that every range that passes the check lies in the content, so the assertions of
  the functions that use it hold and no byte outside the body is read.
\<close>

type_synonym ranges = "(int \<times> int) list"

text \<open>\<open>std::stoll\<close> of digits; \<open>None\<close> when it throws.\<close>

definition stoll_digits :: "string \<Rightarrow> int option" where
  "stoll_digits s = (if 2 ^ 63 \<le> digits_val s then None else Some (int (digits_val s)))"

text \<open>One piece of the header: \<open>None\<close> when \<open>stoll\<close> throws, \<open>Some None\<close> when the piece is not valid.\<close>

definition parse_range :: "string \<Rightarrow> (int \<times> int) option option" where
  "parse_range piece =
     (if CHR ''-'' \<notin> set piece then Some None
      else
        let (lhs, rhs) = divide piece (CHR ''-'')
        in if \<not> list_all is_digit lhs \<or> \<not> list_all is_digit rhs then Some None
           else
             (case (if lhs = [] then Some (-1) else stoll_digits lhs) of
                None \<Rightarrow> None
              | Some f \<Rightarrow>
                  (case (if rhs = [] then Some (-1) else stoll_digits rhs) of
                     None \<Rightarrow> None
                   | Some l \<Rightarrow>
                       if f = -1 \<and> l = -1 \<or> f \<noteq> -1 \<and> l \<noteq> -1 \<and> f > l
                       then Some None
                       else Some (Some (f, l)))))"

fun parse_ranges :: "string list \<Rightarrow> ranges \<Rightarrow> ranges option" where
  "parse_ranges [] rs = Some rs"
| "parse_ranges (p # ps) rs =
     (case parse_range p of Some (Some r) \<Rightarrow> parse_ranges ps (rs @ [r]) | _ \<Rightarrow> None)"

definition parse_range_header :: "string \<Rightarrow> ranges option" where
  "parse_range_header s =
     (if 7 < length s \<and> take 6 s = ''bytes=''
      then (case parse_ranges (split (drop 6 s) (CHR '','')) [] of
              Some rs \<Rightarrow> if rs \<noteq> [] then Some rs else None
            | None \<Rightarrow> None)
      else None)"

text \<open>The positions a range stands for; -1 is an absent position.\<close>

definition resolve_range :: "int \<Rightarrow> int \<times> int \<Rightarrow> int \<times> int" where
  "resolve_range content_len r =
     (let (f0, l0) = r;
          (f1, l1) = (if f0 = -1 \<and> l0 = -1 then (0, content_len) else (f0, l0));
          (f2, l2) = (if f1 = -1 then (content_len - l1, content_len - 1) else (f1, l1))
      in (f2, if l2 = -1 \<or> l2 \<ge> content_len then content_len - 1 else l2))"

definition range_within :: "int \<Rightarrow> int \<times> int \<Rightarrow> bool" where
  "range_within content_len r \<longleftrightarrow> 0 \<le> fst r \<and> fst r \<le> snd r \<and> snd r \<le> content_len - 1"

definition ranges_overlap :: "int \<times> int \<Rightarrow> int \<times> int \<Rightarrow> bool" where
  "ranges_overlap r p \<longleftrightarrow> \<not> (snd r < fst p \<or> fst r > snd p)"

text \<open>The loop of \<open>range_error\<close>: the ranges with their positions, \<open>None\<close> for an error.\<close>

fun range_loop :: "int \<Rightarrow> ranges \<Rightarrow> ranges \<Rightarrow> nat \<Rightarrow> ranges option" where
  "range_loop content_len [] processed overwrapping_count = Some processed"
| "range_loop content_len (r # rs) processed overwrapping_count =
     (let r' = resolve_range content_len r
      in if \<not> range_within content_len r' then None
         else
           let n = overwrapping_count + (if list_ex (ranges_overlap r') processed then 1 else 0)
           in if list_ex (ranges_overlap r') processed \<and> 2 < n then None
              else range_loop content_len rs (processed @ [r']) n)"

text \<open>
  Merging; the ranges that start at the same position keep their order (\<open>std::sort\<close> leaves it open).
\<close>

fun coalesce_loop :: "int \<Rightarrow> ranges \<Rightarrow> ranges \<Rightarrow> ranges" where
  "coalesce_loop content_length [] coalesced = coalesced"
| "coalesce_loop content_length (r # rs) coalesced =
     (let (first_pos, last_pos) = resolve_range content_length r
      in if \<not> (0 \<le> first_pos \<and> first_pos \<le> last_pos \<and> last_pos < content_length)
         then coalesce_loop content_length rs coalesced
         else if coalesced \<noteq> [] \<and> first_pos \<le> snd (last coalesced) + 1 \<and>
              \<not> (first_pos = fst (last coalesced) \<and> last_pos = snd (last coalesced))
         then coalesce_loop content_length rs
                (butlast coalesced @ [(fst (last coalesced), max (snd (last coalesced)) last_pos)])
         else coalesce_loop content_length rs (coalesced @ [(first_pos, last_pos)]))"

definition coalesce_ranges :: "ranges \<Rightarrow> int \<Rightarrow> ranges" where
  "coalesce_ranges rs content_length =
     (if length rs \<le> 1 then rs else coalesce_loop content_length (sort_key fst rs) [])"

definition RANGE_MAX_COUNT :: nat where
  "RANGE_MAX_COUNT = 1024"

text \<open>\<open>range_error\<close> for a response with a body: \<open>None\<close> for true, else the request's new ranges.\<close>

definition range_error :: "ranges \<Rightarrow> Response \<Rightarrow> ranges option" where
  "range_error rs res =
     (if rs \<noteq> [] \<and> 200 \<le> res_status res \<and> res_status res < 300
      then
        (let content_len = int (length (res_body res))
         in if RANGE_MAX_COUNT < length rs then None
            else (case range_loop content_len rs [] 0 of
                    None \<Rightarrow> None
                  | Some rs' \<Rightarrow> Some (coalesce_ranges rs' content_len)))
      else Some rs)"

definition get_range_offset_and_length :: "int \<times> int \<Rightarrow> nat \<times> nat" where
  "get_range_offset_and_length r = (nat (fst r), nat (snd r - fst r) + 1)"

definition make_content_range_header_field :: "nat \<times> nat \<Rightarrow> nat \<Rightarrow> string" where
  "make_content_range_header_field ol content_length =
     ''bytes '' @ string_of_nat (fst ol) @ ''-'' @ string_of_nat (fst ol + snd ol - 1) @ ''/'' @
     string_of_nat content_length"

text \<open>The text of a body with several ranges.\<close>

definition multipart_range :: "string \<Rightarrow> string \<Rightarrow> string \<Rightarrow> int \<times> int \<Rightarrow> string" where
  "multipart_range boundary content_type body r =
     (let ol = get_range_offset_and_length r
      in ''--'' @ boundary @ CR_LF @
         (if content_type \<noteq> [] then ''Content-Type: '' @ content_type @ CR_LF else []) @
         ''Content-Range: '' @ make_content_range_header_field ol (length body) @ CR_LF @ CR_LF @
         substr body (fst ol) (snd ol) @ CR_LF)"

definition make_multipart_ranges_data :: "ranges \<Rightarrow> string \<Rightarrow> string \<Rightarrow> string \<Rightarrow> string" where
  "make_multipart_ranges_data rs boundary content_type body =
     concat (map (multipart_range boundary content_type body) rs) @ ''--'' @ boundary @ ''--''"

subsection \<open>Ranges that pass lie in the content\<close>

lemma range_loop_within:
  "range_loop n rs ps k = Some rs' \<Longrightarrow> \<forall>r \<in> set ps. range_within n r \<Longrightarrow> \<forall>r \<in> set rs'. range_within n r"
  by (induction n rs ps k rule: range_loop.induct) (auto simp: Let_def split: if_splits)

lemma coalesce_loop_within:
  "\<forall>r \<in> set cs. range_within n r \<Longrightarrow> \<forall>r \<in> set (coalesce_loop n rs cs). range_within n r"
proof (induction n rs cs rule: coalesce_loop.induct)
  case (2 n r rs cs)
  obtain f l where fl: "resolve_range n r = (f, l)" by fastforce
  have "range_within n (fst (last cs), max (snd (last cs)) l)"
    if "cs \<noteq> []" "0 \<le> f" "f \<le> l" "l < n"
  proof -
    have "range_within n (last cs)" using that(1) 2(4) by simp
    with that show ?thesis by (auto simp: range_within_def)
  qed
  moreover have "\<forall>r \<in> set (butlast cs). range_within n r" using 2(4) by (auto dest: in_set_butlastD)
  ultimately show ?case using 2 fl by (auto simp: Let_def range_within_def)
qed simp

text \<open>
  C38. A range that passes the check of a response lies in its body: the assertions of
  \<open>get_range_offset_and_length\<close> hold, and cutting the range out of the body gives as many bytes as
  the range has.
\<close>

theorem checked_ranges_in_bounds:
  assumes "range_error rs res = Some rs'" "200 \<le> res_status res" "res_status res < 300" "r \<in> set rs'"
  shows "0 \<le> fst r \<and> fst r \<le> snd r \<and> snd r < int (length (res_body res)) \<and>
    (let (offset, n) = get_range_offset_and_length r
     in offset + n \<le> length (res_body res) \<and> length (substr (res_body res) offset n) = n)"
proof -
  let ?n = "int (length (res_body res))"
  have "rs \<noteq> []" using assms by (auto simp: range_error_def)
  with assms obtain rs1 where "range_loop ?n rs [] 0 = Some rs1" "rs' = coalesce_ranges rs1 ?n"
    by (auto simp: range_error_def Let_def split: if_splits option.splits)
  then have "\<forall>r \<in> set rs'. range_within ?n r"
    using range_loop_within[of ?n rs "[]" 0 rs1] coalesce_loop_within[of "[]" ?n "sort_key fst rs1"]
    by (auto simp: coalesce_ranges_def)
  with assms(4) have "range_within ?n r" by blast
  then show ?thesis by (auto simp: range_within_def get_range_offset_and_length_def substr_def)
qed

lemma checked_ranges_in_bounds_witness:
  "0 \<le> (2::int) \<and> (2::int) \<le> 4 \<and> (4::int) < int (length ''hello'')"
proof -
  have "range_error [(-1, 3)] (new_response\<lparr>res_status := 206, res_body := ''hello''\<rparr>) = Some [(2, 4)]"
    by (simp add: range_error_def resolve_range_def range_within_def coalesce_ranges_def RANGE_MAX_COUNT_def new_response_def)
  from checked_ranges_in_bounds[OF this, of "(2, 4)"] show ?thesis by (simp add: new_response_def)
qed

end
