(* ===== verification/HttpMultipart.thy ===== *)
theory HttpMultipart
  imports HttpMessage
begin

text \<open>
  Multipart forms in the HTTP library (httplib.h): the parameters of a header field, the writer
  \<open>serialize_multipart_formdata\<close>, and \<open>FormDataParser\<close>, a state machine over a buffer that is given the
  content in pieces as they are read and passes the parts on to two callbacks. The buffer is modelled
  as it is, a string with two positions; \<open>window\<close> is the part of it that counts.
\<close>

subsection \<open>Parts\<close>

definition empty_form_data :: FormData where
  "empty_form_data = \<lparr>fd_name = [], fd_content = [], fd_filename = [], fd_content_type = [], fd_headers = []\<rparr>"

record UploadFormData =
  up_name :: string
  up_content :: string
  up_filename :: string
  up_content_type :: string

subsection \<open>Parameters\<close>

definition parse_multipart_boundary :: "string \<Rightarrow> string option" where
  "parse_multipart_boundary content_type =
     (case str_find ''boundary='' content_type of
        None \<Rightarrow> None
      | Some pos \<Rightarrow>
          (let beg = pos + length ''boundary='';
               boundary = trim_double_quotes_copy
                 (case str_find_from '';'' content_type pos of
                    Some e \<Rightarrow> substr content_type beg (e - beg)
                  | None \<Rightarrow> drop beg content_type)
           in if boundary = [] then None else Some boundary))"

text \<open>The first piece of a parameter is its key, the last of the others its value.\<close>

fun disposition_pairs :: "string list \<Rightarrow> string set \<Rightarrow> params \<Rightarrow> params" where
  "disposition_pairs [] cache ps = ps"
| "disposition_pairs (kv # kvs) cache ps =
     (if kv \<in> cache then disposition_pairs kvs cache ps
      else disposition_pairs kvs (insert kv cache)
             (case split kv (CHR ''='') of
                [] \<Rightarrow> ps
              | key # vals \<Rightarrow>
                  multimap_emplace (trim_double_quotes_copy key)
                    (trim_double_quotes_copy (if vals = [] then [] else last vals)) ps))"

definition parse_disposition_params :: "string \<Rightarrow> params" where
  "parse_disposition_params s = disposition_pairs (split s (CHR '';'')) {} []"

definition start_with_case_ignore :: "string \<Rightarrow> string \<Rightarrow> bool" where
  "start_with_case_ignore a b \<longleftrightarrow> length b \<le> length a \<and> case_equal (take (length b) a) b"

text \<open>
  What the group of the two regular expressions matches, both without regard to case:
  \<open>^Content-Disposition:\s*form-data;\s*(.*)$\<close> and \<open>^UTF-8''(.+?)$\<close>. A dot is not the end of a line.
\<close>

definition one_line :: "string \<Rightarrow> bool" where
  "one_line s \<longleftrightarrow> CHR 0x0D \<notin> set s \<and> CHR 0x0A \<notin> set s"

definition match_disposition :: "string \<Rightarrow> string option" where
  "match_disposition header =
     (let rest = dropWhile is_space (drop (length ''Content-Disposition:'') header);
          group = dropWhile is_space (drop (length ''form-data;'') rest)
      in if start_with_case_ignore header ''Content-Disposition:'' \<and> start_with_case_ignore rest ''form-data;'' \<and>
            one_line group
         then Some group else None)"

definition match_rfc5987 :: "string \<Rightarrow> string option" where
  "match_rfc5987 s =
     (let utf8 = ''UTF-8'' @ [CHR 0x27, CHR 0x27]; group = drop (length utf8) s
      in if start_with_case_ignore s utf8 \<and> group \<noteq> [] \<and> one_line group then Some group else None)"

text \<open>The effect of a Content-Disposition header, and of a header; \<open>None\<close> makes the form invalid.\<close>

definition apply_disposition :: "params \<Rightarrow> FormData \<Rightarrow> FormData option" where
  "apply_disposition ps file =
     (case map_of ps ''name'' of
        None \<Rightarrow> None
      | Some name \<Rightarrow>
          (let file1 = file\<lparr>fd_name := name\<rparr>;
               file2 = (case map_of ps ''filename'' of None \<Rightarrow> file1 | Some f \<Rightarrow> file1\<lparr>fd_filename := f\<rparr>)
           in (case map_of ps ''filename*'' of
                 None \<Rightarrow> Some file2
               | Some v \<Rightarrow> map_option (\<lambda>g. file2\<lparr>fd_filename := decode_path_component g\<rparr>) (match_rfc5987 v))))"

definition form_header :: "string \<Rightarrow> FormData \<Rightarrow> FormData option" where
  "form_header header file =
     (case parse_header header of
        None \<Rightarrow> None
      | Some (key, val) \<Rightarrow>
          (let file1 = file\<lparr>fd_headers := fd_headers file @ [(key, val)]\<rparr>
           in if start_with_case_ignore header ''Content-Type:''
              then Some (file1\<lparr>fd_content_type := trim_copy (drop (length ''Content-Type:'') header)\<rparr>)
              else (case match_disposition header of
                      None \<Rightarrow> Some file1
                    | Some m \<Rightarrow> apply_disposition (parse_disposition_params m) file1)))"

subsection \<open>The buffer of the parser\<close>

text \<open>The numbers 0 to 4 of the states in the code.\<close>

datatype form_state = Initial_boundary | New_entry | Form_headers | Form_body | After_boundary

record FormDataParser =
  fp_dash_boundary_crlf :: string
  fp_crlf_dash_boundary :: string
  fp_state :: form_state
  fp_is_valid :: bool
  fp_file :: FormData
  fp_buf :: string
  fp_spos :: nat
  fp_epos :: nat

definition DASH :: string where
  "DASH = ''--''"

definition new_form_parser :: FormDataParser where
  "new_form_parser = \<lparr>fp_dash_boundary_crlf = [], fp_crlf_dash_boundary = [], fp_state = Initial_boundary,
     fp_is_valid = False, fp_file = empty_form_data, fp_buf = [], fp_spos = 0, fp_epos = 0\<rparr>"

definition set_boundary :: "string \<Rightarrow> FormDataParser \<Rightarrow> FormDataParser" where
  "set_boundary boundary p = p\<lparr>fp_dash_boundary_crlf := DASH @ boundary @ CR_LF,
     fp_crlf_dash_boundary := CR_LF @ DASH @ boundary\<rparr>"

definition start_with :: "string \<Rightarrow> nat \<Rightarrow> nat \<Rightarrow> string \<Rightarrow> bool" where
  "start_with a spos epos b \<longleftrightarrow> \<not> epos - spos < length b \<and> list_all (\<lambda>i. a ! (i + spos) = b ! i) [0..<length b]"

definition buf_size :: "FormDataParser \<Rightarrow> nat" where
  "buf_size p = fp_epos p - fp_spos p"

text \<open>\<open>buf_head\<close>, and the first bytes at \<open>buf_data()\<close>.\<close>

definition buf_head :: "FormDataParser \<Rightarrow> nat \<Rightarrow> string" where
  "buf_head p l = substr (fp_buf p) (fp_spos p) l"

definition buf_start_with :: "FormDataParser \<Rightarrow> string \<Rightarrow> bool" where
  "buf_start_with p s = start_with (fp_buf p) (fp_spos p) (fp_epos p) s"

text \<open>The next position of a character, or the end.\<close>

function buf_scan :: "string \<Rightarrow> nat \<Rightarrow> char \<Rightarrow> nat \<Rightarrow> nat" where
  "buf_scan b epos c pos =
     (if epos \<le> pos then epos else if b ! pos = c then pos else buf_scan b epos c (pos + 1))"
  by pat_completeness auto
termination
  by (relation "measure (\<lambda>(b, epos, c, pos). epos - pos)") auto

declare buf_scan.simps [simp del]

lemma buf_scan_ge: "pos \<le> epos \<Longrightarrow> pos \<le> buf_scan b epos c pos \<and> buf_scan b epos c pos \<le> epos"
proof (induction b epos c pos rule: buf_scan.induct)
  case (1 b epos c pos)
  then show ?case by (subst (1 2) buf_scan.simps) force
qed

function buf_find_loop :: "FormDataParser \<Rightarrow> string \<Rightarrow> nat \<Rightarrow> nat" where
  "buf_find_loop p s off =
     (if off < fp_epos p
      then (let pos = buf_scan (fp_buf p) (fp_epos p) (hd s) off
            in if pos = fp_epos p then buf_size p
               else if fp_epos p - pos < length s then buf_size p
               else if start_with (fp_buf p) pos (fp_epos p) s then pos - fp_spos p
               else buf_find_loop p s (pos + 1))
      else buf_size p)"
  by pat_completeness auto
termination
proof (relation "measure (\<lambda>(p, s, off). fp_epos p - off)", goal_cases)
  case (2 p s off pos)
  have "off \<le> pos" "pos < fp_epos p"
    using 2 buf_scan_ge[of off "fp_epos p" "fp_buf p" "hd s"] by auto
  then show ?case by simp
qed simp

declare buf_find_loop.simps [simp del]

definition buf_find :: "FormDataParser \<Rightarrow> string \<Rightarrow> nat" where
  "buf_find p s = buf_find_loop p s (fp_spos p)"

definition buf_erase :: "nat \<Rightarrow> FormDataParser \<Rightarrow> FormDataParser" where
  "buf_erase n p = p\<lparr>fp_spos := fp_spos p + n\<rparr>"

text \<open>The loop that moves the rest to the front, and the one that copies the data behind it.\<close>

definition buf_move :: "string \<Rightarrow> nat \<Rightarrow> nat \<Rightarrow> string" where
  "buf_move b spos n = foldl (\<lambda>b i. b[i := b ! (spos + i)]) b [0..<n]"

definition buf_copy :: "string \<Rightarrow> nat \<Rightarrow> string \<Rightarrow> string" where
  "buf_copy b epos data = foldl (\<lambda>b i. b[epos + i := data ! i]) b [0..<length data]"

definition buf_append :: "string \<Rightarrow> FormDataParser \<Rightarrow> FormDataParser" where
  "buf_append data p =
     (let remaining_size = buf_size p;
          b1 = (if 0 < remaining_size \<and> 0 < fp_spos p then buf_move (fp_buf p) (fp_spos p) remaining_size else fp_buf p);
          b2 = b1 @ replicate (remaining_size + length data - length b1) (CHR 0x00)
      in p\<lparr>fp_buf := buf_copy b2 remaining_size data, fp_spos := 0, fp_epos := remaining_size + length data\<rparr>)"


subsection \<open>The parser\<close>

text \<open>
  The two callbacks get what the receiver has collected and say whether to go on. In the state of
  headers the inner loop takes a line at a time; a line that is refused ends the parsing, and so the
  part it was read into is not looked at any more.
\<close>

type_synonym 'a header_callback = "FormData \<Rightarrow> 'a \<Rightarrow> bool \<times> 'a"

function form_headers_loop ::
  "'a header_callback \<Rightarrow> FormDataParser \<Rightarrow> 'a \<Rightarrow> nat \<Rightarrow> bool \<times> FormDataParser \<times> 'a" where
  "form_headers_loop hc p acc pos =
     (if pos < buf_size p then
        (if pos = 0 then
           (if \<not> fst (hc (fp_file p) acc) then (False, p\<lparr>fp_is_valid := False\<rparr>, snd (hc (fp_file p) acc))
            else (True, (buf_erase (length CR_LF) p)\<lparr>fp_state := Form_body\<rparr>, snd (hc (fp_file p) acc)))
         else
           (case form_header (buf_head p pos) (fp_file p) of
              None \<Rightarrow> (False, p\<lparr>fp_is_valid := False\<rparr>, acc)
            | Some fd \<Rightarrow>
                (let p' = buf_erase (pos + length CR_LF) (p\<lparr>fp_file := fd\<rparr>)
                 in form_headers_loop hc p' acc (buf_find p' CR_LF))))
      else (True, p, acc))"
  by pat_completeness auto
termination
  by (relation "measure (\<lambda>(hc, p, acc, pos). buf_size p)") (auto simp: buf_size_def buf_erase_def CR_LF_def)

declare form_headers_loop.simps [simp del]

lemma form_headers_loop_shrinks:
  "form_headers_loop hc p acc pos = (ok, p', acc') \<Longrightarrow> fp_state p \<noteq> Form_body \<Longrightarrow> fp_state p' = Form_body \<Longrightarrow>
   buf_size p' < buf_size p"
proof (induction hc p acc pos rule: form_headers_loop.induct)
  case (1 hc p acc pos)
  show ?case
  proof (cases "pos < buf_size p \<and> pos \<noteq> 0")
    case True
    then obtain fd where f: "form_header (buf_head p pos) (fp_file p) = Some fd"
      using "1.prems" by (subst (asm) form_headers_loop.simps) (auto split: option.splits)
    let ?p = "buf_erase (pos + length CR_LF) (p\<lparr>fp_file := fd\<rparr>)"
    have "form_headers_loop hc ?p acc (buf_find ?p CR_LF) = (ok, p', acc')"
      using "1.prems"(1) True f by (subst (asm) form_headers_loop.simps) (simp add: Let_def)
    then have "buf_size p' < buf_size ?p"
      using "1.IH" True f "1.prems"(2,3) by (simp add: buf_erase_def)
    then show ?thesis by (simp add: buf_size_def buf_erase_def)
  next
    case False
    with "1.prems" show ?thesis
      by (subst (asm) form_headers_loop.simps) (auto simp: buf_size_def buf_erase_def CR_LF_def split: if_splits)
  qed
qed

fun state_rank :: "form_state \<Rightarrow> nat" where
  "state_rank Initial_boundary = 4"
| "state_rank New_entry = 3"
| "state_rank Form_headers = 2"
| "state_rank Form_body = 1"
| "state_rank After_boundary = 0"

function form_loop ::
  "'a header_callback \<Rightarrow> 'a receiver \<Rightarrow> FormDataParser \<Rightarrow> 'a \<Rightarrow> bool \<times> FormDataParser \<times> 'a" where
  "form_loop hc cc p acc =
     (if buf_size p = 0 then (True, p, acc)
      else
        (case fp_state p of
           Initial_boundary \<Rightarrow>
             (let pos = buf_find p (fp_dash_boundary_crlf p)
              in if pos = buf_size p then (True, p, acc)
                 else form_loop hc cc
                        ((buf_erase (pos + length (fp_dash_boundary_crlf p)) p)\<lparr>fp_state := New_entry\<rparr>) acc)
         | New_entry \<Rightarrow> form_loop hc cc (p\<lparr>fp_file := empty_form_data, fp_state := Form_headers\<rparr>) acc
         | Form_headers \<Rightarrow>
             (let pos = buf_find p CR_LF; r = form_headers_loop hc p acc pos
              in if HEADER_MAX_LENGTH < pos then (False, p, acc)
                 else if \<not> fst r then r
                 else if fp_state (fst (snd r)) \<noteq> Form_body then r
                 else form_loop hc cc (fst (snd r)) (snd (snd r)))
         | Form_body \<Rightarrow>
             (if buf_size p < length (fp_crlf_dash_boundary p) then (True, p, acc)
              else
                (let pos = buf_find p (fp_crlf_dash_boundary p);
                     len = buf_size p - length (fp_crlf_dash_boundary p)
                 in if pos < buf_size p then
                      (if \<not> fst (cc (buf_head p pos) acc) then (False, p\<lparr>fp_is_valid := False\<rparr>, snd (cc (buf_head p pos) acc))
                       else form_loop hc cc
                              ((buf_erase (pos + length (fp_crlf_dash_boundary p)) p)\<lparr>fp_state := After_boundary\<rparr>)
                              (snd (cc (buf_head p pos) acc)))
                    else if 0 < len then
                      (if \<not> fst (cc (buf_head p len) acc) then (False, p\<lparr>fp_is_valid := False\<rparr>, snd (cc (buf_head p len) acc))
                       else (True, buf_erase len p, snd (cc (buf_head p len) acc)))
                    else (True, p, acc)))
         | After_boundary \<Rightarrow>
             (if buf_size p < length CR_LF then (True, p, acc)
              else if buf_start_with p CR_LF
              then form_loop hc cc ((buf_erase (length CR_LF) p)\<lparr>fp_state := New_entry\<rparr>) acc
              else if buf_size p < length DASH then (True, p, acc)
              else if buf_start_with p DASH
              then (let p' = (buf_erase (length DASH) p)\<lparr>fp_is_valid := True\<rparr>
                    in form_loop hc cc (buf_erase (buf_size p') p') acc)
              else (True, p, acc))))"
  by pat_completeness auto
termination
proof (relation "measures [\<lambda>(hc, cc, p, acc). buf_size p, \<lambda>(hc, cc, p, acc). state_rank (fp_state p)]", goal_cases)
  case (4 hc cc p acc pos r)
  then have "buf_size (fst (snd r)) < buf_size p"
    using form_headers_loop_shrinks[of hc p acc pos "fst r" "fst (snd r)" "snd (snd r)", unfolded prod.collapse] by simp
  then show ?case by (simp add: case_prod_beta)
qed (auto simp: buf_size_def buf_erase_def CR_LF_def DASH_def)

declare form_loop.simps [simp del]

definition parse_form ::
  "'a header_callback \<Rightarrow> 'a receiver \<Rightarrow> string \<Rightarrow> FormDataParser \<Rightarrow> 'a \<Rightarrow> bool \<times> FormDataParser \<times> 'a" where
  "parse_form hc cc data p acc = form_loop hc cc (buf_append data p) acc"

text \<open>The receiver of the content: it has the parser and what the callbacks collected.\<close>

definition form_receiver :: "'a header_callback \<Rightarrow> 'a receiver \<Rightarrow> (FormDataParser \<times> 'a) receiver" where
  "form_receiver hc cc data x = parse_form hc cc data (fst x) (snd x)"


subsection \<open>The window of the buffer\<close>

definition window :: "FormDataParser \<Rightarrow> string" where
  "window p = take (buf_size p) (drop (fp_spos p) (fp_buf p))"

definition buffer_ok :: "FormDataParser \<Rightarrow> bool" where
  "buffer_ok p \<longleftrightarrow> fp_spos p \<le> fp_epos p \<and> fp_epos p \<le> length (fp_buf p)"

lemma buf_size_window [window_simps]: "buffer_ok p \<Longrightarrow> buf_size p = length (window p)"
  by (auto simp: buffer_ok_def buf_size_def window_def)

lemma window_erase:
  assumes "buffer_ok p" "n \<le> length (window p)"
  shows "buffer_ok (buf_erase n p)" "window (buf_erase n p) = drop n (window p)"
proof -
  have "n \<le> buf_size p" using assms by (simp add: buf_size_window)
  then show "buffer_ok (buf_erase n p)" "window (buf_erase n p) = drop n (window p)"
    using assms(1) by (auto simp: buffer_ok_def buf_size_def window_def buf_erase_def drop_take add.commute)
qed

lemma buf_head_window [window_simps]: "l \<le> buf_size p \<Longrightarrow> buf_head p l = take l (window p)"
  by (simp add: buf_head_def window_def substr_def min_def)

lemma start_with_prefix: "start_with a i j s \<longleftrightarrow> prefix s (take (j - i) (drop i a))" if "i \<le> j" "j \<le> length a"
proof (cases "length s \<le> j - i")
  case True
  then have "take (length s) (take (j - i) (drop i a)) = take (length s) (drop i a)" by (simp add: min_def)
  moreover have "take (length s) (drop i a) = s \<longleftrightarrow> (\<forall>k < length s. a ! (i + k) = s ! k)"
    using True that by (auto simp: list_eq_iff_nth_eq)
  ultimately show ?thesis
    using True by (simp add: start_with_def prefix_iff_take list_all_iff atLeast0LessThan add.commute Ball_def)
next
  case False
  then show ?thesis using prefix_length_le[of s "take (j - i) (drop i a)"] by (auto simp: start_with_def)
qed

lemma buf_start_with_window [window_simps]: "buffer_ok p \<Longrightarrow> buf_start_with p s \<longleftrightarrow> prefix s (window p)"
  by (simp add: buffer_ok_def buf_start_with_def start_with_prefix window_def buf_size_def)

lemma buf_scan_drop:
  "pos \<le> epos \<Longrightarrow> epos \<le> length b \<Longrightarrow>
   take (epos - buf_scan b epos c pos) (drop (buf_scan b epos c pos) b) = dropWhile (\<lambda>x. x \<noteq> c) (take (epos - pos) (drop pos b))"
proof (induction b epos c pos rule: buf_scan.induct)
  case (1 b epos c pos)
  show ?case
  proof (cases "epos \<le> pos")
    case True
    then have "buf_scan b epos c pos = epos" by (simp add: buf_scan.simps[of b epos c pos])
    with True show ?thesis by simp
  next
    case False
    then have "take (epos - pos) (drop pos b) = b ! pos # take (epos - Suc pos) (drop (Suc pos) b)"
      using 1 by (simp add: take_Cons' flip: Cons_nth_drop_Suc)
    with False 1 show ?thesis by (simp add: buf_scan.simps[of b epos c pos])
  qed
qed

text \<open>What the scan passes over holds no occurrence.\<close>

lemma str_find_dropWhile:
  assumes "s \<noteq> []"
  shows "str_find s w = map_option ((+) (length w - length (dropWhile (\<lambda>x. x \<noteq> hd s) w))) (str_find s (dropWhile (\<lambda>x. x \<noteq> hd s) w))"
proof (induction w)
  case Nil
  with assms show ?case by simp
next
  case (Cons x w)
  show ?case
  proof (cases "x = hd s")
    case True
    then show ?thesis by (simp add: map_option.id[unfolded id_def])
  next
    case False
    with assms have "\<not> prefix s (x # w)" by (cases s) auto
    moreover have "length (dropWhile (\<lambda>x. x \<noteq> hd s) w) \<le> length w" by (rule length_dropWhile_le)
    ultimately show ?thesis
      using False Cons by (simp add: option.map_comp o_def Suc_diff_le)
  qed
qed

lemma buf_find_loop_window:
  assumes "fp_spos p \<le> off" "off \<le> fp_epos p" "fp_epos p \<le> length (fp_buf p)" "s \<noteq> []"
  shows "buf_find_loop p s off =
    (case str_find s (take (fp_epos p - off) (drop off (fp_buf p))) of
       Some i \<Rightarrow> off - fp_spos p + i | None \<Rightarrow> buf_size p)"
  using assms
proof (induction p s off rule: buf_find_loop.induct)
  case (1 p s off)
  let ?w = "take (fp_epos p - off) (drop off (fp_buf p))"
  let ?pos = "buf_scan (fp_buf p) (fp_epos p) (hd s) off"
  let ?v = "take (fp_epos p - ?pos) (drop ?pos (fp_buf p))"
  have v: "?v = dropWhile (\<lambda>x. x \<noteq> hd s) ?w" using "1.prems" buf_scan_drop by simp
  have pos: "off \<le> ?pos" "?pos \<le> fp_epos p" using buf_scan_ge[OF "1.prems"(2)] by simp_all
  have "length ?w - length ?v = ?pos - off" using pos "1.prems" by simp
  then have w: "str_find s ?w = map_option ((+) (?pos - off)) (str_find s ?v)"
    using str_find_dropWhile[OF "1.prems"(4), of ?w] v by simp
  consider "off = fp_epos p" | "off < fp_epos p" "length ?v < length s"
    | "length s \<le> length ?v" "start_with (fp_buf p) ?pos (fp_epos p) s" "off < fp_epos p"
    | "length s \<le> length ?v" "\<not> start_with (fp_buf p) ?pos (fp_epos p) s" "off < fp_epos p"
    using "1.prems"(2) by force
  then show ?case
  proof cases
    case 1
    then have "buf_find_loop p s off = buf_size p" by (subst buf_find_loop.simps) simp
    with 1 "1.prems"(4) show ?thesis by simp
  next
    case 2
    have "str_find s ?v = None"
      using 2(2) str_find_bound[of s ?v] by (cases "str_find s ?v") auto
    with 2 w pos "1.prems" show ?thesis by (subst buf_find_loop.simps) (auto simp: Let_def)
  next
    case 3
    then have "str_find s ?v = Some 0"
      using pos "1.prems" by (intro str_findI) (simp_all add: start_with_prefix)
    moreover have "?pos \<noteq> fp_epos p" using 3(1) "1.prems"(4) by auto
    ultimately show ?thesis using 3 w pos "1.prems" by (subst buf_find_loop.simps) (simp add: Let_def)
  next
    case 4
    have ne: "?pos \<noteq> fp_epos p" using 4(1) "1.prems"(4) by auto
    then have lt: "?pos < fp_epos p" using pos by simp
    then have v': "?v = fp_buf p ! ?pos # take (fp_epos p - (?pos + 1)) (drop (?pos + 1) (fp_buf p))"
      using "1.prems"(3) by (simp add: take_Cons' flip: Cons_nth_drop_Suc)
    have "\<not> prefix s ?v" using 4(2) pos "1.prems" by (simp add: start_with_prefix)
    then have f: "str_find s ?v = map_option Suc (str_find s (take (fp_epos p - (?pos + 1)) (drop (?pos + 1) (fp_buf p))))"
      by (subst (1) v', subst (asm) (1) v') simp
    have "buf_find_loop p s off = buf_find_loop p s (?pos + 1)"
      using 4 ne pos "1.prems" by (subst buf_find_loop.simps) (simp add: Let_def)
    also have "\<dots> = (case str_find s (take (fp_epos p - (?pos + 1)) (drop (?pos + 1) (fp_buf p))) of
       Some i \<Rightarrow> ?pos + 1 - fp_spos p + i | None \<Rightarrow> buf_size p)"
      using 4 ne lt pos "1.prems" by (intro "1.IH") auto
    finally show ?thesis
      using w f pos "1.prems"(1) by (auto simp: option.map_comp split: option.splits)
  qed
qed

lemma buf_find_window [window_simps]:
  "buffer_ok p \<Longrightarrow> s \<noteq> [] \<Longrightarrow>
   buf_find p s = (case str_find s (window p) of Some i \<Rightarrow> i | None \<Rightarrow> length (window p))"
  using buf_find_loop_window[of p "fp_spos p" s] buf_size_window[of p]
  by (auto simp: buffer_ok_def buf_find_def window_def buf_size_def split: option.split)


lemma buf_move_nth:
  "spos + n \<le> length b \<Longrightarrow>
   length (buf_move b spos n) = length b \<and>
   (\<forall>i < length b. buf_move b spos n ! i = (if i < n then b ! (spos + i) else b ! i))"
proof (induction n)
  case 0
  then show ?case by (simp add: buf_move_def)
next
  case (Suc n)
  have "buf_move b spos (Suc n) = (buf_move b spos n)[n := buf_move b spos n ! (spos + n)]" by (simp add: buf_move_def)
  with Suc show ?case by (auto simp: nth_list_update less_Suc_eq)
qed

lemma take_buf_move: "spos + n \<le> length b \<Longrightarrow> take n (buf_move b spos n) = take n (drop spos b)"
  using buf_move_nth[of spos n b] by (auto simp: list_eq_iff_nth_eq)

lemma buf_copy_nth:
  assumes "e + length d \<le> length b"
  shows "length (buf_copy b e d) = length b"
    "i < length b \<Longrightarrow> buf_copy b e d ! i = (if e \<le> i \<and> i < e + length d then d ! (i - e) else b ! i)"
proof -
  have "k \<le> length d \<Longrightarrow> length (foldl (\<lambda>b i. b[e + i := d ! i]) b [0..<k]) = length b \<and>
      (\<forall>i < length b. foldl (\<lambda>b i. b[e + i := d ! i]) b [0..<k] ! i =
        (if e \<le> i \<and> i < e + k then d ! (i - e) else b ! i))" for k
  proof (induction k)
    case (Suc k)
    then show ?case by (auto simp: nth_list_update less_Suc_eq)
  qed auto
  from this[of "length d"] show "length (buf_copy b e d) = length b"
    "i < length b \<Longrightarrow> buf_copy b e d ! i = (if e \<le> i \<and> i < e + length d then d ! (i - e) else b ! i)"
    by (simp_all add: buf_copy_def)
qed

lemma take_buf_copy: "e + length d \<le> length b \<Longrightarrow> take (e + length d) (buf_copy b e d) = take e b @ d"
  using buf_copy_nth[of e d b] by (auto simp: list_eq_iff_nth_eq nth_append)

text \<open>The bytes that are appended follow those that were left, wherever these lay in the buffer.\<close>

lemma window_append:
  assumes "buffer_ok p"
  shows "buffer_ok (buf_append data p)" "window (buf_append data p) = window p @ data"
proof -
  let ?n = "buf_size p"
  let ?b = "if 0 < ?n \<and> 0 < fp_spos p then buf_move (fp_buf p) (fp_spos p) ?n else fp_buf p"
  let ?c = "?b @ replicate (?n + length data - length ?b) (CHR 0x00)"
  have n: "fp_spos p + ?n \<le> length (fp_buf p)" using assms by (auto simp: buffer_ok_def buf_size_def)
  have b: "take ?n ?b = window p" "?n \<le> length ?b"
    using n take_buf_move[OF n] buf_move_nth[OF n] by (auto simp: window_def)
  then have c: "take ?n ?c = window p" "?n + length data \<le> length ?c" by simp_all
  have a: "buf_append data p = p\<lparr>fp_buf := buf_copy ?c ?n data, fp_spos := 0, fp_epos := ?n + length data\<rparr>"
    by (simp add: buf_append_def Let_def)
  show "buffer_ok (buf_append data p)"
    using c(2) buf_copy_nth(1)[OF c(2)] unfolding a by (simp add: buffer_ok_def)
  show "window (buf_append data p) = window p @ data"
    using c(1) take_buf_copy[OF c(2)] unfolding a by (simp add: window_def buf_size_def)
qed

lemma window_fields [simp]:
  "window (p\<lparr>fp_state := st\<rparr>) = window p" "window (p\<lparr>fp_file := f\<rparr>) = window p"
  "window (p\<lparr>fp_is_valid := v\<rparr>) = window p" "buffer_ok (p\<lparr>fp_state := st\<rparr>) = buffer_ok p"
  "buffer_ok (p\<lparr>fp_file := f\<rparr>) = buffer_ok p" "buffer_ok (p\<lparr>fp_is_valid := v\<rparr>) = buffer_ok p"
  by (simp_all add: window_def buf_size_def buffer_ok_def)

lemma erase_fields [simp]:
  "fp_state (buf_erase n p) = fp_state p" "fp_file (buf_erase n p) = fp_file p"
  "fp_is_valid (buf_erase n p) = fp_is_valid p" "fp_crlf_dash_boundary (buf_erase n p) = fp_crlf_dash_boundary p"
  "fp_dash_boundary_crlf (buf_erase n p) = fp_dash_boundary_crlf p"
  by (simp_all add: buf_erase_def)

lemma append_fields [simp]:
  "fp_state (buf_append d p) = fp_state p" "fp_file (buf_append d p) = fp_file p"
  "fp_is_valid (buf_append d p) = fp_is_valid p" "fp_crlf_dash_boundary (buf_append d p) = fp_crlf_dash_boundary p"
  "fp_dash_boundary_crlf (buf_append d p) = fp_dash_boundary_crlf p"
  by (simp_all add: buf_append_def Let_def)


subsection \<open>The writer\<close>

definition serialize_multipart_formdata_item_begin :: "UploadFormData \<Rightarrow> string \<Rightarrow> string" where
  "serialize_multipart_formdata_item_begin item boundary =
     DASH @ boundary @ CR_LF @
     ''Content-Disposition: form-data; name='' @ [CHR 0x22] @ up_name item @ [CHR 0x22] @
     (if up_filename item \<noteq> [] then ''; filename='' @ [CHR 0x22] @ up_filename item @ [CHR 0x22] else []) @ CR_LF @
     (if up_content_type item \<noteq> [] then ''Content-Type: '' @ up_content_type item @ CR_LF else []) @ CR_LF"

definition serialize_multipart_formdata_item_end :: string where
  "serialize_multipart_formdata_item_end = CR_LF"

definition serialize_multipart_formdata_finish :: "string \<Rightarrow> string" where
  "serialize_multipart_formdata_finish boundary = DASH @ boundary @ DASH @ CR_LF"

definition serialize_multipart_formdata_get_content_type :: "string \<Rightarrow> string" where
  "serialize_multipart_formdata_get_content_type boundary = ''multipart/form-data; boundary='' @ boundary"

definition serialize_multipart_formdata :: "UploadFormData list \<Rightarrow> string \<Rightarrow> bool \<Rightarrow> string" where
  "serialize_multipart_formdata items boundary finish =
     concat (map (\<lambda>item. serialize_multipart_formdata_item_begin item boundary @ up_content item @
       serialize_multipart_formdata_item_end) items) @
     (if finish then serialize_multipart_formdata_finish boundary else [])"

text \<open>The numbers \<open>engine\<close> are what the random engine gives, one for each character.\<close>

definition boundary_chars :: string where
  "boundary_chars = ''0123456789ABCDEFGHIJKLMNOPQRSTUVWXYZabcdefghijklmnopqrstuvwxyz''"

definition random_string :: "(nat \<Rightarrow> nat) \<Rightarrow> nat \<Rightarrow> string" where
  "random_string engine n = map (\<lambda>i. boundary_chars ! (engine i mod length boundary_chars)) [0..<n]"

definition make_multipart_data_boundary :: "(nat \<Rightarrow> nat) \<Rightarrow> string" where
  "make_multipart_data_boundary engine = ''--cpp-httplib-multipart-data-'' @ random_string engine 16"

definition is_multipart_boundary_chars_valid :: "string \<Rightarrow> bool" where
  "is_multipart_boundary_chars_valid boundary \<longleftrightarrow> list_all (\<lambda>c. is_alnum c \<or> c = CHR ''-'' \<or> c = CHR ''_'') boundary"

subsection \<open>The form of a request\<close>

text \<open>
  The accessors of \<open>MultipartFormData\<close>. From the first element of a key \<open>std::advance\<close> moves on by
  \<open>id\<close>; to go past the end of the map, or to read there, is undefined behaviour.
\<close>

definition key_lower_bound :: "(string \<times> 'a) list \<Rightarrow> string \<Rightarrow> nat" where
  "key_lower_bound m key = length (takeWhile (\<lambda>(k, _). k < key) m)"

definition key_upper_bound :: "(string \<times> 'a) list \<Rightarrow> string \<Rightarrow> nat" where
  "key_upper_bound m key = length (takeWhile (\<lambda>(k, _). k \<le> key) m)"

definition nth_of_key :: "(string \<times> 'a) list \<Rightarrow> string \<Rightarrow> nat \<Rightarrow> 'a option option" where
  "nth_of_key m key n =
     (let i = key_lower_bound m key + n
      in if i = key_upper_bound m key then Some None
         else if i < length m then Some (Some (snd (m ! i)))
         else None)"

definition get_field :: "MultipartFormData \<Rightarrow> string \<Rightarrow> nat \<Rightarrow> string option" where
  "get_field form key n =
     map_option (\<lambda>x. case x of Some f \<Rightarrow> ff_content f | None \<Rightarrow> []) (nth_of_key (mf_fields form) key n)"

definition get_fields :: "MultipartFormData \<Rightarrow> string \<Rightarrow> string list" where
  "get_fields form key =
     map (\<lambda>(_, f). ff_content f)
       (substr (mf_fields form) (key_lower_bound (mf_fields form) key)
          (key_upper_bound (mf_fields form) key - key_lower_bound (mf_fields form) key))"

definition has_field :: "MultipartFormData \<Rightarrow> string \<Rightarrow> bool" where
  "has_field form key \<longleftrightarrow> list_ex (\<lambda>(k, _). k = key) (mf_fields form)"

definition get_field_count :: "MultipartFormData \<Rightarrow> string \<Rightarrow> nat" where
  "get_field_count form key = key_upper_bound (mf_fields form) key - key_lower_bound (mf_fields form) key"

definition get_file :: "MultipartFormData \<Rightarrow> string \<Rightarrow> nat \<Rightarrow> FormData option" where
  "get_file form key n =
     map_option (\<lambda>x. case x of Some f \<Rightarrow> f | None \<Rightarrow> empty_form_data) (nth_of_key (mf_files form) key n)"

definition get_files :: "MultipartFormData \<Rightarrow> string \<Rightarrow> FormData list" where
  "get_files form key =
     map snd (substr (mf_files form) (key_lower_bound (mf_files form) key)
       (key_upper_bound (mf_files form) key - key_lower_bound (mf_files form) key))"

definition has_file :: "MultipartFormData \<Rightarrow> string \<Rightarrow> bool" where
  "has_file form key \<longleftrightarrow> list_ex (\<lambda>(k, _). k = key) (mf_files form)"

definition get_file_count :: "MultipartFormData \<Rightarrow> string \<Rightarrow> nat" where
  "get_file_count form key = key_upper_bound (mf_files form) key - key_lower_bound (mf_files form) key"

text \<open>An index past the last field of a name can give the field of another name.\<close>

lemma get_field_overruns:
  "get_field \<lparr>mf_fields = [(''a'', \<lparr>ff_name = ''a'', ff_content = ''1'', ff_headers = []\<rparr>),
      (''b'', \<lparr>ff_name = ''b'', ff_content = ''2'', ff_headers = []\<rparr>),
      (''c'', \<lparr>ff_name = ''c'', ff_content = ''3'', ff_headers = []\<rparr>)], mf_files = []\<rparr> ''a'' 2 = Some ''3''"
  by (simp add: get_field_def nth_of_key_def key_lower_bound_def key_upper_bound_def)

text \<open>
  The callbacks of \<open>Server::read_content\<close>: the form, and the element the iterators of the code are at,
  the newest of its name in the fields or the files.
\<close>

definition MULTIPART_FORM_DATA_FILE_MAX_COUNT :: nat where
  "MULTIPART_FORM_DATA_FILE_MAX_COUNT = 1024"

record form_store =
  fs_form :: MultipartFormData
  fs_is_text_field :: bool
  fs_cur :: string
  fs_count :: nat

definition new_store :: "MultipartFormData \<Rightarrow> form_store" where
  "new_store form = \<lparr>fs_form = form, fs_is_text_field = False, fs_cur = [], fs_count = 0\<rparr>"

definition update_newest :: "string \<Rightarrow> ('a \<Rightarrow> 'a) \<Rightarrow> (string \<times> 'a) list \<Rightarrow> (string \<times> 'a) list" where
  "update_newest key f m =
     (let i = key_upper_bound m key in if i = 0 then m else m[i - 1 := (fst (m ! (i - 1)), f (snd (m ! (i - 1))))])"

definition store_part :: "FormData \<Rightarrow> form_store \<Rightarrow> form_store" where
  "store_part fd st =
     (let form = fs_form st
      in st\<lparr>fs_count := fs_count st + 1, fs_cur := fd_name fd, fs_is_text_field := fd_filename fd = [],
            fs_form :=
              (if fd_filename fd = []
               then form\<lparr>mf_fields := multimap_emplace (fd_name fd)
                      \<lparr>ff_name = fd_name fd, ff_content = fd_content fd, ff_headers = fd_headers fd\<rparr> (mf_fields form)\<rparr>
               else form\<lparr>mf_files := multimap_emplace (fd_name fd) fd (mf_files form)\<rparr>)\<rparr>)"

definition store_header :: "form_store header_callback" where
  "store_header fd st =
     (if fs_count st = MULTIPART_FORM_DATA_FILE_MAX_COUNT then (False, st\<lparr>fs_count := fs_count st + 1\<rparr>)
      else (True, store_part fd st))"

definition store_bytes :: "string \<Rightarrow> form_store \<Rightarrow> form_store" where
  "store_bytes d st =
     (let form = fs_form st
      in st\<lparr>fs_form :=
           (if fs_is_text_field st
            then form\<lparr>mf_fields := update_newest (fs_cur st) (\<lambda>f. f\<lparr>ff_content := ff_content f @ d\<rparr>) (mf_fields form)\<rparr>
            else form\<lparr>mf_files := update_newest (fs_cur st) (\<lambda>f. f\<lparr>fd_content := fd_content f @ d\<rparr>) (mf_files form)\<rparr>)\<rparr>)"

definition store_content :: "form_store receiver" where
  "store_content d st = (True, store_bytes d st)"

end
