(* ===== verification/HttpServer.thy ===== *)
theory HttpServer
  imports Complex_Main HttpRanges HttpMultipart
begin

text \<open>
  The HTTP server of the library (httplib.h, class Server): matchers of paths, the registration of
  handlers, parsing of a request line, routing, the writing of a response, the handling of one
  request on a stream and of the requests of one connection. What depends on the standard library
  or is drawn at random is the record \<open>http_lib\<close>: the iteration order of headers,
  \<open>std::regex_match\<close>, \<open>std::stod\<close>, and the boundary of a response with several ranges. A handler
  maps the world of the program, a request and a response to the world and the response after it,
  with the message of an exception if it throws one; \<open>None\<close> is undefined behaviour. Hooks and features of the class that the program never sets
  (loggers, error and pre-routing handlers, mounted directories, content providers) are left out.
\<close>

record http_lib =
  h_ord :: "headers \<Rightarrow> headers"
  h_regex_match :: "string \<Rightarrow> string \<Rightarrow> string list option"
  h_stod :: "string \<Rightarrow> rat option option"
  h_boundary :: string

subsection \<open>The Accept header\<close>

text \<open>
  Whether \<open>parse_accept_header\<close> accepts a value; the list of types it returns, which nothing reads, is
  left out. \<open>stod\<close> is \<open>std::stod\<close>: \<open>None\<close> is an exception, \<open>Some None\<close> is not a number, and an
  infinity is a number outside the range.
\<close>

definition accept_quality_ok :: "(string \<Rightarrow> rat option option) \<Rightarrow> string \<Rightarrow> bool" where
  "accept_quality_ok stod quality_str \<longleftrightarrow> quality_str \<noteq> [] \<and>
     (case stod quality_str of
        None \<Rightarrow> False
      | Some None \<Rightarrow> True
      | Some (Some quality) \<Rightarrow> \<not> (quality < 0 \<or> 1 < quality))"

definition accept_entry_ok :: "(string \<Rightarrow> rat option option) \<Rightarrow> string \<Rightarrow> bool" where
  "accept_entry_ok stod piece =
     (let entry = trim_copy piece;
          q_pos = (case str_find '';q='' entry of Some i \<Rightarrow> Some i | None \<Rightarrow> str_find ''; q='' entry);
          (media_type, quality_ok) =
            (case q_pos of
               None \<Rightarrow> (entry, True)
             | Some i \<Rightarrow>
                 (let q_start = the (str_find_from ''='' entry i) + 1;
                      q_end = (case str_find_from '';'' entry q_start of Some j \<Rightarrow> j | None \<Rightarrow> length entry)
                  in (trim_copy (substr entry 0 i),
                      accept_quality_ok stod (trim_copy (substr entry q_start (q_end - q_start))))));
          media_type1 = (case str_find '';'' media_type of
                           Some i \<Rightarrow> trim_copy (substr media_type 0 i) | None \<Rightarrow> media_type)
      in entry \<noteq> [] \<and> quality_ok \<and> media_type1 \<noteq> [] \<and> (media_type1 = ''*'' \<or> str_find ''/'' media_type1 \<noteq> None))"

definition parse_accept_header :: "(string \<Rightarrow> rat option option) \<Rightarrow> string \<Rightarrow> bool" where
  "parse_accept_header stod s \<longleftrightarrow> s = [] \<or>
     \<not> (hd s = CHR '','' \<or> last s = CHR '','' \<or> str_find '',,'' s \<noteq> None) \<and>
     list_all (accept_entry_ok stod) (split s (CHR '',''))"

text \<open>A single media type without parameters is accepted.\<close>

lemma accept_any: "parse_accept_header stod ''*/*''"
proof -
  have s: "split ''*/*'' (CHR '','') = [''*/*'']"
    by (simp add: split_pieces strip_def is_space_or_tab_def)
  have t: "trim_copy ''*/*'' = ''*/*''" by (simp add: trim_copy_strip strip_def is_space_or_tab_def)
  show ?thesis
    by (simp add: parse_accept_header_def s accept_entry_ok_def t)
qed

subsection \<open>Matchers\<close>

datatype matcher =
    PathParamsMatcher string "string list" "string list"
  | RegexMatcher string

fun matcher_pattern :: "matcher \<Rightarrow> string" where
  "matcher_pattern (PathParamsMatcher p _ _) = p"
| "matcher_pattern (RegexMatcher p) = p"

lemma str_find_from_bound: "str_find_from pat s i = Some j \<Longrightarrow> i \<le> j \<and> j + length pat \<le> length s"
  using str_find_bound[of pat "drop i s"] by (auto simp: str_find_from_def split: if_splits)

text \<open>
  The loop of the constructor: the fragments and the names; \<open>Inl\<close> is the exception for a name that
  occurs twice. The next search starts at the separator that ended the last parameter.
\<close>

function path_params_loop ::
  "string \<Rightarrow> nat \<Rightarrow> string list \<Rightarrow> string list \<Rightarrow> string + string list \<times> string list" where
  "path_params_loop pattern last_param_end fragments names =
     (case str_find_from ''/:'' pattern (if last_param_end = 0 then last_param_end else last_param_end - 1) of
        None \<Rightarrow>
          Inr (if last_param_end < length pattern then fragments @ [drop last_param_end pattern] else fragments, names)
      | Some marker_pos \<Rightarrow>
          (let fragments' = fragments @ [substr pattern last_param_end (marker_pos + 1 - last_param_end)];
               sep_pos = (case str_find_from ''/'' pattern (marker_pos + 2) of None \<Rightarrow> length pattern | Some p \<Rightarrow> p);
               param_name = substr pattern (marker_pos + 2) (sep_pos - (marker_pos + 2))
           in if param_name \<in> set names
              then Inl (''Encountered path parameter '' @ [CHR 0x27] @ param_name @ [CHR 0x27] @
                        '' multiple times in route pattern '' @ [CHR 0x27] @ pattern @ [CHR 0x27] @ ''.'')
              else path_params_loop pattern (sep_pos + 1) fragments' (names @ [param_name])))"
  by pat_completeness auto
termination
proof (relation "measure (\<lambda>(p, l, f, n). length p + 2 - l)", goal_cases)
  case (2 pattern l fragments names m fragments' sep name)
  have "(if l = 0 then l else l - 1) \<le> m" "m + 2 \<le> length pattern"
    using str_find_from_bound[OF 2(1)] by simp_all
  moreover have "m + 2 \<le> sep"
    using 2(3) str_find_from_bound[of "''/''" pattern "m + 2"] calculation(2) by (auto split: option.splits)
  moreover have "sep \<le> length pattern"
    using 2(3) str_find_from_bound[of "''/''" pattern "m + 2"] by (auto split: option.splits)
  ultimately show ?case by (auto split: if_splits)
qed simp

declare path_params_loop.simps [simp del]

definition make_matcher :: "string \<Rightarrow> string + matcher" where
  "make_matcher pattern =
     (if str_find ''/:'' pattern \<noteq> None
      then (case path_params_loop pattern 0 [] [] of
              Inl e \<Rightarrow> Inl e
            | Inr (fragments, names) \<Rightarrow> Inr (PathParamsMatcher pattern fragments names))
      else Inr (RegexMatcher pattern))"

text \<open>\<open>strncmp(a, b, n) == 0\<close>.\<close>

definition strncmp_eq :: "string \<Rightarrow> string \<Rightarrow> nat \<Rightarrow> bool" where
  "strncmp_eq a b n \<longleftrightarrow>
     takeWhile (\<lambda>c. c \<noteq> CHR 0x00) (take n a) = takeWhile (\<lambda>c. c \<noteq> CHR 0x00) (take n b)"

fun match_fragments ::
  "string \<Rightarrow> string list \<Rightarrow> string list \<Rightarrow> nat \<Rightarrow> (string \<times> string) list \<Rightarrow> bool \<times> (string \<times> string) list" where
  "match_fragments path [] names starting_pos ps = (length path \<le> starting_pos, ps)"
| "match_fragments path (fragment # fragments) names starting_pos ps =
     (if length path < starting_pos + length fragment then (False, ps)
      else if \<not> strncmp_eq (drop starting_pos path) fragment (length fragment) then (False, ps)
      else
        (case names of
           [] \<Rightarrow> match_fragments path fragments names (starting_pos + length fragment) ps
         | param_name # names' \<Rightarrow>
             (let pos = starting_pos + length fragment;
                  sep_pos = (case str_find_from ''/'' path pos of None \<Rightarrow> length path | Some p \<Rightarrow> p)
              in match_fragments path fragments names' (sep_pos + 1)
                   (if param_name \<in> fst ` set ps then ps
                    else ps @ [(param_name, substr path pos (sep_pos - pos))]))))"

fun matches :: "http_lib \<Rightarrow> matcher \<Rightarrow> Request \<Rightarrow> bool \<times> Request" where
  "matches lib (PathParamsMatcher p fragments names) req =
     (let (ok, ps) = match_fragments (rq_path req) fragments names 0 []
      in (ok, req\<lparr>rq_matches := [], rq_path_params := ps\<rparr>))"
| "matches lib (RegexMatcher p) req =
     (case h_regex_match lib p (rq_path req) of
        Some ms \<Rightarrow> (True, req\<lparr>rq_path_params := [], rq_matches := ms\<rparr>)
      | None \<Rightarrow> (False, req\<lparr>rq_path_params := [], rq_matches := []\<rparr>))"

subsection \<open>Registration of handlers\<close>

type_synonym 'w handler_fn = "'w \<Rightarrow> Request \<Rightarrow> Response \<Rightarrow> ('w \<times> string option \<times> Response) option"

type_synonym 'w handlers = "(matcher \<times> 'w handler_fn) list"

record 'w http_server =
  get_handlers :: "'w handlers"
  post_handlers :: "'w handlers"
  put_handlers :: "'w handlers"
  patch_handlers :: "'w handlers"
  delete_handlers :: "'w handlers"
  options_handlers :: "'w handlers"

definition new_server :: "'w http_server" where
  "new_server = \<lparr>get_handlers = [], post_handlers = [], put_handlers = [], patch_handlers = [],
     delete_handlers = [], options_handlers = []\<rparr>"

definition server_Get :: "string \<Rightarrow> 'w handler_fn \<Rightarrow> 'w http_server \<Rightarrow> string + 'w http_server" where
  "server_Get pattern h srv =
     (case make_matcher pattern of Inl e \<Rightarrow> Inl e | Inr m \<Rightarrow> Inr (srv\<lparr>get_handlers := get_handlers srv @ [(m, h)]\<rparr>))"

definition server_Post :: "string \<Rightarrow> 'w handler_fn \<Rightarrow> 'w http_server \<Rightarrow> string + 'w http_server" where
  "server_Post pattern h srv =
     (case make_matcher pattern of Inl e \<Rightarrow> Inl e | Inr m \<Rightarrow> Inr (srv\<lparr>post_handlers := post_handlers srv @ [(m, h)]\<rparr>))"

definition server_Put :: "string \<Rightarrow> 'w handler_fn \<Rightarrow> 'w http_server \<Rightarrow> string + 'w http_server" where
  "server_Put pattern h srv =
     (case make_matcher pattern of Inl e \<Rightarrow> Inl e | Inr m \<Rightarrow> Inr (srv\<lparr>put_handlers := put_handlers srv @ [(m, h)]\<rparr>))"

definition server_Delete :: "string \<Rightarrow> 'w handler_fn \<Rightarrow> 'w http_server \<Rightarrow> string + 'w http_server" where
  "server_Delete pattern h srv =
     (case make_matcher pattern of Inl e \<Rightarrow> Inl e | Inr m \<Rightarrow> Inr (srv\<lparr>delete_handlers := delete_handlers srv @ [(m, h)]\<rparr>))"

subsection \<open>The request line\<close>

definition known_methods :: "string list" where
  "known_methods =
     [''GET'', ''HEAD'', ''POST'', ''PUT'', ''DELETE'', ''CONNECT'', ''OPTIONS'', ''TRACE'', ''PATCH'', ''PRI'']"

text \<open>The first three pieces of the line go into the request.\<close>

definition fill_request_line :: "string list \<Rightarrow> Request \<Rightarrow> Request" where
  "fill_request_line ps req =
     req\<lparr>rq_method := (case ps of m # _ \<Rightarrow> m | _ \<Rightarrow> rq_method req),
         rq_target := (case ps of _ # target # _ \<Rightarrow> target | _ \<Rightarrow> rq_target req),
         rq_version := (case ps of _ # _ # version # _ \<Rightarrow> version | _ \<Rightarrow> rq_version req)\<rparr>"

text \<open>The line is a C string; the result, and the request as it is then.\<close>

definition parse_request_line :: "string \<Rightarrow> Request \<Rightarrow> bool \<times> Request" where
  "parse_request_line s req =
     (let len = length s
      in if len < 2 \<or> s ! (len - 2) \<noteq> CHR 0x0D \<or> s ! (len - 1) \<noteq> CHR 0x0A then (False, req)
         else
           (let ps = split (take (len - 2) s) (CHR '' '');
                req1 = fill_request_line ps req
            in if length ps \<noteq> 3 then (False, req1)
               else if rq_method req1 \<notin> set known_methods then (False, req1)
               else if rq_version req1 \<noteq> ''HTTP/1.1'' \<and> rq_version req1 \<noteq> ''HTTP/1.0'' then (False, req1)
               else
                 (let target = takeWhile (\<lambda>c. c \<noteq> CHR ''#'') (rq_target req1);
                      (lhs, rhs) = divide target (CHR ''?'')
                  in (True, req1\<lparr>rq_target := target, rq_path := decode_path_component lhs,
                                 rq_params := parse_query_text rhs (rq_params req1)\<rparr>))))"

subsection \<open>Routing\<close>

definition expect_content :: "http_lib \<Rightarrow> Request \<Rightarrow> bool" where
  "expect_content lib req \<longleftrightarrow>
     (if rq_method req \<in> {''POST'', ''PUT'', ''PATCH'', ''DELETE''} then True
      else if has_header req ''Content-Length'' \<and>
              0 < fst (get_header_value_u64 (h_ord lib) (rq_headers req) ''Content-Length'' 0) then True
      else is_chunked_transfer_encoding (h_ord lib) (rq_headers req))"

definition is_multipart_form_data :: "http_lib \<Rightarrow> Request \<Rightarrow> bool" where
  "is_multipart_form_data lib req \<longleftrightarrow>
     prefix ''multipart/form-data'' (get_header_value (h_ord lib) (rq_headers req) ''Content-Type'' [])"

definition PAYLOAD_MAX_LENGTH :: nat where
  "PAYLOAD_MAX_LENGTH = 2 ^ 64 - 1"

definition FORM_URL_ENCODED_PAYLOAD_MAX_LENGTH :: nat where
  "FORM_URL_ENCODED_PAYLOAD_MAX_LENGTH = 8192"

text \<open>The branch of \<open>read_content_core\<close> for a multipart form, and the one for any other content.\<close>

definition read_form_content ::
  "http_lib \<Rightarrow> Request \<Rightarrow> Response \<Rightarrow> stream \<Rightarrow> bool \<times> Request \<times> Response \<times> stream" where
  "read_form_content lib req res strm =
     (case parse_multipart_boundary (get_header_value (h_ord lib) (rq_headers req) ''Content-Type'' []) of
        None \<Rightarrow> (False, req, res\<lparr>res_status := 400\<rparr>, strm)
      | Some boundary \<Rightarrow>
          if rq_method req = ''DELETE'' \<and> \<not> has_header req ''Content-Length'' then (True, req, res, strm)
          else
            (let (err, (p, st), trailers, strm') =
                   read_content (form_receiver store_header store_content) (h_ord lib) (rq_headers req)
                     PAYLOAD_MAX_LENGTH (set_boundary boundary new_form_parser, new_store (rq_form req)) strm;
                 req' = req\<lparr>rq_form := fs_form st, rq_trailers := rq_trailers req @ trailers\<rparr>
             in (case err of
                   Some status \<Rightarrow> (False, req', res\<lparr>res_status := status\<rparr>, strm')
                 | None \<Rightarrow> if \<not> fp_is_valid p then (False, req', res\<lparr>res_status := 400\<rparr>, strm')
                           else (True, req', res, strm'))))"

definition read_content_core ::
  "http_lib \<Rightarrow> Request \<Rightarrow> Response \<Rightarrow> stream \<Rightarrow> bool \<times> Request \<times> Response \<times> stream" where
  "read_content_core lib req res strm =
     (if is_multipart_form_data lib req then read_form_content lib req res strm
      else if rq_method req = ''DELETE'' \<and> \<not> has_header req ''Content-Length'' then (True, req, res, strm)
      else
        (let (err, content, trailers, strm') =
               read_content append_receiver (h_ord lib) (rq_headers req) PAYLOAD_MAX_LENGTH (rq_body req) strm;
             req' = req\<lparr>rq_body := content, rq_trailers := rq_trailers req @ trailers\<rparr>
         in (case err of
               Some status \<Rightarrow> (False, req', res\<lparr>res_status := status\<rparr>, strm')
             | None \<Rightarrow> (True, req', res, strm'))))"

definition server_read_content ::
  "http_lib \<Rightarrow> Request \<Rightarrow> Response \<Rightarrow> stream \<Rightarrow> bool \<times> Request \<times> Response \<times> stream" where
  "server_read_content lib req res strm =
     (let (ok, req', res', strm') = read_content_core lib req res strm
      in if \<not> ok then (False, req', res', strm')
         else if prefix ''application/x-www-form-urlencoded''
                   (get_header_value (h_ord lib) (rq_headers req') ''Content-Type'' [])
         then (if FORM_URL_ENCODED_PAYLOAD_MAX_LENGTH < length (rq_body req')
               then (False, req', res'\<lparr>res_status := 413\<rparr>, strm')
               else (True, req'\<lparr>rq_params := parse_query_text (rq_body req') (rq_params req')\<rparr>, res', strm'))
         else (True, req', res', strm'))"

text \<open>
  What a routing did: whether a handler was found, or the message of its exception; the world, the
  request and the response after it.
\<close>

fun dispatch_request ::
  "http_lib \<Rightarrow> 'w \<Rightarrow> Request \<Rightarrow> Response \<Rightarrow> 'w handlers \<Rightarrow> ('w \<times> Request \<times> Response \<times> (string + bool)) option" where
  "dispatch_request lib w req res [] = Some (w, req, res, Inr False)"
| "dispatch_request lib w req res ((m, h) # hs) =
     (let (ok, req') = matches lib m req
      in if ok
         then (let req'' = req'\<lparr>rq_matched_route := matcher_pattern m\<rparr>
               in (case h w req'' res of
                     None \<Rightarrow> None
                   | Some (w', None, res') \<Rightarrow> Some (w', req'', res', Inr True)
                   | Some (w', Some what, res') \<Rightarrow> Some (w', req'', res', Inl what)))
         else dispatch_request lib w req' res hs)"

definition routing ::
  "http_lib \<Rightarrow> 'w http_server \<Rightarrow> 'w \<Rightarrow> Request \<Rightarrow> Response \<Rightarrow> stream \<Rightarrow>
   ('w \<times> Request \<times> Response \<times> (string + bool)) option \<times> stream" where
  "routing lib srv w req res strm =
     (let (ok, req', res', strm') =
            (if expect_content lib req then server_read_content lib req res strm else (True, req, res, strm))
      in if \<not> ok then (Some (w, req', res', Inr False), strm')
         else
           (if rq_method req' = ''GET'' \<or> rq_method req' = ''HEAD'' then dispatch_request lib w req' res' (get_handlers srv)
            else if rq_method req' = ''POST'' then dispatch_request lib w req' res' (post_handlers srv)
            else if rq_method req' = ''PUT'' then dispatch_request lib w req' res' (put_handlers srv)
            else if rq_method req' = ''DELETE'' then dispatch_request lib w req' res' (delete_handlers srv)
            else if rq_method req' = ''OPTIONS'' then dispatch_request lib w req' res' (options_handlers srv)
            else if rq_method req' = ''PATCH'' then dispatch_request lib w req' res' (patch_handlers srv)
            else Some (w, req', res'\<lparr>res_status := 400\<rparr>, Inr False), strm'))"


subsection \<open>Writing a response\<close>

text \<open>
  With several ranges the content type of the response is moved into the parts: the one found first,
  and the response that announces the parts.
\<close>

definition parts_content_type :: "http_lib \<Rightarrow> Request \<Rightarrow> Response \<Rightarrow> string \<times> Response" where
  "parts_content_type lib req res =
     (if 1 < length (rq_ranges req) \<and> res_status res = 206
      then
        (let announce = set_header ''Content-Type'' (''multipart/byteranges; boundary='' @ h_boundary lib)
         in (case filter (\<lambda>(n, v). case_equal n ''Content-Type'') (h_ord lib (res_headers res)) of
               [] \<Rightarrow> ([], announce res)
             | (n, v) # _ \<Rightarrow> (v, announce (res\<lparr>res_headers := remove1 (n, v) (res_headers res)\<rparr>))))
      else ([], res))"

text \<open>The ranges are cut out of the body.\<close>

definition cut_ranges :: "http_lib \<Rightarrow> Request \<Rightarrow> string \<Rightarrow> Response \<Rightarrow> Response" where
  "cut_ranges lib req content_type res =
     (if rq_ranges req = [] \<or> res_status res \<noteq> 206 then res
      else if length (rq_ranges req) = 1 then
        (let (offset, n) = get_range_offset_and_length (hd (rq_ranges req));
             content_range = make_content_range_header_field (offset, n) (length (res_body res))
         in (set_header ''Content-Range'' content_range res)\<lparr>res_body := substr (res_body res) offset n\<rparr>)
      else res\<lparr>res_body := make_multipart_ranges_data (rq_ranges req) (h_boundary lib) content_type (res_body res)\<rparr>)"

text \<open>
  \<open>apply_ranges\<close> for a response without a content provider, in a build without compression.
\<close>

definition apply_ranges :: "http_lib \<Rightarrow> Request \<Rightarrow> Response \<Rightarrow> Response" where
  "apply_ranges lib req res =
     (let (content_type, res1) = parts_content_type lib req res
      in if res_body res1 = [] then res1
         else (let res2 = cut_ranges lib req content_type res1
               in set_header ''Content-Length'' (string_of_nat (length (res_body res2))) res2))"

definition KEEPALIVE_MAX_COUNT :: nat where
  "KEEPALIVE_MAX_COUNT = 100"

definition KEEPALIVE_TIMEOUT_SECOND :: nat where
  "KEEPALIVE_TIMEOUT_SECOND = 5"

definition response_has_header :: "Response \<Rightarrow> string \<Rightarrow> bool" where
  "response_has_header res key = headers_has (res_headers res) key"

text \<open>The headers every response gets.\<close>

definition connection_header :: "http_lib \<Rightarrow> bool \<Rightarrow> Request \<Rightarrow> Response \<Rightarrow> Response" where
  "connection_header lib close_connection req res =
     (if close_connection \<or> get_header_value (h_ord lib) (rq_headers req) ''Connection'' [] = ''close''
      then set_header ''Connection'' ''close'' res
      else set_header ''Keep-Alive''
             (''timeout='' @ string_of_nat KEEPALIVE_TIMEOUT_SECOND @ '', max='' @ string_of_nat KEEPALIVE_MAX_COUNT) res)"

definition default_content_type :: "Response \<Rightarrow> Response" where
  "default_content_type res =
     (if res_body res \<noteq> [] \<and> \<not> response_has_header res ''Content-Type''
      then set_header ''Content-Type'' ''text/plain'' res else res)"

definition default_content_length :: "Response \<Rightarrow> Response" where
  "default_content_length res =
     (if res_body res = [] \<and> \<not> response_has_header res ''Content-Length''
      then set_header ''Content-Length'' ''0'' res else res)"

definition default_accept_ranges :: "Request \<Rightarrow> Response \<Rightarrow> Response" where
  "default_accept_ranges req res =
     (if rq_method req = ''HEAD'' \<and> \<not> response_has_header res ''Accept-Ranges''
      then set_header ''Accept-Ranges'' ''bytes'' res else res)"

definition additional_headers :: "http_lib \<Rightarrow> bool \<Rightarrow> Request \<Rightarrow> Response \<Rightarrow> Response" where
  "additional_headers lib close_connection req res =
     default_accept_ranges req (default_content_length (default_content_type
       (connection_header lib close_connection req res)))"

text \<open>The response line and the headers are collected in a buffer and sent at once.\<close>

definition response_head_data :: "http_lib \<Rightarrow> Response \<Rightarrow> string" where
  "response_head_data lib res =
     (let (n1, bstrm1) = write_response_line buffer_stream (res_status res);
          (n2, bstrm2) = write_headers (h_ord lib) bstrm1 (res_headers res)
      in get_buffer bstrm2)"

definition write_response_core ::
  "http_lib \<Rightarrow> stream \<Rightarrow> bool \<Rightarrow> Request \<Rightarrow> Response \<Rightarrow> bool \<Rightarrow> bool \<times> stream" where
  "write_response_core lib strm close_connection req res need_apply_ranges =
     (let res1 = (if need_apply_ranges then apply_ranges lib req res else res);
          res2 = additional_headers lib close_connection req res1;
          (ok, strm1) = write_data strm (response_head_data lib res2)
      in if rq_method req \<noteq> ''HEAD'' \<and> res_body res2 \<noteq> []
         then write_data strm1 (res_body res2) else (True, strm1))"

definition write_response :: "http_lib \<Rightarrow> stream \<Rightarrow> bool \<Rightarrow> Request \<Rightarrow> Response \<Rightarrow> bool \<times> stream" where
  "write_response lib strm close_connection req res =
     write_response_core lib strm close_connection (req\<lparr>rq_ranges := []\<rparr>) res False"

definition write_response_with_content ::
  "http_lib \<Rightarrow> stream \<Rightarrow> bool \<Rightarrow> Request \<Rightarrow> Response \<Rightarrow> bool \<times> stream" where
  "write_response_with_content lib strm close_connection req res =
     write_response_core lib strm close_connection req res True"

subsection \<open>One request\<close>

definition REQUEST_URI_MAX_LENGTH :: nat where
  "REQUEST_URI_MAX_LENGTH = 8192"

text \<open>The two ends of a connection, as \<open>getpeername\<close> and \<open>getsockname\<close> give them.\<close>

record peer =
  remote_addr :: string
  remote_port :: int
  local_addr :: string
  local_port :: int

text \<open>The text of an exception in a header.\<close>

fun escape_what :: "string \<Rightarrow> string" where
  "escape_what [] = []"
| "escape_what (c # s) =
     (if c = CHR 0x00 then []
      else if c = CHR 0x0D then CHR 0x5C # CHR ''r'' # escape_what s
      else if c = CHR 0x0A then CHR 0x5C # CHR ''n'' # escape_what s
      else c # escape_what s)"

definition add_peer :: "peer \<Rightarrow> Request \<Rightarrow> Request" where
  "add_peer p req =
     request_set_header ''LOCAL_PORT'' (string_of_int (local_port p))
       (request_set_header ''LOCAL_ADDR'' (local_addr p)
         (request_set_header ''REMOTE_PORT'' (string_of_int (remote_port p))
           (request_set_header ''REMOTE_ADDR'' (remote_addr p) req)))"

text \<open>Whether a request was routed, and the response; an exception makes it an error.\<close>

definition catch_exception :: "string + bool \<Rightarrow> Response \<Rightarrow> bool \<times> Response" where
  "catch_exception outcome res =
     (case outcome of
        Inr routed \<Rightarrow> (routed, res)
      | Inl e \<Rightarrow> (False, set_header ''EXCEPTION_WHAT'' (escape_what e) (res\<lparr>res_status := 500\<rparr>)))"

definition default_status :: "Request \<Rightarrow> Response \<Rightarrow> Response" where
  "default_status req res =
     (if res_status res = -1 then res\<lparr>res_status := (if rq_ranges req = [] then 200 else 206)\<rparr> else res)"

text \<open>The answer to a request, once the routing is over; no file is served.\<close>

definition finish_request ::
  "http_lib \<Rightarrow> bool \<Rightarrow> Request \<Rightarrow> bool \<times> Response \<Rightarrow> stream \<Rightarrow> bool \<times> stream" where
  "finish_request lib close_connection req outcome strm =
     (let (routed, res) = outcome
      in if routed
         then
           (let res1 = default_status req res
            in (case range_error (rq_ranges req) res1 of
                  None \<Rightarrow> write_response lib strm close_connection req (res1\<lparr>res_body := [], res_status := 416\<rparr>)
                | Some rs \<Rightarrow>
                    write_response_with_content lib strm close_connection (req\<lparr>rq_ranges := rs\<rparr>) res1))
         else
           write_response lib strm close_connection req
             (if res_status res = -1 then res\<lparr>res_status := 404\<rparr> else res))"

text \<open>
  The part after the request line and the headers: the world, the result and whether the connection
  is to be closed; \<open>None\<close> is undefined behaviour of a handler.
\<close>

definition handle_head ::
  "http_lib \<Rightarrow> 'w http_server \<Rightarrow> peer \<Rightarrow> bool \<Rightarrow> 'w \<Rightarrow> Request \<Rightarrow> stream \<Rightarrow> ('w \<times> bool \<times> bool \<times> stream) option" where
  "handle_head lib srv p close_connection w req strm =
     (let connection = get_header_value (h_ord lib) (rq_headers req) ''Connection'' [];
          connection_closed = (connection = ''close'' \<or> rq_version req = ''HTTP/1.0'' \<and> connection \<noteq> ''Keep-Alive'');
          req1 = add_peer p req;
          refuse = (\<lambda>status. Some (w, let (ret, strm') =
             write_response lib strm close_connection req1 (new_response\<lparr>res_status := status\<rparr>)
             in (ret, connection_closed, strm')))
      in if has_header req1 ''Accept'' \<and>
            \<not> parse_accept_header (h_stod lib) (get_header_value (h_ord lib) (rq_headers req1) ''Accept'' []) then refuse 400
         else
           (case (if has_header req1 ''Range''
                  then parse_range_header (get_header_value (h_ord lib) (rq_headers req1) ''Range'' []) else Some []) of
              None \<Rightarrow> refuse 416
            | Some rs \<Rightarrow>
                (let req2 = req1\<lparr>rq_ranges := rs\<rparr>;
                     strm1 = (if get_header_value (h_ord lib) (rq_headers req2) ''Expect'' [] = ''100-continue''
                              then snd (stream_write (snd (write_response_line strm 100)) CR_LF) else strm)
                 in (case routing lib srv w req2 new_response strm1 of
                       (None, _) \<Rightarrow> None
                     | (Some (w', req3, res, outcome), strm2) \<Rightarrow>
                         Some (w', let (ret, strm3) = finish_request lib close_connection req3 (catch_exception outcome res) strm2
                                   in (ret, connection_closed, strm3))))))"

definition process_request ::
  "http_lib \<Rightarrow> 'w http_server \<Rightarrow> peer \<Rightarrow> bool \<Rightarrow> 'w \<Rightarrow> stream \<Rightarrow> ('w \<times> bool \<times> bool \<times> stream) option" where
  "process_request lib srv p close_connection w strm =
     (let (ok, lr, strm1) = line_getline (line_reader 2048) strm;
          refuse = (\<lambda>status req strm'. Some (w, let (ret, strm'') =
             write_response lib strm' close_connection req (new_response\<lparr>res_status := status\<rparr>)
             in (ret, False, strm'')))
      in if \<not> ok then Some (w, False, False, strm1)
         else
           (let (ok1, req) = parse_request_line (line_c_str lr) new_request
            in if \<not> ok1 then refuse 400 req strm1
               else
                 (let (ok2, hs, strm2) = read_headers strm1 []; req1 = req\<lparr>rq_headers := hs\<rparr>
                  in if \<not> ok2 then refuse 400 req1 strm2
                     else if REQUEST_URI_MAX_LENGTH < length (rq_target req1)
                     then refuse 414 req1 (snd (snd (read_headers strm2 [])))
                     else handle_head lib srv p close_connection w req1 strm2)))"

subsection \<open>The requests of a connection\<close>

text \<open>
  What one turn of the loop of \<open>keep_alive\<close> sees: whether the server's socket has been closed, the
  result of \<open>select_read\<close>, and whether the timeout has passed. The result is \<open>None\<close> while it waits.
\<close>

fun keep_alive_loop :: "(bool \<times> int \<times> bool) list \<Rightarrow> bool option" where
  "keep_alive_loop [] = None"
| "keep_alive_loop ((svr_closed, val, timed_out) # polls) =
     (if svr_closed then Some False
      else if val < 0 then Some False
      else if val = 0 then (if timed_out then Some False else keep_alive_loop polls)
      else Some True)"

definition keep_alive :: "int \<Rightarrow> (bool \<times> int \<times> bool) list \<Rightarrow> bool option" where
  "keep_alive first polls = (if 0 < first then Some True else keep_alive_loop polls)"

type_synonym wait = "int \<times> (bool \<times> int \<times> bool) list"

text \<open>
  The loop over the requests of a connection, for the waits of \<open>keep_alive\<close> before each of them.
  The result is the last callback's; a connection that still waits has the first component True.
\<close>

fun socket_loop ::
  "('s \<Rightarrow> bool \<Rightarrow> (bool \<times> bool \<times> 's) option) \<Rightarrow> nat \<Rightarrow> wait list \<Rightarrow> bool \<Rightarrow> 's \<Rightarrow> (bool \<times> bool \<times> 's) option" where
  "socket_loop callback 0 ws ret s = Some (False, ret, s)"
| "socket_loop callback (Suc n) [] ret s = Some (True, ret, s)"
| "socket_loop callback (Suc n) ((first, polls) # ws) ret s =
     (case keep_alive first polls of
        None \<Rightarrow> Some (True, ret, s)
      | Some False \<Rightarrow> Some (False, ret, s)
      | Some True \<Rightarrow>
          (case callback s (n = 0) of
             None \<Rightarrow> None
           | Some (ret', connection_closed, s') \<Rightarrow>
               if \<not> ret' \<or> connection_closed then Some (False, ret', s')
               else socket_loop callback n ws ret' s'))"

definition process_server_socket_core ::
  "nat \<Rightarrow> wait list \<Rightarrow> ('s \<Rightarrow> bool \<Rightarrow> (bool \<times> bool \<times> 's) option) \<Rightarrow> 's \<Rightarrow> (bool \<times> bool \<times> 's) option" where
  "process_server_socket_core keep_alive_max_count ws callback s =
     socket_loop callback keep_alive_max_count ws False s"

text \<open>Each request gets a stream of its own over the socket, so what the last one had buffered is gone.\<close>

definition new_socket_stream :: "stream \<Rightarrow> stream" where
  "new_socket_stream strm = strm\<lparr>read_buff := []\<rparr>"

definition process_and_close_socket ::
  "http_lib \<Rightarrow> 'w http_server \<Rightarrow> peer \<Rightarrow> wait list \<Rightarrow> 'w \<Rightarrow> stream \<Rightarrow> (bool \<times> bool \<times> 'w \<times> stream) option" where
  "process_and_close_socket lib srv p ws w strm =
     process_server_socket_core KEEPALIVE_MAX_COUNT ws
       (\<lambda>(w, strm) close_connection.
          (case process_request lib srv p close_connection w (new_socket_stream strm) of
             None \<Rightarrow> None
           | Some (w', ret, connection_closed, strm') \<Rightarrow> Some (ret, connection_closed, (w', strm'))))
       (w, strm)"

end
