(* ===== verification/RequestWire.thy ===== *)
theory RequestWire
  imports HttpServer
begin

text \<open>
  A request on the wire, read by the library's server: what the line reader, the parser of the
  request line, the header reader and the content reader make of the bytes of a well-formed request,
  however they are cut into packets.
\<close>

subsection \<open>The request line\<close>

definition target_ok :: "string \<Rightarrow> bool" where
  "target_ok t \<longleftrightarrow> t \<noteq> [] \<and> length t \<le> REQUEST_URI_MAX_LENGTH \<and>
     (\<forall>c \<in> set t. c \<notin> {CHR '' '', CHR 0x09, CHR 0x0D, CHR 0x0A, CHR 0x00, CHR ''#'', CHR ''?'', CHR 0x25})"

definition request_line_text :: "string \<Rightarrow> string \<Rightarrow> string" where
  "request_line_text m t = m @ '' '' @ t @ '' HTTP/1.1''"

lemma strip_plain: "\<forall>c \<in> set w. \<not> is_space_or_tab c \<Longrightarrow> strip w = w"
proof -
  assume a: "\<forall>c \<in> set w. \<not> is_space_or_tab c"
  then have "dropWhile is_space_or_tab w = w" "dropWhile is_space_or_tab (rev w) = rev w"
    by (auto simp: dropWhile_eq_self_iff hd_rev)
  then show ?thesis by (simp add: strip_def)
qed

lemma method_chars: "m \<in> set known_methods \<Longrightarrow> m \<noteq> [] \<and> length m \<le> 7 \<and> (\<forall>c \<in> set m. is_token_char c)"
proof -
  have "list_all (\<lambda>m. m \<noteq> [] \<and> length m \<le> 7 \<and> list_all is_token_char m) known_methods" by code_simp
  then show "m \<in> set known_methods \<Longrightarrow> m \<noteq> [] \<and> length m \<le> 7 \<and> (\<forall>c \<in> set m. is_token_char c)"
    by (simp add: list_all_iff)
qed

lemma split_request_line:
  assumes "m \<in> set known_methods" "target_ok t"
  shows "split (request_line_text m t) (CHR '' '') = [m, t, ''HTTP/1.1'']"
proof -
  have m: "\<forall>c \<in> set m. \<not> is_space_or_tab c" "CHR '' '' \<notin> set m" "m \<noteq> []" "length m \<le> 7"
    using method_chars[OF assms(1)] token_char_not(2) by (auto simp: is_space_or_tab_def)
  have t: "\<forall>c \<in> set t. \<not> is_space_or_tab c" "CHR '' '' \<notin> set t" "t \<noteq> []" "length t \<le> 8192"
    using assms(2) by (auto simp: target_ok_def is_space_or_tab_def REQUEST_URI_MAX_LENGTH_def)
  have "pieces (CHR '' '') (request_line_text m t) = [m, t, ''HTTP/1.1'']"
    using m(2) t(2) by (simp add: request_line_text_def pieces_sep)
  moreover have "length (request_line_text m t) < 2 ^ 64 - 1" using m t by (simp add: request_line_text_def)
  moreover have "strip ''HTTP/1.1'' = ''HTTP/1.1''" by (rule strip_plain) (simp add: is_space_or_tab_def)
  ultimately show ?thesis using m t by (simp add: split_pieces strip_plain)
qed

lemma split_Nil: "split [] d = []"
  by (simp add: split_pieces)

lemma parse_query_Nil: "parse_query_text [] ps = ps"
  by (simp add: parse_query_text_def split_Nil)

definition with_line :: "string \<Rightarrow> string \<Rightarrow> Request \<Rightarrow> Request" where
  "with_line m t req = req\<lparr>rq_method := m, rq_target := t, rq_version := ''HTTP/1.1'', rq_path := t\<rparr>"

lemma parse_request_line_text:
  assumes "m \<in> set known_methods" "target_ok t"
  shows "parse_request_line (request_line_text m t @ CR_LF) req = (True, with_line m t req)"
proof -
  have "takeWhile (\<lambda>c. c \<noteq> CHR ''#'') t = t" "CHR ''?'' \<notin> set t" "CHR 0x25 \<notin> set t"
    using assms(2) by (auto simp: target_ok_def takeWhile_eq_all_conv)
  then have t: "takeWhile (\<lambda>c. c \<noteq> CHR ''#'') t = t" "divide t (CHR ''?'') = (t, [])" "decode_path_component t = t"
    by (simp_all add: divide_none decode_path_component_plain)
  have "take (length (request_line_text m t @ CR_LF) - 2) (request_line_text m t @ CR_LF) = request_line_text m t"
    by (simp add: CR_LF_def)
  then show ?thesis
    unfolding parse_request_line_def Let_def
    using assms(1) split_request_line[OF assms]
    by (simp add: CR_LF_def nth_append fill_request_line_def parse_query_Nil with_line_def t del: takeWhile_eq_all_conv)
qed

subsection \<open>The head\<close>

definition head_text :: "string \<Rightarrow> string \<Rightarrow> headers \<Rightarrow> string" where
  "head_text m t hs = request_line_text m t @ CR_LF @ concat (map header_line hs) @ CR_LF"

definition head_ok :: "string \<Rightarrow> string \<Rightarrow> headers \<Rightarrow> bool" where
  "head_ok m t hs \<longleftrightarrow> m \<in> set known_methods \<and> target_ok t \<and> (\<forall>x \<in> set hs. field_ok x) \<and> length hs \<le> HEADER_MAX_COUNT"

text \<open>Streams that differ in the bytes read only.\<close>

definition same_end :: "stream \<Rightarrow> stream \<Rightarrow> bool" where
  "same_end s s' \<longleftrightarrow> stream_ok s' \<and> arrival_end s' = arrival_end s \<and> sent s' = sent s \<and> send_results s' = send_results s"

lemma request_line_read:
  assumes "head_ok m t hs"
  shows "read_line en (request_line_text m t @ CR_LF @ r) = (True, request_line_text m t @ CR_LF, r)"
    "CHR 0x00 \<notin> set (request_line_text m t @ CR_LF)"
proof -
  have m: "m \<in> set known_methods" and t: "target_ok t" using assms by (simp_all add: head_ok_def)
  note mc = method_chars[OF m]
  have "c \<noteq> CHR 0x0D \<and> c \<noteq> CHR 0x00" if "c \<in> set m" for c
    using mc that token_char_not(3,5)[of c] by blast
  then have "CHR 0x0D \<notin> set (request_line_text m t)" "CHR 0x00 \<notin> set (request_line_text m t)"
    using t by (auto simp: request_line_text_def target_ok_def)
  moreover have "length (request_line_text m t) + 2 \<le> MAX_LINE_LENGTH"
    using t mc by (simp add: request_line_text_def target_ok_def REQUEST_URI_MAX_LENGTH_def MAX_LINE_LENGTH_def)
  ultimately show "read_line en (request_line_text m t @ CR_LF @ r) = (True, request_line_text m t @ CR_LF, r)"
    "CHR 0x00 \<notin> set (request_line_text m t @ CR_LF)"
    using read_line_crlf[OF str_find_crlf, of "request_line_text m t" en r] by (simp_all add: CR_LF_def)
qed

text \<open>The head is read as it was written, each field decoded; the content is left.\<close>

lemma process_head:
  assumes "stream_ok s" "unread s = head_text m t hs @ r" "head_ok m t hs"
  obtains s' where
    "process_request lib srv p cc w s = handle_head lib srv p cc w ((with_line m t new_request)\<lparr>rq_headers := map decoded hs\<rparr>) s'"
    "unread s' = r" "same_end s s'"
proof -
  have "read_line (arrival_end s) (unread s) =
      (True, request_line_text m t @ CR_LF, concat (map header_line hs) @ CR_LF @ r)"
    unfolding assms(2) head_text_def
    using request_line_read(1)[OF assms(3), of "arrival_end s" "concat (map header_line hs) @ CR_LF @ r"] by simp
  with assms(1) obtain lr s1 where s1: "line_getline (line_reader 2048) s = (True, lr, s1)"
    "line_text lr = request_line_text m t @ CR_LF" "unread s1 = concat (map header_line hs) @ CR_LF @ r"
    "same_end s s1"
    by (cases rule: line_getline_read_line[where lr = "line_reader 2048"]) (auto simp: same_end_def)
  have "line_c_str lr = request_line_text m t @ CR_LF"
    using s1(2) request_line_read(2)[OF assms(3)] by (auto simp: line_c_str_def takeWhile_eq_all_conv)
  then have l: "parse_request_line (line_c_str lr) new_request = (True, with_line m t new_request)"
    using assms(3) by (simp add: parse_request_line_text head_ok_def)
  obtain s2 where s2: "read_headers s1 [] = (True, map decoded hs, s2)" "unread s2 = r" "same_end s1 s2"
    using read_headers_loop_fields[OF _ s1(3), of 0 "line_reader 2048" "[]"] assms(3) s1(4)
    by (auto simp: read_headers_def same_end_def head_ok_def)
  have "\<not> REQUEST_URI_MAX_LENGTH < length t" using assms(3) by (simp add: head_ok_def target_ok_def)
  then have "process_request lib srv p cc w s = handle_head lib srv p cc w ((with_line m t new_request)\<lparr>rq_headers := map decoded hs\<rparr>) s2"
    using s1(1) l s2(1) by (simp add: process_request_def with_line_def)
  with s2 s1(4) that show ?thesis by (simp add: same_end_def)
qed

subsection \<open>The content\<close>

text \<open>The values of a field, as C strings.\<close>

definition header_values :: "headers \<Rightarrow> string \<Rightarrow> string list" where
  "header_values hs key = map (\<lambda>(n, v). takeWhile (\<lambda>c. c \<noteq> CHR 0x00) v) (filter (\<lambda>(n, v). case_equal n key) hs)"

lemma header_values_append: "header_values (hs @ hs') key = header_values hs key @ header_values hs' key"
  by (simp add: header_values_def)

lemma header_values_has: "header_values hs key = [] \<longleftrightarrow> \<not> headers_has hs key"
  by (auto simp: header_values_def headers_has_def list_ex_iff filter_empty_conv)

lemma get_header_value_none:
  "iteration ord \<Longrightarrow> header_values hs key = [] \<Longrightarrow> get_header_value ord hs key d = d"
  using equal_range_none[of ord hs key] by (simp add: header_values_has get_header_value_def)

lemma get_header_value_in:
  assumes "iteration ord" "header_values hs key \<noteq> []"
  shows "get_header_value ord hs key d \<in> set (header_values hs key)"
proof -
  have "equal_range ord hs key \<noteq> []" using assms equal_range_none[of ord hs key] by (simp add: header_values_has)
  then obtain v vs where v: "equal_range ord hs key = v # vs" by (cases "equal_range ord hs key") auto
  then have "v \<in> set (equal_range (\<lambda>x. x) hs key)"
    using equal_range_mset[OF assms(1), of hs key] by (metis list.set_intros(1) mset_eq_setD)
  then have "takeWhile (\<lambda>c. c \<noteq> CHR 0x00) v \<in> set (header_values hs key)"
    by (force simp: equal_range_def header_values_def)
  with v show ?thesis by (simp add: get_header_value_def)
qed

text \<open>A request whose content is framed by its length, or that has none; its headers are decoded.\<close>

definition framed :: "string \<Rightarrow> headers \<Rightarrow> string \<Rightarrow> bool" where
  "framed m hs body \<longleftrightarrow>
     map snd (filter (\<lambda>(n, v). case_equal n ''Content-Length'') hs) = [string_of_nat (length body)] \<or>
     m \<in> {''GET'', ''HEAD'', ''DELETE''} \<and> header_values hs ''Content-Length'' = [] \<and> body = []"

definition request_ok :: "http_lib \<Rightarrow> string \<Rightarrow> headers \<Rightarrow> string \<Rightarrow> bool" where
  "request_ok lib m hs body \<longleftrightarrow> framed m hs body \<and> length body < 2 ^ 63 \<and>
     m \<in> {''GET'', ''HEAD'', ''POST'', ''PUT'', ''DELETE''} \<and>
     (\<forall>key \<in> {''Range'', ''Expect'', ''Transfer-Encoding'', ''Content-Encoding''}. header_values hs key = []) \<and>
     (\<forall>v \<in> set (header_values hs ''Accept''). parse_accept_header (h_stod lib) v) \<and>
     (\<forall>v \<in> set (header_values hs ''Content-Type''). \<not> prefix ''multipart/form-data'' v \<and>
        \<not> prefix ''application/x-www-form-urlencoded'' v)"

lemma content_length_value:
  assumes "iteration ord" "framed m hs body" "length body < 2 ^ 63"
  shows "headers_has hs ''Content-Length'' \<Longrightarrow>
      get_header_value_u64 ord hs ''Content-Length'' d = (length body, False)"
    "\<not> headers_has hs ''Content-Length'' \<Longrightarrow> m \<in> {''GET'', ''HEAD'', ''DELETE''} \<and> body = []"
proof -
  let ?f = "filter (\<lambda>(n, v). case_equal n ''Content-Length'') hs"
  show "m \<in> {''GET'', ''HEAD'', ''DELETE''} \<and> body = []" if "\<not> headers_has hs ''Content-Length''"
    using assms(2) that by (auto simp: framed_def headers_has_def list_ex_iff dest: sym[of "map snd _"])
  assume "headers_has hs ''Content-Length''"
  then have "map snd ?f = [string_of_nat (length body)]"
    using assms(2) header_values_has by (auto simp: framed_def)
  then obtain n where "?f = [(n, string_of_nat (length body))]" by (cases ?f) auto
  from equal_range_single[OF assms(1) this]
  have "equal_range ord hs ''Content-Length'' = [string_of_nat (length body)]" .
  moreover have "is_numeric (string_of_nat (length body))"
    using string_of_nat_nonempty string_of_nat_digits by (auto simp: is_numeric_def list_all_iff)
  ultimately show "get_header_value_u64 ord hs ''Content-Length'' d = (length body, False)"
    using assms(3) by (simp add: get_header_value_u64_def digits_val_string_of_nat)
qed

lemma not_encoded:
  assumes "iteration (h_ord lib)" "request_ok lib m hs body"
  shows "\<not> is_chunked_transfer_encoding (h_ord lib) hs" "\<not> encoding_unsupported (h_ord lib) hs"
    "\<not> prefix ''multipart/form-data'' (get_header_value (h_ord lib) hs ''Content-Type'' [])"
    "\<not> prefix ''application/x-www-form-urlencoded'' (get_header_value (h_ord lib) hs ''Content-Type'' [])"
proof -
  have "get_header_value (h_ord lib) hs ''Transfer-Encoding'' [] = []"
    "get_header_value (h_ord lib) hs ''Content-Encoding'' [] = []"
    using assms by (simp_all add: get_header_value_none request_ok_def)
  then show "\<not> is_chunked_transfer_encoding (h_ord lib) hs" "\<not> encoding_unsupported (h_ord lib) hs"
    by (simp_all add: is_chunked_transfer_encoding_def case_equal_def encoding_unsupported_def Let_def)
  show "\<not> prefix ''multipart/form-data'' (get_header_value (h_ord lib) hs ''Content-Type'' [])"
    "\<not> prefix ''application/x-www-form-urlencoded'' (get_header_value (h_ord lib) hs ''Content-Type'' [])"
    using assms(2) get_header_value_none[OF assms(1), of hs "''Content-Type''"]
      get_header_value_in[OF assms(1), of hs "''Content-Type''"]
    by (cases "header_values hs ''Content-Type'' = []"; auto simp: request_ok_def)+
qed

text \<open>The content that is read is the bytes the length declares.\<close>

lemma read_content_sized:
  assumes "\<not> encoding_unsupported ord hs" "\<not> is_chunked_transfer_encoding ord hs" "headers_has hs ''Content-Length''"
    "get_header_value_u64 ord hs ''Content-Length'' (2 ^ 64 - 1) = (length body, False)" "length body \<le> most"
    "stream_ok s" "unread s = body @ r"
  obtains s' where "read_content append_receiver ord hs most [] s = (None, body, [], s')" "unread s' = r" "same_end s s'"
proof (cases "body = []")
  case True
  then show ?thesis using that[of s] assms by (simp add: read_content_def same_end_def)
next
  case False
  obtain ds s' where ds: "concat ds = body" "unread s' = r" "same_end s s'"
    "feed append_receiver ds [] = (True, body) \<Longrightarrow> content_loop append_receiver (length body) 0 [] s = (True, body, s')"
    using assms(7) by (auto intro: content_loop_feeds[OF assms(6), of 0 "length body" append_receiver] simp: same_end_def)
  then have "content_loop append_receiver (length body) 0 [] s = (True, body, s')" by (simp add: feed_append)
  then show ?thesis
    using that[of s'] ds(2,3) assms False by (simp add: read_content_def read_content_with_length_def)
qed

lemma read_content_framed:
  assumes "iteration (h_ord lib)" "request_ok lib m hs body" "headers_has hs ''Content-Length''"
    "stream_ok s" "unread s = body @ r"
  obtains s' where "read_content append_receiver (h_ord lib) hs PAYLOAD_MAX_LENGTH [] s = (None, body, [], s')" "unread s' = r" "same_end s s'"
proof -
  have len: "get_header_value_u64 (h_ord lib) hs ''Content-Length'' (2 ^ 64 - 1) = (length body, False)"
    by (rule content_length_value(1)[OF assms(1) _ _ assms(3), of m]) (use assms(2) in \<open>simp_all add: request_ok_def\<close>)
  have "length body \<le> PAYLOAD_MAX_LENGTH" using assms(2) by (simp add: request_ok_def PAYLOAD_MAX_LENGTH_def)
  with not_encoded(2,1)[OF assms(1,2)] assms(3-5) len that show ?thesis by (auto elim: read_content_sized)
qed

definition method_handlers :: "'w http_server \<Rightarrow> string \<Rightarrow> 'w handlers" where
  "method_handlers srv m =
     (if m = ''GET'' \<or> m = ''HEAD'' then get_handlers srv
      else if m = ''POST'' then post_handlers srv
      else if m = ''PUT'' then put_handlers srv
      else delete_handlers srv)"

text \<open>The routing reads the content into the request and gives it to the handlers of the method.\<close>

lemma routing_framed:
  assumes "iteration (h_ord lib)" "request_ok lib (rq_method req) (rq_headers req) body" "rq_body req = []"
    "stream_ok s" "unread s = body @ r"
  obtains s' where "routing lib srv w req res s =
      (dispatch_request lib w (req\<lparr>rq_body := body\<rparr>) res (method_handlers srv (rq_method req)), s')"
    "unread s' = r" "same_end s s'"
proof -
  let ?hs = "rq_headers req"
  note enc = not_encoded[OF assms(1,2)]
  have m: "rq_method req \<in> {''GET'', ''HEAD'', ''POST'', ''PUT'', ''DELETE''}"
    using assms(2) by (simp add: request_ok_def)
  note len = content_length_value[OF assms(1), of "rq_method req" ?hs body]
  have fr: "framed (rq_method req) ?hs body" "length body < 2 ^ 63" using assms(2) by (simp_all add: request_ok_def)
  obtain s' where s': "(if expect_content lib req then server_read_content lib req res s else (True, req, res, s)) =
      (True, req\<lparr>rq_body := body\<rparr>, res, s')" "unread s' = r" "same_end s s'"
  proof (cases "headers_has ?hs ''Content-Length''")
    case True
    obtain s' where c: "read_content append_receiver (h_ord lib) ?hs PAYLOAD_MAX_LENGTH [] s = (None, body, [], s')" "unread s' = r" "same_end s s'"
      by (rule read_content_framed[OF assms(1,2) True assms(4,5)])
    have "server_read_content lib req res s = (True, req\<lparr>rq_body := body\<rparr>, res, s')"
      using c(1) enc True assms(3)
      by (simp add: server_read_content_def read_content_core_def is_multipart_form_data_def has_header_def)
    moreover have "expect_content lib req \<or> body = []"
      using len(1)[OF fr True] True by (auto simp: expect_content_def has_header_def)
    moreover have "req\<lparr>rq_body := []\<rparr> = req" using assms(3) by simp
    ultimately show ?thesis
      using that[of s'] that[of s] c assms(4,5) by (cases "expect_content lib req") (auto simp: same_end_def)
  next
    case False
    from len(2)[OF fr False] have b: "rq_method req \<in> {''GET'', ''HEAD'', ''DELETE''}" "body = []" by auto
    have "server_read_content lib req res s = (True, req, res, s)" if "rq_method req = ''DELETE''"
      using that False enc
      by (simp add: server_read_content_def read_content_core_def is_multipart_form_data_def has_header_def)
    moreover have "\<not> expect_content lib req" if "rq_method req \<noteq> ''DELETE''"
      using that b(1) False enc(1) by (auto simp: expect_content_def has_header_def)
    moreover have "req\<lparr>rq_body := []\<rparr> = req" using assms(3) by simp
    ultimately show ?thesis
      using that[of s] b assms(4,5) by (cases "rq_method req = ''DELETE''") (auto simp: same_end_def)
  qed
  show ?thesis
    by (rule that[OF _ s'(2,3)]) (use m s'(1) in \<open>auto simp: routing_def method_handlers_def\<close>)
qed

end
