(* ===== verification/HttpParser.thy ===== *)
theory HttpParser
  imports CppString
begin

text \<open>
  The load balancer's hand-written HTTP/1.1 parser, HttpParser.h and HttpHelper.cpp.
  \<open>size_t\<close> arithmetic is on \<open>nat\<close>. In the response parser the sum with a length taken from the
  input is reduced modulo \<open>2 ^ 64\<close>, because \<open>std::stoul\<close> can return any 64-bit value; in the
  request parser the length is a non-negative \<open>long long\<close> and the sum cannot reach \<open>2 ^ 64\<close>
  (\<open>request_total_no_wrap\<close>). The lemmas describe what a complete parse returns, show that a
  result other than INCOMPLETE does not change when more bytes arrive, and connect the parser
  with the text of a request.
\<close>

subsection \<open>Data\<close>

datatype HttpParseStatus = COMPLETE | INCOMPLETE | ERROR

record HttpRequest =
  req_method :: string
  req_path :: string
  req_version :: string
  req_headers :: "string \<rightharpoonup> string"
  req_body :: string
  rawRequest :: string

record HttpParseResult =
  parse_status :: HttpParseStatus
  request :: HttpRequest
  parse_error :: string
  consumed :: nat

record HttpResponse =
  resp_version :: string
  statusCode :: int
  statusText :: string
  resp_headers :: "string \<rightharpoonup> string"
  resp_body :: string
  rawResponse :: string

record HttpResponseParseResult =
  rparse_status :: HttpParseStatus
  response :: HttpResponse
  rparse_error :: string
  rconsumed :: nat

definition empty_request :: HttpRequest where
  "empty_request = \<lparr>req_method = [], req_path = [], req_version = [], req_headers = Map.empty,
                    req_body = [], rawRequest = []\<rparr>"

definition empty_response :: HttpResponse where
  "empty_response = \<lparr>resp_version = [], statusCode = 0, statusText = [], resp_headers = Map.empty,
                     resp_body = [], rawResponse = []\<rparr>"

abbreviation cr :: char where "cr \<equiv> CHR 0x0D"
abbreviation lf :: char where "lf \<equiv> CHR 0x0A"
abbreviation CRLF :: string where "CRLF \<equiv> [cr, lf]"

text \<open>The key a request is routed by, \<open>HttpRequest::getKey\<close>.\<close>

definition getKey :: "HttpRequest \<Rightarrow> string" where
  "getKey r =
     (if req_path r = ''/kvstore/create'' \<and> req_body r \<noteq> []
      then (case str_find '' '' (req_body r) of
              Some spacePos \<Rightarrow> substr (req_body r) 0 spacePos
            | None \<Rightarrow> req_body r)
      else (case find_last_of (CHR ''/'') (req_path r) of
              Some lastSlash \<Rightarrow>
                if lastSlash + 1 < length (req_path r) then drop (lastSlash + 1) (req_path r) else req_path r
            | None \<Rightarrow> req_path r))"

subsection \<open>Requests\<close>

definition is_blank :: "char \<Rightarrow> bool" where
  "is_blank c \<longleftrightarrow> c = CHR '' '' \<or> c = CHR 0x09"

definition getContentLength :: "string \<Rightarrow> int" where
  "getContentLength headers =
     (case (case str_find ''Content-Length:'' headers of
              Some idx \<Rightarrow> Some idx
            | None \<Rightarrow> str_find ''content-length:'' headers) of
        None \<Rightarrow> 0
      | Some idx \<Rightarrow>
          (case from_chars_ll (dropWhile is_blank (drop (idx + 15) headers)) of
             Some n \<Rightarrow> n
           | None \<Rightarrow> 0))"

definition makeComplete :: "HttpRequest \<Rightarrow> nat \<Rightarrow> HttpParseResult" where
  "makeComplete r n = \<lparr>parse_status = COMPLETE, request = r, parse_error = [], consumed = n\<rparr>"

definition makeIncomplete :: HttpParseResult where
  "makeIncomplete = \<lparr>parse_status = INCOMPLETE, request = empty_request, parse_error = [], consumed = 0\<rparr>"

definition makeError :: "string \<Rightarrow> HttpParseResult" where
  "makeError e = \<lparr>parse_status = ERROR, request = empty_request, parse_error = e, consumed = 0\<rparr>"

definition parseHTTPRequest :: "string \<Rightarrow> HttpParseResult" where
  "parseHTTPRequest buffer =
     (case str_find (CRLF @ CRLF) buffer of
        None \<Rightarrow> makeIncomplete
      | Some headerEnd \<Rightarrow>
          (let headerLength = headerEnd + 4;
               headerSection = substr buffer 0 headerEnd
           in (case str_find CRLF headerSection of
                 None \<Rightarrow> makeError ''Malformed HTTP Request Line''
               | Some lineEnd \<Rightarrow>
                   (let requestLine = substr headerSection 0 lineEnd;
                        space1 = str_find '' '' requestLine;
                        space2 = str_find_from '' '' requestLine
                                   (case space1 of None \<Rightarrow> 0 | Some s \<Rightarrow> s + 1)
                    in (case (space1, space2) of
                          (Some s1, Some s2) \<Rightarrow>
                            (let expected = getContentLength headerSection
                             in if expected < 0 then makeError ''Invalid Content-Length header''
                                else
                                  (let total = headerLength + nat expected
                                   in if length buffer < total then makeIncomplete
                                      else makeComplete
                                        \<lparr>req_method = substr requestLine 0 s1,
                                         req_path = substr requestLine (s1 + 1) (s2 - s1 - 1),
                                         req_version = drop (s2 + 1) requestLine,
                                         req_headers = Map.empty,
                                         req_body = substr buffer headerLength (nat expected),
                                         rawRequest = substr buffer 0 total\<rparr> total))
                        | _ \<Rightarrow> makeError ''Invalid request lineStructure'')))))"

subsection \<open>Responses\<close>

text \<open>The status line: \<open>>> version >> statusCode\<close>, then the rest of the line without one leading
  space.\<close>

definition strip_cr :: "string \<Rightarrow> string" where
  "strip_cr line = (if line \<noteq> [] \<and> last line = cr then butlast line else line)"

definition parse_status_line :: "string \<Rightarrow> HttpResponse \<Rightarrow> HttpResponse" where
  "parse_status_line line r =
     (let (v, rest) = stream_word line;
          (code, rest', failed) = (if v = [] then (0, [], True) else stream_int rest);
          txt = (if failed then [] else (case getline lf rest' of None \<Rightarrow> [] | Some (l, _) \<Rightarrow> l))
      in r\<lparr>resp_version := v, statusCode := code,
           statusText := (if txt \<noteq> [] \<and> hd txt = CHR '' '' then tl txt else txt)\<rparr>)"

text \<open>The header loop; its state is the content length, whether one was found, and the map.\<close>

fun parse_header_lines ::
  "string list \<Rightarrow> nat \<Rightarrow> bool \<Rightarrow> (string \<rightharpoonup> string) \<Rightarrow> nat \<times> bool \<times> (string \<rightharpoonup> string)" where
  "parse_header_lines [] contentLength found hs = (contentLength, found, hs)"
| "parse_header_lines (l # ls) contentLength found hs =
     (let line = strip_cr l
      in if line = [] then (contentLength, found, hs)
         else (case str_find '':'' line of
                 None \<Rightarrow> parse_header_lines ls contentLength found hs
               | Some colonPos \<Rightarrow>
                   (let headerName = substr line 0 colonPos;
                        headerValue = dropWhile is_blank (drop (colonPos + 1) line);
                        (contentLength', found') =
                          (if map to_lower headerName = ''content-length''
                           then (case stoul headerValue of Inr n \<Rightarrow> (n, True) | Inl _ \<Rightarrow> (0, found))
                           else (contentLength, found))
                    in parse_header_lines ls contentLength' found' (hs(headerName \<mapsto> headerValue)))))"

definition parseHTTPResponse :: "string \<Rightarrow> HttpResponseParseResult" where
  "parseHTTPResponse buffer =
     (let result = \<lparr>rparse_status = INCOMPLETE, response = empty_response, rparse_error = [], rconsumed = 0\<rparr>
      in (case str_find (CRLF @ CRLF) buffer of
            None \<Rightarrow> result
          | Some headerEnd \<Rightarrow>
              (let headerPart = substr buffer 0 headerEnd;
                   (resp1, stream) =
                     (case getline lf headerPart of
                        None \<Rightarrow> (empty_response, [])
                      | Some (line, rest) \<Rightarrow> (parse_status_line (strip_cr line) empty_response, rest));
                   (contentLength0, contentLengthFound, hs) =
                     parse_header_lines (lines stream) 0 False Map.empty;
                   resp2 = resp1\<lparr>resp_headers := hs\<rparr>;
                   contentLength = (if contentLengthFound then contentLength0
                                    else length buffer - (headerEnd + 4));
                   total = (headerEnd + 4 + contentLength) mod 2 ^ 64
               in if length buffer < total then result\<lparr>response := resp2\<rparr>
                  else \<lparr>rparse_status = COMPLETE,
                        response = resp2\<lparr>resp_body := substr buffer (headerEnd + 4) contentLength,
                                         rawResponse := substr buffer 0 total\<rparr>,
                        rparse_error = [], rconsumed = total\<rparr>)))"

subsection \<open>The request parser as a parser of the head\<close>

text \<open>What the header section alone determines: method, path, version and content length.\<close>

definition parse_head :: "string \<Rightarrow> string + (string \<times> string \<times> string \<times> nat)" where
  "parse_head h =
     (case str_find CRLF h of
        None \<Rightarrow> Inl ''Malformed HTTP Request Line''
      | Some lineEnd \<Rightarrow>
          (let l = take lineEnd h
           in (case str_find '' '' l of
                 None \<Rightarrow> Inl ''Invalid request lineStructure''
               | Some s1 \<Rightarrow>
                   (case str_find_from '' '' l (s1 + 1) of
                      None \<Rightarrow> Inl ''Invalid request lineStructure''
                    | Some s2 \<Rightarrow>
                        if getContentLength h < 0 then Inl ''Invalid Content-Length header''
                        else Inr (take s1 l, take (s2 - s1 - 1) (drop (s1 + 1) l), drop (s2 + 1) l,
                                  nat (getContentLength h))))))"

lemma parse_by_head:
  "parseHTTPRequest buffer =
     (case str_find (CRLF @ CRLF) buffer of
        None \<Rightarrow> makeIncomplete
      | Some he \<Rightarrow>
          (case parse_head (take he buffer) of
             Inl e \<Rightarrow> makeError e
           | Inr (m, p, v, n) \<Rightarrow>
               if length buffer < he + 4 + n then makeIncomplete
               else makeComplete \<lparr>req_method = m, req_path = p, req_version = v, req_headers = Map.empty,
                      req_body = take n (drop (he + 4) buffer), rawRequest = take (he + 4 + n) buffer\<rparr> (he + 4 + n)))"
  by (simp add: parseHTTPRequest_def parse_head_def Let_def substr_def split: option.split)

lemma parse_fields [simp]:
  "parse_status (makeComplete r n) = COMPLETE" "parse_status makeIncomplete = INCOMPLETE"
  "parse_status (makeError e) = ERROR" "consumed (makeComplete r n) = n" "request (makeComplete r n) = r"
  "parse_error (makeError e) = e"
  by (simp_all add: makeComplete_def makeIncomplete_def makeError_def)

lemma parse_cases:
  obtains (incomplete) "parseHTTPRequest buffer = makeIncomplete"
  | (error) he e where "str_find (CRLF @ CRLF) buffer = Some he" "parse_head (take he buffer) = Inl e"
      "parseHTTPRequest buffer = makeError e"
  | (complete) he m p v n where "str_find (CRLF @ CRLF) buffer = Some he"
      "parse_head (take he buffer) = Inr (m, p, v, n)" "he + 4 + n \<le> length buffer"
      "parseHTTPRequest buffer = makeComplete \<lparr>req_method = m, req_path = p, req_version = v,
         req_headers = Map.empty, req_body = take n (drop (he + 4) buffer),
         rawRequest = take (he + 4 + n) buffer\<rparr> (he + 4 + n)"
proof -
  consider "str_find (CRLF @ CRLF) buffer = None"
    | he e where "str_find (CRLF @ CRLF) buffer = Some he" "parse_head (take he buffer) = Inl e"
    | he m p v n where "str_find (CRLF @ CRLF) buffer = Some he" "parse_head (take he buffer) = Inr (m, p, v, n)"
        "length buffer < he + 4 + n"
    | he m p v n where "str_find (CRLF @ CRLF) buffer = Some he" "parse_head (take he buffer) = Inr (m, p, v, n)"
        "he + 4 + n \<le> length buffer"
    by (metis linorder_not_less old.prod.exhaust option.exhaust sum.exhaust)
  then show ?thesis
  proof cases
    case 1
    then show ?thesis by (intro that(1)) (simp add: parse_by_head)
  next
    case 2
    then show ?thesis by (intro that(2)) (simp_all add: parse_by_head)
  next
    case 3
    then show ?thesis by (intro that(1)) (simp add: parse_by_head)
  next
    case 4
    then show ?thesis by (intro that(3)) (simp_all add: parse_by_head)
  qed
qed

lemma parse_append:
  assumes "parse_status (parseHTTPRequest buffer) \<noteq> INCOMPLETE"
  shows "parseHTTPRequest (buffer @ rest) = parseHTTPRequest buffer"
proof (cases buffer rule: parse_cases)
  case incomplete
  with assms show ?thesis by simp
next
  case (error he e)
  from error(1) have "str_find (CRLF @ CRLF) (buffer @ rest) = Some he" by (rule str_find_append)
  moreover have "he \<le> length buffer" using str_find_bound[OF error(1)] by simp
  ultimately show ?thesis using error by (simp add: parse_by_head[of "buffer @ rest"])
next
  case (complete he m p v n)
  from complete(1) have "str_find (CRLF @ CRLF) (buffer @ rest) = Some he" by (rule str_find_append)
  with complete show ?thesis by (simp add: parse_by_head[of "buffer @ rest"])
qed

lemma parse_complete_bounds:
  assumes "parse_status (parseHTTPRequest buffer) = COMPLETE"
  shows "4 \<le> consumed (parseHTTPRequest buffer)" "consumed (parseHTTPRequest buffer) \<le> length buffer"
    "rawRequest (request (parseHTTPRequest buffer)) = take (consumed (parseHTTPRequest buffer)) buffer"
    "suffix (req_body (request (parseHTTPRequest buffer))) (rawRequest (request (parseHTTPRequest buffer)))"
proof -
  have "4 \<le> consumed (parseHTTPRequest buffer) \<and> consumed (parseHTTPRequest buffer) \<le> length buffer \<and>
    rawRequest (request (parseHTTPRequest buffer)) = take (consumed (parseHTTPRequest buffer)) buffer \<and>
    suffix (req_body (request (parseHTTPRequest buffer))) (rawRequest (request (parseHTTPRequest buffer)))"
  proof (cases buffer rule: parse_cases)
    case (complete he m p v n)
    then show ?thesis by (simp add: take_add suffixI)
  qed (use assms in simp_all)
  then show "4 \<le> consumed (parseHTTPRequest buffer)" "consumed (parseHTTPRequest buffer) \<le> length buffer"
    "rawRequest (request (parseHTTPRequest buffer)) = take (consumed (parseHTTPRequest buffer)) buffer"
    "suffix (req_body (request (parseHTTPRequest buffer))) (rawRequest (request (parseHTTPRequest buffer)))"
    by blast+
qed

lemma from_chars_bound: "from_chars_ll s = Some v \<Longrightarrow> - (2 ^ 63) \<le> v \<and> v < 2 ^ 63"
  by (auto simp: from_chars_ll_def Let_def split: if_splits prod.splits)

lemma getContentLength_bound: "getContentLength h < 2 ^ 63"
  using from_chars_bound by (auto simp: getContentLength_def split: option.splits)

text \<open>The sum of the request parser stays below \<open>2 ^ 64\<close> for every buffer a \<open>std::string\<close> can hold.\<close>

lemma request_total_no_wrap:
  assumes "length buffer < 2 ^ 63" "str_find (CRLF @ CRLF) buffer = Some he"
  shows "he + 4 + nat (getContentLength (take he buffer)) < 2 ^ 64"
  using assms str_find_bound[OF assms(2)] getContentLength_bound[of "take he buffer"] by simp

subsection \<open>Separators\<close>

text \<open>A pattern cannot be found across a separator it does not contain.\<close>

lemma prefix_sep: "c \<notin> set w \<Longrightarrow> prefix w (a @ c # b) \<longleftrightarrow> prefix w a"
  by (auto simp: prefix_append) (metis append_Nil2 list.set_intros(1) prefix_Cons UnCI set_append)

lemma str_find_sep:
  assumes "c \<notin> set w" "w \<noteq> []"
  shows "str_find w (a @ c # b) =
    (case str_find w a of Some i \<Rightarrow> Some i | None \<Rightarrow> map_option (\<lambda>i. length a + 1 + i) (str_find w b))"
proof (induction a)
  case Nil
  have "\<not> prefix w (c # b)" using assms by (cases w) auto
  with assms(2) show ?case by (cases "str_find w b") simp_all
next
  case (Cons x a)
  then show ?case
    using prefix_sep[OF assms(1), of "x # a" b]
    by (cases "str_find w b") (auto split: option.splits)
qed

text \<open>The value that follows a header name, as \<open>getContentLength\<close> reads it.\<close>

definition number_after :: "string \<Rightarrow> string \<Rightarrow> int option option" where
  "number_after w h = map_option (\<lambda>i. from_chars_ll (dropWhile is_blank (drop (i + length w) h))) (str_find w h)"

lemma getContentLength_number:
  "getContentLength h =
     (case (case number_after ''Content-Length:'' h of Some r \<Rightarrow> Some r | None \<Rightarrow> number_after ''content-length:'' h) of
        Some (Some n) \<Rightarrow> n | _ \<Rightarrow> 0)"
  by (simp add: getContentLength_def number_after_def numeral_eq_Suc split: option.splits)

lemma takeWhile_sep: "\<not> P c \<Longrightarrow> takeWhile P (s @ c # t) = takeWhile P s"
  by (induction s) auto

lemma from_chars_sep:
  assumes "\<not> is_digit c" "c \<noteq> CHR ''-''"
  shows "from_chars_ll (s @ c # t) = from_chars_ll s"
  using assms by (cases s) (simp_all add: from_chars_ll_def takeWhile_sep)

lemma number_after_sep:
  assumes "c \<notin> set w" "w \<noteq> []" "\<not> is_digit c" "c \<noteq> CHR ''-''" "\<not> is_blank c"
  shows "number_after w (a @ c # b) =
    (case number_after w a of Some r \<Rightarrow> Some r | None \<Rightarrow> number_after w b)"
proof -
  have "from_chars_ll (dropWhile is_blank (s @ c # t)) = from_chars_ll (dropWhile is_blank s)" for s t
  proof (cases "\<forall>x \<in> set s. is_blank x")
    case True
    then have "dropWhile is_blank s = []" by simp
    with True assms(3-5) show ?thesis
      using from_chars_sep[of c "[]" t] by (simp add: dropWhile_append del: dropWhile_eq_Nil_conv)
  next
    case False
    with assms(3-5) show ?thesis by (auto simp: dropWhile_append from_chars_sep)
  qed
  then show ?thesis
    using str_find_bound[of w a]
    by (cases "str_find w b") (auto simp: number_after_def str_find_sep[OF assms(1,2)] split: option.splits)
qed

lemma number_after_crlf:
  assumes "cr \<notin> set w" "lf \<notin> set w" "w \<noteq> []"
  shows "number_after w (a @ cr # lf # b) =
    (case number_after w a of Some r \<Rightarrow> Some r | None \<Rightarrow> number_after w b)"
proof -
  have "number_after w (lf # b) = number_after w b"
    using number_after_sep[of lf w "[]" b] assms by (simp add: number_after_def is_blank_def)
  with number_after_sep[of cr w a "lf # b"] assms show ?thesis
    by (simp add: is_blank_def split: option.splits)
qed

text \<open>The content length of a head does not depend on a line that has no such header.\<close>

lemma getContentLength_insert:
  assumes "number_after ''Content-Length:'' x = None" "number_after ''content-length:'' x = None"
  shows "getContentLength (a @ cr # lf # x @ cr # lf # b) = getContentLength (a @ cr # lf # b)"
  using assms by (simp add: getContentLength_number number_after_crlf split: option.splits)

text \<open>An occurrence of a pattern after a part in which none starts.\<close>

definition starts_in :: "'a list \<Rightarrow> 'a list \<Rightarrow> 'a list \<Rightarrow> bool" where
  "starts_in pat u v \<longleftrightarrow> (\<exists>j < length u. prefix pat (drop j u @ v))"

lemma str_find_skip:
  assumes "\<not> starts_in pat u v"
  shows "str_find pat (u @ v) = map_option (\<lambda>i. length u + i) (str_find pat v)"
  using assms
proof (induction u)
  case (Cons x u)
  have "\<not> prefix pat (x # u @ v)" using Cons.prems by (force simp: starts_in_def)
  moreover have "\<not> starts_in pat u v" using Cons.prems by (force simp: starts_in_def)
  ultimately show ?case using Cons.IH by (simp add: option.map_comp o_def)
next
  case Nil
  then show ?case by (cases "str_find pat v") simp_all
qed

lemma not_starts_before:
  assumes "str_find pat (u @ v) = Some i" "length u \<le> i"
  shows "\<not> starts_in pat u v"
proof
  assume "starts_in pat u v"
  then obtain j where j: "j < length u" "prefix pat (drop j u @ v)" by (auto simp: starts_in_def)
  then have "prefix pat (drop j (u @ v))" by simp
  with str_find_least[OF assms(1), of j] j(1) assms(2) show False by simp
qed

lemma starts_in_append:
  "starts_in pat (u @ v) w \<longleftrightarrow> starts_in pat u (v @ w) \<or> starts_in pat v w"
proof
  assume "starts_in pat (u @ v) w"
  then obtain j where j: "j < length u + length v" "prefix pat (drop j (u @ v) @ w)"
    by (auto simp: starts_in_def)
  then show "starts_in pat u (v @ w) \<or> starts_in pat v w"
    by (cases "j < length u") (force simp: starts_in_def)+
next
  assume "starts_in pat u (v @ w) \<or> starts_in pat v w"
  then show "starts_in pat (u @ v) w"
  proof
    assume "starts_in pat u (v @ w)"
    then obtain j where "j < length u" "prefix pat (drop j u @ v @ w)" by (auto simp: starts_in_def)
    then show ?thesis unfolding starts_in_def by (intro exI[of _ j]) simp
  next
    assume "starts_in pat v w"
    then obtain j where "j < length v" "prefix pat (drop j v @ w)" by (auto simp: starts_in_def)
    then show ?thesis unfolding starts_in_def by (intro exI[of _ "length u + j"]) simp
  qed
qed

lemma starts_in_Nil [simp]: "\<not> starts_in pat [] w"
  by (simp add: starts_in_def)

lemma starts_in_Cons: "starts_in pat (x # u) w \<longleftrightarrow> prefix pat (x # u @ w) \<or> starts_in pat u w"
  using starts_in_append[of pat "[x]" u w] by (simp add: starts_in_def)

lemma starts_in_absent: "c \<notin> set u \<Longrightarrow> \<not> starts_in (c # pat) u w"
  by (induction u) (auto simp: starts_in_Cons)

text \<open>No blank line begins in a line and its end, whatever line follows.\<close>

lemma starts_in_line_end:
  assumes "\<not> starts_in (CRLF @ CRLF) (line @ CRLF) w" "c \<noteq> cr"
  shows "\<not> starts_in (CRLF @ CRLF) (line @ CRLF) (c # z)"
proof
  assume "starts_in (CRLF @ CRLF) (line @ CRLF) (c # z)"
  then obtain j where j: "j < length line + 2" "prefix (CRLF @ CRLF) (drop j (line @ CRLF) @ c # z)"
    by (auto simp: starts_in_def)
  have long: "prefix (CRLF @ CRLF) (d @ w)" if "prefix (CRLF @ CRLF) (d @ c # z)" "4 \<le> length d" for d
    using that by (simp add: prefix_iff_take numeral_eq_Suc)
  show False
  proof (cases "4 \<le> length (drop j (line @ CRLF))")
    case True
    with long[OF j(2)] assms(1) j(1) show False by (auto simp: starts_in_def)
  next
    case False
    then have "length line + 2 - j \<in> {1, 2, 3}" using j(1) by auto
    then consider "j = length line + 1" | "j = length line" | "Suc j = length line" using j(1) by force
    then show False
    proof cases
      case 3
      then obtain l where "drop j line = [l]"
        by (metis One_nat_def Suc_diff_le cancel_comm_monoid_add_class.diff_cancel length_0_conv
            length_Suc_conv length_drop order_refl)
      with j(2) 3 show False by simp
    qed (use j(2) assms(2) in simp_all)
  qed
qed

lemma find_blank_line_insert:
  assumes "str_find (CRLF @ CRLF) (line @ CRLF @ rest) = Some he" "length line + 2 \<le> he"
    and x: "x \<noteq> []" "cr \<notin> set x"
  shows "str_find (CRLF @ CRLF) (line @ CRLF @ x @ CRLF @ rest) = Some (he + length x + 2)"
proof -
  have u: "\<not> starts_in (CRLF @ CRLF) (line @ CRLF) rest"
    by (rule not_starts_before) (use assms(1,2) in simp_all)
  then have rest: "\<not> prefix CRLF rest"
    by (auto simp: starts_in_append starts_in_Cons)
  obtain c z where c: "x = c # z" "c \<noteq> cr" using x by (cases x) auto
  have "\<not> starts_in (CRLF @ CRLF) (line @ CRLF) (x @ CRLF @ rest)"
    using starts_in_line_end[OF u c(2)] c(1) by simp
  moreover have "\<not> starts_in (CRLF @ CRLF) (x @ CRLF) rest"
    using starts_in_absent[OF x(2)] rest by (simp add: starts_in_append starts_in_Cons)
  ultimately have "\<not> starts_in (CRLF @ CRLF) ((line @ CRLF) @ x @ CRLF) rest"
    unfolding starts_in_append[of _ "line @ CRLF"] by simp
  from str_find_skip[OF this] str_find_skip[OF u] assms(1) show ?thesis by auto
qed

lemma str_find_line: "str_find w (a @ w @ b) = Some (length a) \<Longrightarrow> str_find w (a @ w @ c) = Some (length a)"
  using str_find_append_bounded[of w "a @ w" b "length a"] str_find_append[of w "a @ w" "length a" c]
  by simp

lemma parse_head_insert:
  assumes "parse_head (line @ CRLF @ hdr) = r" "str_find CRLF (line @ CRLF @ hdr) = Some (length line)"
    and "number_after ''Content-Length:'' x = None" "number_after ''content-length:'' x = None"
  shows "parse_head (line @ CRLF @ x @ CRLF @ hdr) = r"
proof -
  have len: "getContentLength (line @ CRLF @ x @ CRLF @ hdr) = getContentLength (line @ CRLF @ hdr)"
    using getContentLength_insert[OF assms(3,4)] by simp
  show ?thesis
    unfolding assms(1)[symmetric] parse_head_def assms(2) str_find_line[OF assms(2)] len by simp
qed

text \<open>Inserting a header line after the request line leaves the request what it was.\<close>

lemma parse_insert_line:
  assumes "parseHTTPRequest raw = makeComplete req (length raw)" "str_find CRLF raw = Some le"
    and x: "x \<noteq> []" "cr \<notin> set x" "number_after ''Content-Length:'' x = None" "number_after ''content-length:'' x = None"
  defines "raw' \<equiv> take (le + 2) raw @ x @ CRLF @ drop (le + 2) raw"
  shows "parseHTTPRequest raw' = makeComplete (req\<lparr>rawRequest := raw'\<rparr>) (length raw')"
proof (cases raw rule: parse_cases)
  case (complete he m p v n)
  define line rest where "line = take le raw" and "rest = drop (le + 2) raw"
  have raw: "raw = line @ CRLF @ rest"
    using str_find_split[OF assms(2)] by (simp add: line_def rest_def)
  have le: "length line = le" using str_find_bound[OF assms(2)] by (simp add: line_def)
  have total: "he + 4 + n = length raw"
    and req: "req = \<lparr>req_method = m, req_path = p, req_version = v, req_headers = Map.empty,
      req_body = take n (drop (he + 4) raw), rawRequest = raw\<rparr>"
    using complete(3,4) assms(1) by (auto simp: makeComplete_def)
  obtain le' where le': "str_find CRLF (take he raw) = Some le'"
    using complete(2) by (auto simp: parse_head_def split: option.splits)
  then have "str_find CRLF raw = Some le'" using str_find_append[of CRLF "take he raw" le' "drop he raw"] by simp
  with assms(2) le' have fl: "str_find CRLF (take he raw) = Some le" by simp
  from str_find_bound[OF this] have he: "le + 2 \<le> he" by simp
  have hdr: "take he raw = line @ CRLF @ take (he - (le + 2)) rest"
    using he le unfolding raw by (simp add: take_Cons' numeral_eq_Suc)
  have raw': "raw' = line @ CRLF @ x @ CRLF @ rest"
    using le unfolding raw'_def raw by simp
  have f: "str_find (CRLF @ CRLF) raw' = Some (he + length x + 2)"
    unfolding raw' by (rule find_blank_line_insert) (use complete(1) raw he le x in simp_all)
  have h: "take (he + length x + 2) raw' = line @ CRLF @ x @ CRLF @ take (he - (le + 2)) rest"
    using he le unfolding raw' by (simp add: take_Cons' numeral_eq_Suc)
  have "parse_head (take (he + length x + 2) raw') = Inr (m, p, v, n)"
    unfolding h by (rule parse_head_insert) (use complete(2) fl hdr le x in simp_all)
  moreover have "length raw' = he + length x + 2 + 4 + n"
    using total unfolding raw' raw by simp
  moreover have "drop (he + length x + 2 + 4) raw' = drop (he + 4) raw"
    using he le unfolding raw' raw by (simp add: drop_Cons' numeral_eq_Suc)
  ultimately show ?thesis
    using f by (simp add: parse_by_head[of raw'] req)
qed (use assms(1) in \<open>simp_all add: makeComplete_def makeIncomplete_def makeError_def\<close>)

subsection \<open>The text of a request\<close>

definition request_text :: "string \<Rightarrow> string \<Rightarrow> string \<Rightarrow> string list \<Rightarrow> string \<Rightarrow> string" where
  "request_text m p v hs body =
     concat (map (\<lambda>l. l @ CRLF) ((m @ '' '' @ p @ '' '' @ v) # hs)) @ CRLF @ body"

definition content_length_line :: "string \<Rightarrow> string" where
  "content_length_line body = ''Content-Length: '' @ string_of_nat (length body)"

text \<open>Lines with line ends between them: a header section.\<close>

fun join_lines :: "string list \<Rightarrow> string" where
  "join_lines [] = []"
| "join_lines [l] = l"
| "join_lines (l # ls) = l @ CRLF @ join_lines ls"

lemma concat_lines: "ls \<noteq> [] \<Longrightarrow> concat (map (\<lambda>l. l @ CRLF) ls) = join_lines ls @ CRLF"
  by (induction ls rule: join_lines.induct) simp_all

lemma find_blank_line:
  assumes "ls \<noteq> []" "\<forall>l \<in> set ls. l \<noteq> [] \<and> cr \<notin> set l"
  shows "str_find (CRLF @ CRLF) (join_lines ls @ CRLF @ CRLF @ body) = Some (length (join_lines ls))"
  using assms
proof (induction ls rule: join_lines.induct)
  case (2 l)
  then have "\<not> starts_in (CRLF @ CRLF) l (CRLF @ CRLF @ body)" by (simp add: starts_in_absent)
  from str_find_skip[OF this] show ?case by simp
next
  case (3 l l' ls)
  let ?rest = "join_lines (l' # ls) @ CRLF @ CRLF @ body"
  obtain c z where "?rest = c # z" "c \<noteq> cr"
    using 3(3) by (cases l'; cases ls) auto
  then have "\<not> starts_in (CRLF @ CRLF) (l @ CRLF) ?rest"
    using starts_in_absent[of cr l] 3(3) by (simp add: starts_in_append starts_in_Cons)
  from str_find_skip[OF this] 3 show ?case by simp
qed simp

lemma number_after_None: "number_after w h = None \<longleftrightarrow> str_find w h = None"
  by (simp add: number_after_def)

lemma number_after_join:
  assumes "cr \<notin> set w" "lf \<notin> set w" "w \<noteq> []"
  shows "number_after w (join_lines (l # ls)) =
    (case number_after w l of Some r \<Rightarrow> Some r | None \<Rightarrow> number_after w (join_lines ls))"
proof (cases ls)
  case Nil
  then show ?thesis using assms by (simp add: number_after_def split: option.splits)
next
  case (Cons l' ls')
  then show ?thesis using number_after_crlf[OF assms] by (simp split: option.split)
qed

lemma number_after_found:
  assumes "cr \<notin> set w" "lf \<notin> set w" "w \<noteq> []"
    and "\<forall>l \<in> set ls1. str_find w l = None" "number_after w l = Some r"
  shows "number_after w (join_lines (ls1 @ l # ls2)) = Some r"
  using assms(4,5) by (induction ls1) (simp_all add: number_after_join[OF assms(1-3)] number_after_None[THEN iffD2])

lemma takeWhile_string_of_nat: "takeWhile is_digit (string_of_nat n) = string_of_nat n"
  by (simp add: takeWhile_eq_all_conv string_of_nat_digits)

lemma from_chars_string_of_nat: "n < 2 ^ 63 \<Longrightarrow> from_chars_ll (string_of_nat n) = Some (int n)"
proof -
  assume n: "n < 2 ^ 63"
  obtain c z where c: "string_of_nat n = c # z" using string_of_nat_nonempty by (meson neq_Nil_conv)
  then have "c \<noteq> CHR ''-''" using string_of_nat_digits[of c n] by auto
  with n c takeWhile_string_of_nat[of n] digits_val_string_of_nat[of n] show ?thesis
    by (simp add: from_chars_ll_def)
qed

lemma dropWhile_blank_string_of_nat: "dropWhile is_blank (CHR '' '' # string_of_nat n) = string_of_nat n"
proof -
  obtain c z where c: "string_of_nat n = c # z" using string_of_nat_nonempty by (meson neq_Nil_conv)
  then have "\<not> is_blank c" using string_of_nat_digits[of c n] by (auto simp: is_blank_def is_digit_def)
  with c show ?thesis by (simp add: is_blank_def)
qed

lemma number_after_content_length:
  "length body < 2 ^ 63 \<Longrightarrow>
   number_after ''Content-Length:'' (content_length_line body) = Some (Some (int (length body)))"
  using dropWhile_blank_string_of_nat[of "length body"]
  by (simp add: number_after_def content_length_line_def from_chars_string_of_nat)

lemma str_find_join: "cr \<notin> set l \<Longrightarrow> ls \<noteq> [] \<Longrightarrow> str_find CRLF (join_lines (l # ls)) = Some (length l)"
  using str_find_skip[of CRLF l "CRLF @ join_lines ls"] starts_in_absent[of cr l] by (cases ls) simp_all

lemma parse_request_sized:
  assumes sp: "CHR '' '' \<notin> set m" "CHR '' '' \<notin> set p"
    and ok: "\<forall>l \<in> set ((m @ '' '' @ p @ '' '' @ v) # hs). l \<noteq> [] \<and> cr \<notin> set l" "hs \<noteq> []"
    and gcl: "getContentLength (join_lines ((m @ '' '' @ p @ '' '' @ v) # hs)) = int (length body)"
  defines "req \<equiv> request_text m p v hs body"
  shows "parseHTTPRequest (req @ rest) =
    makeComplete \<lparr>req_method = m, req_path = p, req_version = v, req_headers = Map.empty,
                  req_body = body, rawRequest = req\<rparr> (length req)"
proof -
  define l where "l = m @ '' '' @ p @ '' '' @ v"
  define h where "h = join_lines (l # hs)"
  have req: "req = h @ CRLF @ CRLF @ body"
    using concat_lines[of "l # hs"] by (simp add: req_def request_text_def h_def l_def)
  have find: "str_find (CRLF @ CRLF) (req @ rest) = Some (length h)"
    using find_blank_line[of "l # hs" "body @ rest"] ok by (simp add: req h_def l_def)
  have lend: "str_find CRLF h = Some (length l)"
    unfolding h_def by (rule str_find_join) (use ok in \<open>simp_all add: l_def\<close>)
  have tl: "take (length l) h = l"
    using ok(2) by (cases hs) (simp_all add: h_def)
  have s1: "str_find '' '' l = Some (length m)"
    unfolding l_def using str_find_single[OF sp(1)] by simp
  have s2: "str_find_from '' '' l (length m + 1) = Some (length m + 1 + length p)"
    using str_find_single[OF sp(2)] by (simp add: str_find_from_def l_def)
  have "parse_head h = Inr (m, p, v, length body)"
    unfolding parse_head_def lend tl s1 s2 gcl[folded l_def h_def] option.case Let_def by (simp add: l_def)
  moreover have "take (length h) (req @ rest) = h" "length req = length h + 4 + length body"
    "drop (length h + 4) (req @ rest) = body @ rest"
    by (simp_all add: req numeral_eq_Suc)
  ultimately show ?thesis
    using find by (simp add: parse_by_head[of "req @ rest"])
qed

lemma parse_request_text:
  assumes sp: "CHR '' '' \<notin> set m" "CHR '' '' \<notin> set p"
    and ok: "\<forall>l \<in> set ((m @ '' '' @ p @ '' '' @ v) # hs1 @ hs2). l \<noteq> [] \<and> cr \<notin> set l"
    and cl: "\<forall>l \<in> set ((m @ '' '' @ p @ '' '' @ v) # hs1). str_find ''Content-Length:'' l = None"
    and n: "length body < 2 ^ 63"
  defines "req \<equiv> request_text m p v (hs1 @ content_length_line body # hs2) body"
  shows "parseHTTPRequest (req @ rest) =
    makeComplete \<lparr>req_method = m, req_path = p, req_version = v, req_headers = Map.empty,
                  req_body = body, rawRequest = req\<rparr> (length req)"
  unfolding req_def
proof (rule parse_request_sized[OF sp])
  have "content_length_line body \<noteq> [] \<and> cr \<notin> set (content_length_line body)"
    using string_of_nat_digits[of cr "length body"] by (auto simp: content_length_line_def)
  with ok show "\<forall>l \<in> set ((m @ '' '' @ p @ '' '' @ v) # hs1 @ content_length_line body # hs2). l \<noteq> [] \<and> cr \<notin> set l"
    by auto
  have "number_after ''Content-Length:'' (join_lines ((m @ '' '' @ p @ '' '' @ v) # hs1 @ content_length_line body # hs2)) =
      Some (Some (int (length body)))"
    unfolding append_Cons[symmetric]
    by (rule number_after_found) (use cl number_after_content_length[OF n] in simp_all)
  then show "getContentLength (join_lines ((m @ '' '' @ p @ '' '' @ v) # hs1 @ content_length_line body # hs2)) = int (length body)"
    by (simp add: getContentLength_number)
qed simp

text \<open>Without a line that has the field the content is empty.\<close>

lemma parse_request_bare:
  assumes "CHR '' '' \<notin> set m" "CHR '' '' \<notin> set p"
    and ok: "\<forall>l \<in> set ((m @ '' '' @ p @ '' '' @ v) # hs). l \<noteq> [] \<and> cr \<notin> set l" "hs \<noteq> []"
    and no: "\<forall>l \<in> set ((m @ '' '' @ p @ '' '' @ v) # hs). str_find ''Content-Length:'' l = None \<and> str_find ''content-length:'' l = None"
  shows "parseHTTPRequest (request_text m p v hs [] @ rest) =
    makeComplete \<lparr>req_method = m, req_path = p, req_version = v, req_headers = Map.empty,
                  req_body = [], rawRequest = request_text m p v hs []\<rparr> (length (request_text m p v hs []))"
proof (rule parse_request_sized[OF assms(1,2) ok])
  have "number_after w (join_lines ls) = None"
    if "cr \<notin> set w" "lf \<notin> set w" "w \<noteq> []" "\<forall>l \<in> set ls. str_find w l = None" for w ls
    using that(4) by (induction ls) (simp_all add: number_after_join[OF that(1-3)] number_after_None[THEN iffD2] that(3))
  then show "getContentLength (join_lines ((m @ '' '' @ p @ '' '' @ v) # hs)) = int (length [])"
    using no by (simp add: getContentLength_number del: join_lines.simps)
qed

text \<open>A request without header lines has no line end in its header section.\<close>

lemma parse_no_headers:
  assumes "l \<noteq> []" "cr \<notin> set l"
  shows "parseHTTPRequest (l @ CRLF @ CRLF @ rest) = makeError ''Malformed HTTP Request Line''"
proof -
  have "str_find (CRLF @ CRLF) (l @ CRLF @ CRLF @ rest) = Some (length l)"
    using find_blank_line[of "[l]" rest] assms by simp
  moreover have "str_find CRLF l = None"
    using assms(2) starts_in_absent[OF assms(2), of "[lf]" "[]"] str_find_skip[of CRLF l "[]"] by simp
  ultimately show ?thesis by (simp add: parse_by_head parse_head_def)
qed

subsection \<open>The response parser as a parser of the head\<close>

text \<open>What the head of a response alone determines: the response without its body, the content
  length and whether a header gave one.\<close>

definition response_head :: "string \<Rightarrow> HttpResponse \<times> nat \<times> bool" where
  "response_head h =
     (let (r, stream) =
        (case getline lf h of
           None \<Rightarrow> (empty_response, [])
         | Some (line, rest) \<Rightarrow> (parse_status_line (strip_cr line) empty_response, rest));
          (n, found, hs) = parse_header_lines (lines stream) 0 False Map.empty
      in (r\<lparr>resp_headers := hs\<rparr>, n, found))"

definition partial_response :: "HttpResponse \<Rightarrow> HttpResponseParseResult" where
  "partial_response r = \<lparr>rparse_status = INCOMPLETE, response = r, rparse_error = [], rconsumed = 0\<rparr>"

definition full_response :: "string \<Rightarrow> nat \<Rightarrow> HttpResponse \<Rightarrow> nat \<Rightarrow> nat \<Rightarrow> HttpResponseParseResult" where
  "full_response buffer he r n tot =
     \<lparr>rparse_status = COMPLETE,
      response = r\<lparr>resp_body := take n (drop (he + 4) buffer), rawResponse := take tot buffer\<rparr>,
      rparse_error = [], rconsumed = tot\<rparr>"

lemma parse_response_by_head:
  "parseHTTPResponse buffer =
     (case str_find (CRLF @ CRLF) buffer of
        None \<Rightarrow> partial_response empty_response
      | Some he \<Rightarrow>
          (case response_head (take he buffer) of
             (r, n, found) \<Rightarrow>
               (let cl = (if found then n else length buffer - (he + 4));
                    tot = (he + 4 + cl) mod 2 ^ 64
                in if length buffer < tot then partial_response r
                   else full_response buffer he r cl tot)))"
  unfolding parseHTTPResponse_def response_head_def partial_response_def full_response_def substr_def
  by (simp add: Let_def case_prod_beta' split: option.split del: power_numeral)

lemma response_status [simp]:
  "rparse_status (partial_response r) = INCOMPLETE" "rparse_status (full_response b he r n t) = COMPLETE"
  "response (partial_response r) = r" "rconsumed (full_response b he r n t) = t"
  "resp_body (response (full_response b he r n t)) = take n (drop (he + 4) b)"
  "rawResponse (response (full_response b he r n t)) = take t b"
  by (simp_all add: partial_response_def full_response_def)

text \<open>A response whose header gives a length that does not exceed a 64-bit total.\<close>

definition sized_response :: "string \<Rightarrow> bool" where
  "sized_response buffer \<longleftrightarrow>
     (case str_find (CRLF @ CRLF) buffer of
        None \<Rightarrow> False
      | Some he \<Rightarrow>
          (case response_head (take he buffer) of (_, n, found) \<Rightarrow> found \<and> he + 4 + n < 2 ^ 64))"

lemma sized_response_append:
  assumes "str_find (CRLF @ CRLF) buffer = Some he"
  shows "sized_response (buffer @ rest) = sized_response buffer"
proof -
  have "take he (buffer @ rest) = take he buffer" using str_find_bound[OF assms] by simp
  then show ?thesis
    unfolding sized_response_def str_find_append[OF assms, of rest] assms option.case by (rule arg_cong)
qed

lemma parse_response_sized:
  assumes "sized_response buffer"
  obtains he r n where "str_find (CRLF @ CRLF) buffer = Some he" "response_head (take he buffer) = (r, n, True)"
    "he + 4 + n < 2 ^ 64"
    "parseHTTPResponse buffer =
       (if length buffer < he + 4 + n then partial_response r else full_response buffer he r n (he + 4 + n))"
proof -
  obtain he r n where h: "str_find (CRLF @ CRLF) buffer = Some he" "response_head (take he buffer) = (r, n, True)"
    "he + 4 + n < 2 ^ 64"
    using assms by (auto simp: sized_response_def split: option.splits prod.splits)
  moreover have "parseHTTPResponse buffer =
       (if length buffer < he + 4 + n then partial_response r else full_response buffer he r n (he + 4 + n))"
    unfolding parse_response_by_head h option.case prod.case Let_def using mod_less[OF h(3)] by simp
  ultimately show ?thesis using that by blast
qed

lemma parse_response_append:
  assumes "rparse_status (parseHTTPResponse buffer) = COMPLETE" "sized_response (buffer @ rest)"
  shows "parseHTTPResponse (buffer @ rest) = parseHTTPResponse buffer"
proof -
  obtain he where he: "str_find (CRLF @ CRLF) buffer = Some he"
    using assms(1) by (auto simp: parse_response_by_head split: option.splits)
  have "sized_response buffer" using assms(2) sized_response_append[OF he] by simp
  then obtain r n where p: "response_head (take he buffer) = (r, n, True)" "he + 4 + n < 2 ^ 64"
    "parseHTTPResponse buffer =
       (if length buffer < he + 4 + n then partial_response r else full_response buffer he r n (he + 4 + n))"
    by (rule parse_response_sized) (use he in simp)
  have len: "he + 4 + n \<le> length buffer" using assms(1) p(3) by (auto split: if_splits)
  have "str_find (CRLF @ CRLF) (buffer @ rest) = Some he" by (rule str_find_append[OF he])
  moreover have "take he (buffer @ rest) = take he buffer" using str_find_bound[OF he] by simp
  ultimately have "parseHTTPResponse (buffer @ rest) = full_response (buffer @ rest) he r n (he + 4 + n)"
    using len mod_less[OF p(2)] unfolding parse_response_by_head option.case p(1) by (simp add: p(1) Let_def)
  also have "\<dots> = full_response buffer he r n (he + 4 + n)"
    using len by (simp add: full_response_def)
  finally show ?thesis using p(3) len by simp
qed

subsection \<open>Keys\<close>

lemma getKey_path:
  assumes "req_path r = ''/kvstore/'' @ k" "CHR ''/'' \<notin> set k" "k \<noteq> []"
    and "req_path r \<noteq> ''/kvstore/create'' \<or> req_body r = []"
  shows "getKey r = k"
proof -
  have "find_last_of (CHR ''/'') (''/kvstore'' @ CHR ''/'' # k) = Some (length ''/kvstore'')"
    by (rule find_last_of_append[OF assms(2)])
  then show ?thesis using assms by (auto simp: getKey_def)
qed

lemma getKey_create:
  assumes "req_path r = ''/kvstore/create''" "req_body r = k @ '' '' @ v" "CHR '' '' \<notin> set k"
  shows "getKey r = k"
  using assms str_find_single[OF assms(3), of v] by (simp add: getKey_def substr_def)

subsection \<open>Properties\<close>

text \<open>
  C31. Round trip: the bytes of a well-formed request with a \<open>Content-Length\<close> line, followed by any
  further bytes, parse to exactly its method, path, version and body, and consume exactly the
  request.
\<close>

theorem request_roundtrip:
  assumes "CHR '' '' \<notin> set m" "CHR '' '' \<notin> set p"
    and "\<forall>l \<in> set ((m @ '' '' @ p @ '' '' @ v) # hs1 @ hs2). l \<noteq> [] \<and> cr \<notin> set l"
    and "\<forall>l \<in> set ((m @ '' '' @ p @ '' '' @ v) # hs1). str_find ''Content-Length:'' l = None"
    and "length body < 2 ^ 63"
  shows "parseHTTPRequest (request_text m p v (hs1 @ content_length_line body # hs2) body @ rest) =
    makeComplete \<lparr>req_method = m, req_path = p, req_version = v, req_headers = Map.empty,
      req_body = body, rawRequest = request_text m p v (hs1 @ content_length_line body # hs2) body\<rparr>
      (length (request_text m p v (hs1 @ content_length_line body # hs2) body))"
  by (rule parse_request_text[OF assms])

lemma request_roundtrip_witness:
  "parseHTTPRequest (request_text ''PUT'' ''/kvstore/k'' ''HTTP/1.1'' ([''Host: lb''] @ content_length_line ''hello'' # []) ''hello'' @ ''GET'') =
    makeComplete \<lparr>req_method = ''PUT'', req_path = ''/kvstore/k'', req_version = ''HTTP/1.1'', req_headers = Map.empty,
      req_body = ''hello'', rawRequest = request_text ''PUT'' ''/kvstore/k'' ''HTTP/1.1'' ([''Host: lb''] @ content_length_line ''hello'' # []) ''hello''\<rparr>
      (length (request_text ''PUT'' ''/kvstore/k'' ''HTTP/1.1'' ([''Host: lb''] @ content_length_line ''hello'' # []) ''hello''))"
  by (rule request_roundtrip) simp_all

text \<open>
  Incremental parsing: once a buffer is not INCOMPLETE, further bytes do not change the result;
  and a COMPLETE result consumes between four bytes and the whole buffer, its raw text being those
  bytes and its body their end.
\<close>

theorem parse_is_incremental:
  "(parse_status (parseHTTPRequest buffer) \<noteq> INCOMPLETE \<longrightarrow>
      parseHTTPRequest (buffer @ rest) = parseHTTPRequest buffer) \<and>
   (parse_status (parseHTTPRequest buffer) = COMPLETE \<longrightarrow>
      4 \<le> consumed (parseHTTPRequest buffer) \<and> consumed (parseHTTPRequest buffer) \<le> length buffer \<and>
      rawRequest (request (parseHTTPRequest buffer)) = take (consumed (parseHTTPRequest buffer)) buffer \<and>
      suffix (req_body (request (parseHTTPRequest buffer))) (rawRequest (request (parseHTTPRequest buffer))))"
  using parse_append[of buffer rest] parse_complete_bounds[of buffer] by blast

definition demo_request :: string where
  "demo_request = ''GET /kvstore/a HTTP/1.1'' @ CRLF @ ''Host: lb'' @ CRLF @ CRLF"

lemma parse_demo_request:
  "parse_status (parseHTTPRequest demo_request) = COMPLETE \<and> consumed (parseHTTPRequest demo_request) = 37"
  by code_simp

lemma parse_is_incremental_witness:
  "parseHTTPRequest (demo_request @ ''GET'') = parseHTTPRequest demo_request \<and>
   consumed (parseHTTPRequest demo_request) \<le> length demo_request"
  using parse_is_incremental[of demo_request "''GET''"] parse_demo_request by simp

text \<open>
  The length computation of the request parser cannot wrap: the sum of the header length and a
  declared content length stays below \<open>2 ^ 64\<close> for every buffer shorter than \<open>2 ^ 63\<close> bytes.
\<close>

theorem request_length_no_wrap:
  assumes "length buffer < 2 ^ 63" "str_find (CRLF @ CRLF) buffer = Some he"
  shows "he + 4 + nat (getContentLength (take he buffer)) < 2 ^ 64"
  by (rule request_total_no_wrap[OF assms])

lemma request_length_no_wrap_witness:
  "33 + 4 + nat (getContentLength (take 33 demo_request)) < 2 ^ 64"
  by (rule request_length_no_wrap) (simp_all add: demo_request_def)

text \<open>
  A request without header lines, which HTTP/1.0 allows, is rejected as malformed: the parser
  looks for the end of the request line before the blank line only.
\<close>

theorem headerless_request_rejected:
  assumes "l \<noteq> []" "cr \<notin> set l"
  shows "parseHTTPRequest (l @ CRLF @ CRLF @ rest) = makeError ''Malformed HTTP Request Line''"
  by (rule parse_no_headers[OF assms])

lemma headerless_request_rejected_witness:
  "parseHTTPRequest (''GET /kvstore/a HTTP/1.0'' @ CRLF @ CRLF @ []) = makeError ''Malformed HTTP Request Line''"
  by (rule headerless_request_rejected) simp_all

text \<open>
  A response whose head declares a length is COMPLETE exactly when that many body bytes have
  arrived; then the body has the declared length and further bytes change nothing.
\<close>

theorem sized_response_complete:
  assumes "sized_response buffer"
  shows "\<exists>he r n. str_find (CRLF @ CRLF) buffer = Some he \<and> response_head (take he buffer) = (r, n, True) \<and>
    (rparse_status (parseHTTPResponse buffer) = COMPLETE \<longleftrightarrow> he + 4 + n \<le> length buffer) \<and>
    (he + 4 + n \<le> length buffer \<longrightarrow>
       length (resp_body (response (parseHTTPResponse buffer))) = n \<and>
       rawResponse (response (parseHTTPResponse buffer)) = take (he + 4 + n) buffer \<and>
       parseHTTPResponse (buffer @ rest) = parseHTTPResponse buffer)"
proof -
  obtain he r n where p: "str_find (CRLF @ CRLF) buffer = Some he" "response_head (take he buffer) = (r, n, True)"
    "parseHTTPResponse buffer =
       (if length buffer < he + 4 + n then partial_response r else full_response buffer he r n (he + 4 + n))"
    by (rule parse_response_sized[OF assms])
  have "sized_response (buffer @ rest)" using assms sized_response_append[OF p(1)] by simp
  with parse_response_append p show ?thesis by (intro exI[of _ he] exI[of _ r] exI[of _ n]) auto
qed

definition demo_response :: string where
  "demo_response = ''HTTP/1.1 200 OK'' @ CRLF @ ''Content-Length: 5'' @ CRLF @ CRLF @ ''hello''"

lemma demo_response_head:
  "str_find (CRLF @ CRLF) demo_response = Some 34 \<and> snd (response_head (take 34 demo_response)) = (5, True) \<and>
   length demo_response = 43"
  by code_simp

lemma demo_response_sized: "sized_response demo_response"
proof -
  obtain r where "response_head (take 34 demo_response) = (r, 5, True)"
    using demo_response_head by (metis prod.collapse)
  then show ?thesis using demo_response_head by (simp add: sized_response_def)
qed

lemma sized_response_complete_witness:
  "\<exists>he r n. str_find (CRLF @ CRLF) demo_response = Some he \<and> response_head (take he demo_response) = (r, n, True) \<and>
    (rparse_status (parseHTTPResponse demo_response) = COMPLETE \<longleftrightarrow> he + 4 + n \<le> length demo_response)"
  using sized_response_complete[OF demo_response_sized, of "[]"] by blast

text \<open>
  The length computation of the response parser can wrap: with \<open>Content-Length: -1\<close>, which
  \<open>std::stoul\<close> reads as \<open>2 ^ 64 - 1\<close>, the response is COMPLETE with a raw text one byte shorter
  than its head, so the proxy would forward a truncated head.
\<close>

theorem response_length_wraps:
  "rparse_status (parseHTTPResponse (''HTTP/1.1 200 OK'' @ CRLF @ ''Content-Length: -1'' @ CRLF @ CRLF @ ''hello'')) = COMPLETE \<and>
   rawResponse (response (parseHTTPResponse (''HTTP/1.1 200 OK'' @ CRLF @ ''Content-Length: -1'' @ CRLF @ CRLF @ ''hello''))) =
     ''HTTP/1.1 200 OK'' @ CRLF @ ''Content-Length: -1'' @ CRLF @ [cr]"
  by code_simp

text \<open>
  The key a request is routed by: the last path segment, or the first word of the body of a
  create request.
\<close>

theorem routing_key:
  "(req_path r = ''/kvstore/'' @ k \<and> CHR ''/'' \<notin> set k \<and> k \<noteq> [] \<and> k \<noteq> ''create'' \<longrightarrow> getKey r = k) \<and>
   (req_path r = ''/kvstore/create'' \<and> req_body r = k @ '' '' @ v \<and> CHR '' '' \<notin> set k \<longrightarrow> getKey r = k)"
  using getKey_path[of r k] getKey_create[of r k v] by auto

lemma routing_key_witness:
  "getKey (empty_request\<lparr>req_path := ''/kvstore/'' @ ''foo''\<rparr>) = ''foo'' \<and>
   getKey (empty_request\<lparr>req_path := ''/kvstore/create'', req_body := ''foo'' @ '' '' @ ''bar''\<rparr>) = ''foo''"
  using routing_key[of "empty_request\<lparr>req_path := ''/kvstore/'' @ ''foo''\<rparr>" "''foo''" "[]"]
    routing_key[of "empty_request\<lparr>req_path := ''/kvstore/create'', req_body := ''foo'' @ '' '' @ ''bar''\<rparr>" "''foo''" "''bar''"]
  by simp

text \<open>Header names are matched with two spellings only: another one leaves the body outside the
  request, to be parsed as the next one.\<close>

lemma content_length_case_sensitive:
  "getContentLength (''Host: lb'' @ CRLF @ ''Content-length: 5'') = 0"
  by code_simp

end
