(* ===== verification/ResponseWire.thy ===== *)
theory ResponseWire
  imports HttpServer HttpParser
begin

text \<open>
  The responses of the library's server on the wire, read by the load balancer's own parser. The
  lemmas compute what the parser makes of a written message: for a response the server sends with
  its content it is complete, with the status and the body of the handler, whatever the order the
  headers are written in. A response to a HEAD request declares the length of a content that is not
  sent, so the parser waits for it.
\<close>

subsection \<open>A written message\<close>

definition field_text :: "string \<times> string \<Rightarrow> string" where
  "field_text x = fst x @ '': '' @ snd x"

definition status_text :: "int \<Rightarrow> string" where
  "status_text st = ''HTTP/1.1 '' @ string_of_int st @ '' '' @ status_message st"

definition message :: "int \<Rightarrow> headers \<Rightarrow> string \<Rightarrow> string" where
  "message st hs body = response_line st @ concat (map header_line hs) @ CR_LF @ body"

definition fields_valid :: "headers \<Rightarrow> bool" where
  "fields_valid hs \<longleftrightarrow> (\<forall>x \<in> set hs. is_field_name (fst x) \<and> is_field_value (snd x))"

text \<open>The fields that declare a length, as the load balancer's parser recognises them.\<close>

definition is_length_field :: "string \<times> string \<Rightarrow> bool" where
  "is_length_field x \<longleftrightarrow> map to_lower (fst x) = ''content-length''"

lemma field_text_chars:
  assumes "is_field_name (fst x)" "is_field_value (snd x)"
  shows "field_text x \<noteq> [] \<and> cr \<notin> set (field_text x) \<and> lf \<notin> set (field_text x)"
proof -
  have "c \<noteq> cr \<and> c \<noteq> lf" if "c \<in> set (fst x)" for c
    using assms(1) that token_char_not(3,4)[of c] by (auto simp: is_field_name_def is_token_def list_all_iff)
  moreover have "c \<noteq> cr \<and> c \<noteq> lf" if "c \<in> set (snd x)" for c
    using field_value_char(1,2)[OF assms(2) that] by simp
  ultimately show ?thesis by (auto simp: field_text_def)
qed

lemma status_message_chars: "cr \<notin> set (status_message st) \<and> lf \<notin> set (status_message st)"
proof -
  have "\<forall>x \<in> set status_messages. cr \<notin> set (snd x) \<and> lf \<notin> set (snd x)"
    by (simp add: status_messages_def)
  then have "cr \<notin> set m \<and> lf \<notin> set m" if "map_of status_messages st = Some m" for m
    using map_of_SomeD[OF that] by (metis snd_conv)
  then show ?thesis by (auto simp: status_message_def split: option.split)
qed

lemma status_text_chars: "status_text st \<noteq> [] \<and> cr \<notin> set (status_text st) \<and> lf \<notin> set (status_text st)"
  using status_message_chars[of st] string_of_int_chars[of _ st] by (force simp: status_text_def is_digit_def)

lemma message_lines:
  "message st hs body = join_lines (status_text st # map field_text hs) @ CRLF @ CRLF @ body"
proof -
  have "map header_line hs = map (\<lambda>l. l @ CRLF) (map field_text hs)"
    by (induction hs) (simp_all add: header_line_def field_text_def CR_LF_def)
  moreover have "response_line st = status_text st @ CRLF"
    by (simp add: response_line_def status_text_def CR_LF_def)
  ultimately have "message st hs body = concat (map (\<lambda>l. l @ CRLF) (status_text st # map field_text hs)) @ CRLF @ body"
    by (simp only: message_def CR_LF_def) simp
  then show ?thesis using concat_lines[of "status_text st # map field_text hs"] by simp
qed

lemma fields_lines: "fields_valid hs \<Longrightarrow> l \<in> set (map field_text hs) \<Longrightarrow> l \<noteq> [] \<and> cr \<notin> set l \<and> lf \<notin> set l"
  using field_text_chars by (auto simp: fields_valid_def)

lemma find_message_head:
  assumes "fields_valid hs"
  shows "str_find (CRLF @ CRLF) (message st hs body) = Some (length (join_lines (status_text st # map field_text hs)))"
  unfolding message_lines
  by (rule find_blank_line) (use fields_lines[OF assms] status_text_chars in auto)

subsection \<open>The head\<close>

lemma strip_cr_simps: "cr \<notin> set l \<Longrightarrow> strip_cr l = l" "strip_cr (l @ [cr]) = l"
  by (auto simp: strip_cr_def) (metis last_in_set)

lemma lines_join:
  "\<forall>l \<in> set ls. l \<noteq> [] \<and> cr \<notin> set l \<and> lf \<notin> set l \<Longrightarrow> map strip_cr (lines (join_lines ls)) = ls"
proof (induction ls rule: join_lines.induct)
  case (2 l)
  then show ?case using lines.simps[of l] by (simp add: getline_last strip_cr_simps)
next
  case (3 l l' ls)
  have "lines (l @ CRLF @ join_lines (l' # ls)) = (l @ [cr]) # lines (join_lines (l' # ls))"
    using lines_append[of "l @ [cr]" "join_lines (l' # ls)"] 3(2) by simp
  with 3 show ?case by (simp add: strip_cr_simps)
qed simp

text \<open>The length the header loop ends with: the value of the last field that declares one.\<close>

fun declared_length :: "headers \<Rightarrow> nat \<times> bool \<Rightarrow> nat \<times> bool" where
  "declared_length [] r = r"
| "declared_length (x # hs) r =
     declared_length hs (if is_length_field x
       then (case stoul (snd x) of Inr n \<Rightarrow> (n, True) | Inl _ \<Rightarrow> (0, snd r)) else r)"

lemma field_colon:
  assumes "is_field_name (fst x)" "is_field_value (snd x)"
  shows "str_find '':'' (field_text x) = Some (length (fst x))" "substr (field_text x) 0 (length (fst x)) = fst x"
    "dropWhile is_blank (drop (length (fst x) + 1) (field_text x)) = snd x"
proof -
  have "CHR '':'' \<notin> set (fst x)"
    using assms(1) token_char_not(1) by (auto simp: is_field_name_def is_token_def list_all_iff)
  then show "str_find '':'' (field_text x) = Some (length (fst x))" by (simp add: field_text_def str_find_single)
  have "snd x = [] \<or> \<not> is_space_or_tab (hd (snd x))"
    using assms(2) by (auto simp: is_field_value_iff field_vchar_not_blank)
  then show "dropWhile is_blank (drop (length (fst x) + 1) (field_text x)) = snd x"
    by (cases "snd x") (auto simp: field_text_def is_blank_def is_space_or_tab_def)
qed (simp add: field_text_def substr_def)

lemma parse_header_lines_fields:
  "map strip_cr ls = map field_text hs \<Longrightarrow> fields_valid hs \<Longrightarrow>
   \<exists>m'. parse_header_lines ls n found m = (fst (declared_length hs (n, found)), snd (declared_length hs (n, found)), m')"
proof (induction hs arbitrary: ls n found m)
  case (Cons x hs)
  then obtain l ls' where ls: "ls = l # ls'" "strip_cr l = field_text x" "map strip_cr ls' = map field_text hs"
    by (cases ls) auto
  have x: "is_field_name (fst x)" "is_field_value (snd x)" and "fields_valid hs"
    using Cons.prems(2) by (auto simp: fields_valid_def)
  have "field_text x \<noteq> []" using field_text_chars x by blast
  then show ?case
    using Cons.IH[OF ls(3) \<open>fields_valid hs\<close>] field_colon[OF x]
    by (simp add: ls Let_def is_length_field_def split: sum.split)
qed simp

lemma stream_int_code:
  assumes "0 \<le> st" "st < 2 ^ 31" "s = [] \<or> \<not> is_digit (hd s)"
  shows "stream_int (CHR '' '' # string_of_int st @ s) = (st, s, False)"
proof -
  let ?d = "string_of_nat (nat st)"
  obtain c d where d: "?d = c # d" "is_digit c"
    using string_of_nat_nonempty[of "nat st"] string_of_nat_digits by (metis list.set_intros(1) neq_Nil_conv)
  have sp: "dropWhile is_space (CHR '' '' # ?d @ s) = ?d @ s"
    using d by (simp add: is_space_def is_digit_def)
  have sg: "split_sign (?d @ s) = (False, ?d @ s)" using d by (auto simp: split_sign_def is_digit_def)
  have "takeWhile is_digit (?d @ s) = ?d" "dropWhile is_digit (?d @ s) = s"
    using assms(3) string_of_nat_digits by (cases s; simp add: takeWhile_append2 dropWhile_append2)+
  then show ?thesis
    unfolding stream_int_def using assms(1,2) sp sg string_of_nat_nonempty
    by (simp add: string_of_int_def digits_val_string_of_nat)
qed

lemma parse_status_text:
  assumes "0 \<le> st" "st < 2 ^ 31"
  shows "statusCode (parse_status_line (status_text st) r) = st"
proof -
  have "stream_word (status_text st) = (''HTTP/1.1'', CHR '' '' # string_of_int st @ '' '' @ status_message st)"
    by (simp add: status_text_def stream_word_def is_space_def)
  then show ?thesis
    using stream_int_code[OF assms, of "'' '' @ status_message st"] by (simp add: parse_status_line_def Let_def)
qed

text \<open>What the head of a message alone determines.\<close>

lemma message_head:
  assumes "fields_valid hs" "0 \<le> st" "st < 2 ^ 31"
  obtains r where "response_head (join_lines (status_text st # map field_text hs)) =
      (r, fst (declared_length hs (0, False)), snd (declared_length hs (0, False)))" "statusCode r = st"
proof -
  let ?h = "join_lines (status_text st # map field_text hs)"
  note st = status_text_chars[of st]
  obtain line rest where g: "getline lf ?h = Some (line, rest)" "strip_cr line = status_text st"
    "map strip_cr (lines rest) = map field_text hs"
  proof (cases hs)
    case Nil
    then show ?thesis using that[of "status_text st" "[]"] st by (simp add: getline_last strip_cr_simps)
  next
    case (Cons x hs')
    have "?h = (status_text st @ [cr]) @ lf # join_lines (map field_text hs)" by (simp add: Cons)
    then have "getline lf ?h = Some (status_text st @ [cr], join_lines (map field_text hs))"
      using getline_append[of lf "status_text st @ [cr]" "join_lines (map field_text hs)"] st by simp
    moreover have "map strip_cr (lines (join_lines (map field_text hs))) = map field_text hs"
      by (rule lines_join) (use fields_lines[OF assms(1)] in blast)
    ultimately show ?thesis using that by (simp add: strip_cr_simps)
  qed
  obtain m where m: "parse_header_lines (lines rest) 0 False Map.empty =
      (fst (declared_length hs (0, False)), snd (declared_length hs (0, False)), m)"
    using parse_header_lines_fields[OF g(3) assms(1)] by blast
  show ?thesis
    by (rule that[of "(parse_status_line (status_text st) empty_response)\<lparr>resp_headers := m\<rparr>"])
       (simp_all add: response_head_def g m parse_status_text[OF assms(2,3)])
qed

subsection \<open>The headers a response is sent with\<close>

lemma case_lower_to_lower: "case_lower (to_lower c) = case_lower c"
  by (auto simp: case_lower_conv to_lower_def Let_def)

lemma lower_content_length: "map to_lower ''Content-Length'' = ''content-length''"
  by code_simp

lemma is_length_field_has:
  assumes "x \<in> set hs" "is_length_field x"
  shows "headers_has hs ''Content-Length''"
proof -
  have "map case_lower (fst x) = map case_lower (map to_lower (fst x))" by (simp add: case_lower_to_lower)
  also have "map to_lower (fst x) = map to_lower ''Content-Length''"
    using assms(2) by (simp only: is_length_field_def lower_content_length)
  also have "map case_lower (map to_lower ''Content-Length'') = map case_lower ''Content-Length''"
    by (simp only: list.map case_lower_to_lower)
  finally have "case_equal (fst x) ''Content-Length''" by (simp only: case_equal_iff)
  with assms(1) show ?thesis by (auto simp: headers_has_def list_ex_iff intro!: bexI[of _ x])
qed

text \<open>The load balancer's parser and the library recognise the same fields as a length.\<close>

lemma to_lower_ascii:
  assumes "map case_lower s = t" "\<forall>c \<in> set t. (of_char c :: nat) < 128"
  shows "map to_lower s = t"
proof -
  have "to_lower c = case_lower c" if "c \<in> set s" for c
  proof -
    have "(of_char (case_lower c) :: nat) < 128" using assms that by auto
    then show ?thesis by (auto simp: case_lower_conv to_lower_def Let_def split: if_splits)
  qed
  then have "map to_lower s = map case_lower s" by simp
  with assms(1) show ?thesis by simp
qed

lemma is_length_field_iff: "is_length_field x \<longleftrightarrow> case_equal (fst x) ''Content-Length''"
proof
  assume "is_length_field x"
  then have "headers_has [x] ''Content-Length''" by (intro is_length_field_has) simp_all
  then show "case_equal (fst x) ''Content-Length''" by (simp add: headers_has_def split: prod.splits)
next
  assume "case_equal (fst x) ''Content-Length''"
  then have "map case_lower (fst x) = map case_lower ''Content-Length''" by (simp only: case_equal_iff)
  moreover have "map case_lower ''Content-Length'' = ''content-length''" by code_simp
  ultimately have "map case_lower (fst x) = ''content-length''" by (rule trans)
  from to_lower_ascii[OF this] show "is_length_field x" by (simp add: is_length_field_def)
qed

lemma set_header_fields:
  "res_status (set_header k v res) = res_status res" "res_body (set_header k v res) = res_body res"
  "fields_valid (res_headers res) \<Longrightarrow> fields_valid (res_headers (set_header k v res))"
  "\<not> is_length_field (k, v) \<Longrightarrow>
     filter is_length_field (res_headers (set_header k v res)) = filter is_length_field (res_headers res)"
  "\<not> case_equal k key \<Longrightarrow> headers_has (res_headers (set_header k v res)) key = headers_has (res_headers res) key"
  by (auto simp: set_header_def emplace_header_def fields_valid_def headers_has_def)

lemma digits_field_value: "is_field_value (string_of_nat n)"
proof -
  have "is_field_vchar c" if "c \<in> set (string_of_nat n)" for c
    using string_of_nat_digits[OF that] by (simp add: is_field_vchar_def is_vchar_def is_digit_def)
  then show ?thesis using string_of_nat_nonempty[of n] by (simp add: is_field_value_iff)
qed

lemma set_length_header:
  "filter is_length_field (res_headers (set_header ''Content-Length'' (string_of_nat n) res)) =
     filter is_length_field (res_headers res) @ [(''Content-Length'', string_of_nat n)]"
proof -
  have "is_field_name ''Content-Length''"
    by (simp add: field_name)
  moreover have "is_length_field (''Content-Length'', v)" for v
    by (simp only: is_length_field_def fst_conv lower_content_length)
  ultimately show ?thesis by (simp add: set_header_def emplace_header_def digits_field_value)
qed

lemma not_length_fields:
  "\<not> is_length_field (''Connection'', v)" "\<not> is_length_field (''Keep-Alive'', v)"
  "\<not> is_length_field (''Content-Type'', v)" "\<not> is_length_field (''Accept-Ranges'', v)"
  by (simp_all add: is_length_field_def)

text \<open>The fields that say how the content is framed; the library sets none of them but the length.\<close>

definition framing_fields :: "string set" where
  "framing_fields = {''Content-Length'', ''Transfer-Encoding'', ''Content-Encoding''}"

lemma not_framing:
  "key \<in> framing_fields \<Longrightarrow> \<not> case_equal ''Connection'' key" "key \<in> framing_fields \<Longrightarrow> \<not> case_equal ''Keep-Alive'' key"
  "key \<in> framing_fields \<Longrightarrow> \<not> case_equal ''Content-Type'' key" "key \<in> framing_fields \<Longrightarrow> \<not> case_equal ''Accept-Ranges'' key"
  "key \<in> framing_fields \<Longrightarrow> key \<noteq> ''Content-Length'' \<Longrightarrow> \<not> case_equal ''Content-Length'' key"
  by (auto simp: case_equal_def framing_fields_def)

lemma content_length_framing [simp]: "''Content-Length'' \<in> framing_fields"
  by (simp add: framing_fields_def)

lemmas not_content_length = not_framing(1-4)[OF content_length_framing]

text \<open>The number of bytes the headers take.\<close>

definition headers_size :: "headers \<Rightarrow> nat" where
  "headers_size hs = sum_list (map (\<lambda>x. length (header_line x)) hs)"

lemma headers_size_iteration:
  assumes "iteration ord"
  shows "headers_size (ord hs) = headers_size hs"
proof -
  have "mset (map (\<lambda>x. length (header_line x)) (ord hs)) = mset (map (\<lambda>x. length (header_line x)) hs)"
    using assms by (simp add: iteration_def)
  then show ?thesis unfolding headers_size_def by (metis sum_mset_sum_list)
qed

lemma headers_size_set_header:
  "headers_size (res_headers (set_header k v res)) \<le> headers_size (res_headers res) + (length k + length v + 4)"
  by (simp add: set_header_def emplace_header_def headers_size_def header_line_def CR_LF_def)

lemma string_of_nat_length: "length (string_of_nat n) \<le> n + 1"
proof (induction n rule: string_of_nat.induct)
  case (1 n)
  show ?case
  proof (cases "n < 10")
    case True
    then show ?thesis by (simp add: string_of_nat.simps[of n])
  next
    case False
    then have "length (string_of_nat n) = length (string_of_nat (n div 10)) + 1" by (simp add: string_of_nat.simps[of n])
    with 1[OF False] False show ?thesis by linarith
  qed
qed

lemma string_of_nat_bound: "0 < k \<Longrightarrow> n < 10 ^ k \<Longrightarrow> length (string_of_nat n) \<le> k"
proof (induction k arbitrary: n)
  case (Suc k)
  show ?case
  proof (cases "n < 10")
    case False
    then have "k \<noteq> 0" using Suc.prems by (cases k) auto
    moreover have "n div 10 < 10 ^ k" using Suc.prems(2) by (simp add: less_mult_imp_div_less mult.commute)
    ultimately show ?thesis using Suc.IH[of "n div 10"] False by (simp add: string_of_nat.simps[of n])
  qed (simp add: string_of_nat.simps[of n])
qed simp

lemma status_message_length: "length (status_message st) \<le> 40"
proof -
  have "list_all (\<lambda>x. length (snd x) \<le> 40) status_messages" by code_simp
  then have "length m \<le> 40" if "map_of status_messages st = Some m" for m
    using map_of_SomeD[OF that] by (auto simp: list_all_iff)
  then show ?thesis by (auto simp: status_message_def split: option.split)
qed

text \<open>What each step of the composition of the headers keeps, and the length it adds.\<close>

definition step_ok :: "nat \<Rightarrow> (Response \<Rightarrow> Response) \<Rightarrow> bool" where
  "step_ok n f \<longleftrightarrow> (\<forall>res. res_body (f res) = res_body res \<and> res_status (f res) = res_status res \<and>
     (fields_valid (res_headers res) \<longrightarrow> fields_valid (res_headers (f res))) \<and>
     filter is_length_field (res_headers (f res)) = filter is_length_field (res_headers res) \<and>
     (\<forall>key \<in> framing_fields. response_has_header (f res) key = response_has_header res key) \<and>
     headers_size (res_headers (f res)) \<le> headers_size (res_headers res) + n)"

lemma steps_ok:
  "step_ok 50 (connection_header lib cc req)" "step_ok 30 default_content_type" "step_ok 30 (default_accept_ranges req)"
proof -
  have "length (string_of_nat KEEPALIVE_TIMEOUT_SECOND) = 1" "length (string_of_nat KEEPALIVE_MAX_COUNT) = 3"
    by code_simp+
  note size = headers_size_set_header[THEN order_trans] this
  show "step_ok 50 (connection_header lib cc req)"
    by (simp add: step_ok_def connection_header_def set_header_fields not_length_fields not_framing
        response_has_header_def size)
  show "step_ok 30 default_content_type" "step_ok 30 (default_accept_ranges req)"
    by (simp_all add: step_ok_def default_content_type_def default_accept_ranges_def set_header_fields not_length_fields
        not_framing response_has_header_def size)
qed

lemma stepD:
  assumes "step_ok n f"
  shows "res_body (f res) = res_body res" "res_status (f res) = res_status res"
    "fields_valid (res_headers res) \<Longrightarrow> fields_valid (res_headers (f res))"
    "filter is_length_field (res_headers (f res)) = filter is_length_field (res_headers res)"
    "key \<in> framing_fields \<Longrightarrow> response_has_header (f res) key = response_has_header res key"
    "headers_size (res_headers (f res)) \<le> headers_size (res_headers res) + n"
  using assms by (simp_all add: step_ok_def)

lemmas connectionD = stepD[OF steps_ok(1)]
lemmas content_typeD = stepD[OF steps_ok(2)]
lemmas accept_rangesD = stepD[OF steps_ok(3)]

text \<open>
  The response that is sent: the handler's status and body, valid headers, and one length, that of
  the body.
\<close>

definition to_send :: "http_lib \<Rightarrow> bool \<Rightarrow> Request \<Rightarrow> Response \<Rightarrow> bool \<Rightarrow> Response" where
  "to_send lib cc req res need = additional_headers lib cc req (if need then apply_ranges lib req res else res)"

lemma to_send_fields:
  assumes "rq_ranges req = []" "fields_valid (res_headers res)" "\<not> headers_has (res_headers res) ''Content-Length''"
    "need \<or> res_body res = []"
  shows "res_body (to_send lib cc req res need) = res_body res" "res_status (to_send lib cc req res need) = res_status res"
    "fields_valid (res_headers (to_send lib cc req res need))"
    "filter is_length_field (res_headers (to_send lib cc req res need)) =
       [(''Content-Length'', string_of_nat (length (res_body res)))]"
    "headers_size (res_headers (to_send lib cc req res need)) \<le>
       headers_size (res_headers res) + length (string_of_nat (length (res_body res))) + 200"
    "key \<in> framing_fields \<Longrightarrow> key \<noteq> ''Content-Length'' \<Longrightarrow>
       headers_has (res_headers (to_send lib cc req res need)) key = headers_has (res_headers res) key"
proof -
  define r1 where "r1 = (if need then apply_ranges lib req res else res)"
  have r1: "r1 = (if res_body res = [] then res
      else set_header ''Content-Length'' (string_of_nat (length (res_body res))) res)"
    using assms(1,4) by (auto simp: r1_def apply_ranges_def parts_content_type_def cut_ranges_def Let_def)
  have none: "filter is_length_field (res_headers res) = []"
    using assms(3) is_length_field_has by (auto simp: filter_empty_conv)
  have s1: "headers_size (res_headers r1) \<le> headers_size (res_headers res) + (14 + length (string_of_nat (length (res_body res))) + 4)"
    using headers_size_set_header[of "''Content-Length''" "string_of_nat (length (res_body res))" res] by (simp add: r1)
  define r3 where "r3 = default_content_type (connection_header lib cc req r1)"
  have send: "to_send lib cc req res need = default_accept_ranges req (default_content_length r3)"
    by (simp add: to_send_def additional_headers_def r1_def r3_def)
  have b3: "res_body r3 = res_body res" "res_status r3 = res_status res" "fields_valid (res_headers r3)"
    using assms(2) by (auto simp: r3_def content_typeD connectionD r1 set_header_fields)
  have l3: "filter is_length_field (res_headers r3) = filter is_length_field (res_headers r1)"
    "response_has_header r3 ''Content-Length'' = response_has_header r1 ''Content-Length''"
    by (simp_all add: r3_def content_typeD connectionD)
  have s3: "headers_size (res_headers r3) \<le> headers_size (res_headers r1) + 80"
    using content_typeD(6)[of "connection_header lib cc req r1"] connectionD(6)[of lib cc req r1] by (simp add: r3_def)
  have zero: "''0'' = string_of_nat 0" by code_simp
  have l4: "filter is_length_field (res_headers (default_content_length r3)) =
      [(''Content-Length'', string_of_nat (length (res_body res)))]"
  proof (cases "res_body res = []")
    case True
    then show ?thesis
      using b3(1) l3 none assms(3) r1 set_length_header[of 0 r3]
      by (simp add: default_content_length_def zero response_has_header_def)
  next
    case False
    then show ?thesis
      using b3(1) l3 none r1 set_length_header[of "length (res_body res)" res] by (simp add: default_content_length_def)
  qed
  have s4: "headers_size (res_headers (default_content_length r3)) \<le> headers_size (res_headers r3) + 30"
    using headers_size_set_header[of "''Content-Length''" "''0''" r3] by (simp add: default_content_length_def)
  show "res_body (to_send lib cc req res need) = res_body res" "res_status (to_send lib cc req res need) = res_status res"
    "fields_valid (res_headers (to_send lib cc req res need))"
    using b3 by (simp_all add: send accept_rangesD default_content_length_def set_header_fields)
  show "filter is_length_field (res_headers (to_send lib cc req res need)) =
       [(''Content-Length'', string_of_nat (length (res_body res)))]"
    using l4 by (simp add: send accept_rangesD)
  show "headers_size (res_headers (to_send lib cc req res need)) \<le>
       headers_size (res_headers res) + length (string_of_nat (length (res_body res))) + 200"
    using s1 s3 s4 accept_rangesD(6)[of req "default_content_length r3"] by (simp add: send)
  show "headers_has (res_headers (to_send lib cc req res need)) key = headers_has (res_headers res) key"
    if "key \<in> framing_fields" "key \<noteq> ''Content-Length''"
    using that accept_rangesD(5)[of key req] content_typeD(5)[of key] connectionD(5)[of key lib cc req] not_framing(5)[OF that]
    by (simp add: send r3_def r1 default_content_length_def set_header_fields flip: response_has_header_def)
      (simp add: response_has_header_def set_header_fields)
qed

subsection \<open>The bytes of a response\<close>

lemma response_head_data_bytes:
  "response_head_data lib res = message (res_status res) (h_ord lib (res_headers res)) []"
  by (simp add: response_head_data_def write_response_line_def write_headers_def get_buffer_def message_def
      write_header_lines_buffer stream_write_def buffer_stream_def case_prod_beta')

definition response_bytes :: "http_lib \<Rightarrow> bool \<Rightarrow> Request \<Rightarrow> Response \<Rightarrow> bool \<Rightarrow> string" where
  "response_bytes lib cc req res need =
     (let res' = to_send lib cc req res need
      in message (res_status res') (h_ord lib (res_headers res')) (if rq_method req = ''HEAD'' then [] else res_body res'))"

text \<open>Their number is bounded by the sizes of the handler's headers and body.\<close>

lemma response_bytes_length:
  assumes "iteration (h_ord lib)" "rq_ranges req = []" "fields_valid (res_headers res)"
    "\<not> headers_has (res_headers res) ''Content-Length''" "need \<or> res_body res = []" "0 \<le> res_status res" "res_status res < 600"
  shows "length (response_bytes lib cc req res need) \<le> headers_size (res_headers res) + 2 * length (res_body res) + 1000"
proof -
  note s = to_send_fields[OF assms(2-5), where lib = lib and cc = cc]
  have m: "length (message st (ord hs) b) = length (response_line st) + headers_size (ord hs) + 2 + length b" for st ord hs b
    by (simp add: message_def headers_size_def length_concat comp_def CR_LF_def)
  have "length (response_line (res_status res)) \<le> 700"
    using status_message_length[of "res_status res"] string_of_nat_length[of "nat (res_status res)"] assms(6,7)
    by (simp add: response_line_def string_of_int_def CR_LF_def)
  then show ?thesis
    using s string_of_nat_length[of "length (res_body res)"]
    by (auto simp: response_bytes_def Let_def m headers_size_iteration[OF assms(1)])
qed

text \<open>
  The bytes \<open>raw\<close> are a message with the status and the body of a response, whose headers declare
  the length of the body once and no encoding; \<open>head\<close> says that the body is left out.
\<close>

definition is_message :: "bool \<Rightarrow> string \<Rightarrow> Response \<Rightarrow> bool" where
  "is_message head raw res \<longleftrightarrow> (\<exists>hs. raw = message (res_status res) hs (if head then [] else res_body res) \<and>
     fields_valid hs \<and> headers_size hs \<le> 400 \<and>
     filter (\<lambda>(n, v). case_equal n ''Content-Length'') hs = [(''Content-Length'', string_of_nat (length (res_body res)))] \<and>
     \<not> headers_has hs ''Transfer-Encoding'' \<and> \<not> headers_has hs ''Content-Encoding'')"

lemma response_bytes_message:
  assumes "iteration (h_ord lib)" "rq_ranges req = []" "fields_valid (res_headers res)"
    "\<forall>key \<in> framing_fields. \<not> headers_has (res_headers res) key" "need \<or> res_body res = []"
    "headers_size (res_headers res) \<le> 100" "length (res_body res) < 2 ^ 62"
  shows "is_message (rq_method req = ''HEAD'') (response_bytes lib cc req res need) res"
proof -
  let ?res = "to_send lib cc req res need"
  let ?hs = "h_ord lib (res_headers ?res)"
  have "\<not> headers_has (res_headers res) ''Content-Length''" using assms(4) by simp
  note s = to_send_fields[OF assms(2,3) this assms(5), where lib = lib and cc = cc]
  have m: "mset ?hs = mset (res_headers ?res)" using assms(1) by (simp add: iteration_def)
  then have st: "set ?hs = set (res_headers ?res)" by (rule mset_eq_setD)
  have "mset (filter is_length_field ?hs) = mset (filter is_length_field (res_headers ?res))" by (simp add: m)
  then have "filter is_length_field ?hs = [(''Content-Length'', string_of_nat (length (res_body res)))]"
    unfolding s(4) by (simp del: mset_filter)
  then have len: "filter (\<lambda>(n, v). case_equal n ''Content-Length'') ?hs =
      [(''Content-Length'', string_of_nat (length (res_body res)))]"
    by (simp add: is_length_field_iff case_prod_beta' cong: filter_cong)
  have "length (string_of_nat (length (res_body res))) \<le> 20"
    using assms(7) by (intro string_of_nat_bound) simp_all
  then have size: "headers_size ?hs \<le> 400"
    using s(5) assms(6) by (simp add: headers_size_iteration[OF assms(1)])
  have no: "\<not> headers_has ?hs key" if "key \<in> framing_fields" "key \<noteq> ''Content-Length''" for key
    using s(6)[OF that] assms(4) that by (simp add: headers_has_def list_ex_iff st)
  show ?thesis
    unfolding is_message_def response_bytes_def Let_def s(1,2)
    by (rule exI[of _ ?hs])
       (use s(3) size len no in \<open>simp add: fields_valid_def st framing_fields_def del: mset_filter\<close>)
qed

lemma write_response_core_bytes:
  assumes "send_results strm = []"
  shows "write_response_core lib strm cc req res need =
    (True, strm\<lparr>sent := sent strm @ response_bytes lib cc req res need\<rparr>)"
  using assms
  by (simp add: write_response_core_def response_bytes_def to_send_def write_data_all response_head_data_bytes
      message_def Let_def)

lemma declared_length_none: "filter is_length_field hs = [] \<Longrightarrow> declared_length hs r = r"
  by (induction hs) (auto split: if_splits)

lemma declared_length_one:
  "filter is_length_field hs = [(n, v)] \<Longrightarrow> stoul v = Inr k \<Longrightarrow> declared_length hs r = (k, True)"
proof (induction hs arbitrary: r)
  case (Cons x hs)
  show ?case
  proof (cases "is_length_field x")
    case True
    with Cons.prems have "filter is_length_field hs = []" "x = (n, v)" by auto
    with True Cons.prems(2) show ?thesis by (simp add: declared_length_none)
  next
    case False
    with Cons show ?thesis by simp
  qed
qed simp

lemma stoul_string_of_nat:
  assumes "n < 2 ^ 64"
  shows "stoul (string_of_nat n) = Inr n"
proof -
  obtain c d where d: "string_of_nat n = c # d" "is_digit c"
    using string_of_nat_nonempty[of n] string_of_nat_digits by (metis list.set_intros(1) neq_Nil_conv)
  then have "dropWhile is_space (string_of_nat n) = string_of_nat n" "split_sign (string_of_nat n) = (False, string_of_nat n)"
    by (auto simp: is_space_def is_digit_def split_sign_def)
  then show ?thesis
    using assms by (simp add: stoul_def takeWhile_string_of_nat string_of_nat_nonempty digits_val_string_of_nat)
qed

text \<open>What the load balancer's parser makes of the bytes, with any content \<open>b\<close> after the head.\<close>

lemma parse_message:
  assumes "iteration ord" "fields_valid hs" "filter is_length_field hs = [(''Content-Length'', string_of_nat k)]"
    "0 \<le> st" "st < 2 ^ 31" "length (message st (ord hs) []) + k < 2 ^ 64"
  obtains r where "statusCode r = st" "\<And>b. sized_response (message st (ord hs) b)"
    "\<And>b. parseHTTPResponse (message st (ord hs) b) =
       (if length b < k then partial_response r
        else full_response (message st (ord hs) b) (length (message st (ord hs) []) - 4) r k
               (length (message st (ord hs) []) + k))"
proof -
  have "mset (ord hs) = mset hs" using assms(1) by (simp add: iteration_def)
  then have v: "fields_valid (ord hs)" and
    "mset (filter is_length_field (ord hs)) = mset (filter is_length_field hs)"
    using assms(2) mset_eq_setD[of "ord hs" hs] by (simp add: fields_valid_def, simp)
  then have f: "filter is_length_field (ord hs) = [(''Content-Length'', string_of_nat k)]"
    unfolding assms(3) by (simp del: mset_filter)
  let ?j = "join_lines (status_text st # map field_text (ord hs))"
  have len: "length (message st (ord hs) b) = length ?j + 4 + length b" for b
    unfolding message_lines by simp
  have "declared_length (ord hs) (0, False) = (k, True)"
    using declared_length_one[OF f stoul_string_of_nat] assms(6) by simp
  with message_head[OF v assms(4,5)] obtain r where r: "response_head ?j = (r, k, True)" "statusCode r = st"
    by auto
  have "length ?j + 4 + k < 2 ^ 64" using assms(6) len[of "[]"] by simp
  then have "parseHTTPResponse (message st (ord hs) b) =
       (if length b < k then partial_response r
        else full_response (message st (ord hs) b) (length ?j) r k (length ?j + 4 + k))" for b
    unfolding parse_response_by_head find_message_head[OF v] option.case len
    by (simp add: message_lines r(1) Let_def del: join_lines.simps)
  moreover have "sized_response (message st (ord hs) b)" for b
    unfolding sized_response_def find_message_head[OF v] option.case
    using \<open>length ?j + 4 + k < 2 ^ 64\<close> by (simp add: message_lines r(1) del: join_lines.simps)
  ultimately show ?thesis using r(2) that by (simp add: len)
qed

text \<open>The parser on the bytes of a response, for the content \<open>b\<close> that follows its head.\<close>

lemma parse_sent:
  assumes "iteration (h_ord lib)" "rq_ranges req = []" "fields_valid (res_headers res)"
    "\<not> headers_has (res_headers res) ''Content-Length''" "need \<or> res_body res = []"
    "0 \<le> res_status res" "res_status res < 2 ^ 31"
    "length (response_bytes lib cc req res need) + length (res_body res) < 2 ^ 64"
  obtains h r where "response_bytes lib cc req res need = h @ (if rq_method req = ''HEAD'' then [] else res_body res)"
    "statusCode r = res_status res" "4 \<le> length h" "\<And>b. sized_response (h @ b)"
    "\<And>b. parseHTTPResponse (h @ b) =
       (if length b < length (res_body res) then partial_response r
        else full_response (h @ b) (length h - 4) r (length (res_body res)) (length h + length (res_body res)))"
proof -
  let ?res = "to_send lib cc req res need"
  let ?h = "message (res_status ?res) (h_ord lib (res_headers ?res)) []"
  note s = to_send_fields[OF assms(2-5), where lib = lib and cc = cc]
  have m: "message st hs b = message st hs [] @ b" for st hs b by (simp add: message_def)
  have "length ?h \<le> length (response_bytes lib cc req res need)"
    by (simp add: response_bytes_def Let_def message_def)
  then have len: "length ?h + length (res_body res) < 2 ^ 64" using assms(8) by simp
  obtain r where "statusCode r = res_status res"
    "\<And>b. sized_response (message (res_status ?res) (h_ord lib (res_headers ?res)) b)"
    "\<And>b. parseHTTPResponse (message (res_status ?res) (h_ord lib (res_headers ?res)) b) =
       (if length b < length (res_body res) then partial_response r
        else full_response (message (res_status ?res) (h_ord lib (res_headers ?res)) b) (length ?h - 4) r
          (length (res_body res)) (length ?h + length (res_body res)))"
    using parse_message[OF assms(1) s(3,4), of "res_status ?res"] assms(6,7) s(2) len by metis
  moreover have "response_bytes lib cc req res need = ?h @ (if rq_method req = ''HEAD'' then [] else res_body res)"
    by (simp add: response_bytes_def Let_def s(1) m[of _ _ "res_body res"])
  moreover have "4 \<le> length ?h"
    by (simp add: message_def response_line_def CR_LF_def)
  ultimately show ?thesis using that m by metis
qed

text \<open>
  C12. A response the server sends with its content arrives: the load balancer's parser takes the bytes,
  and whatever follows them, for a complete response with the status and the body the handler gave,
  and its raw text is exactly what the server sent.
\<close>

theorem response_on_the_wire:
  assumes "iteration (h_ord lib)" "rq_ranges req = []" "rq_method req \<noteq> ''HEAD''" "fields_valid (res_headers res)"
    "\<not> headers_has (res_headers res) ''Content-Length''" "0 \<le> res_status res" "res_status res < 2 ^ 31"
    "send_results strm = []" "length (response_bytes lib cc req res True) < 2 ^ 63"
  shows "\<exists>raw. write_response_with_content lib strm cc req res = (True, strm\<lparr>sent := sent strm @ raw\<rparr>) \<and>
    rparse_status (parseHTTPResponse (raw @ rest)) = COMPLETE \<and>
    statusCode (response (parseHTTPResponse (raw @ rest))) = res_status res \<and>
    resp_body (response (parseHTTPResponse (raw @ rest))) = res_body res \<and>
    rawResponse (response (parseHTTPResponse (raw @ rest))) = raw"
proof -
  have "length (res_body res) \<le> length (response_bytes lib cc req res True)"
    using to_send_fields(1)[OF assms(2,4,5), of True lib cc] assms(3) by (simp add: response_bytes_def Let_def message_def)
  then have len: "length (response_bytes lib cc req res True) + length (res_body res) < 2 ^ 64"
    using assms(9) by simp
  obtain h r where p: "response_bytes lib cc req res True = h @ res_body res" "statusCode r = res_status res" "4 \<le> length h"
    "parseHTTPResponse (h @ res_body res @ rest) = full_response (h @ res_body res @ rest) (length h - 4) r
       (length (res_body res)) (length h + length (res_body res))"
  proof (rule parse_sent[OF assms(1,2,4,5) _ assms(6,7) len])
    fix h r
    assume "response_bytes lib cc req res True = h @ (if rq_method req = ''HEAD'' then [] else res_body res)"
      "statusCode r = res_status res" "4 \<le> length h"
      "\<And>b. parseHTTPResponse (h @ b) =
       (if length b < length (res_body res) then partial_response r
        else full_response (h @ b) (length h - 4) r (length (res_body res)) (length h + length (res_body res)))"
    then show ?thesis using that[of h r] assms(3) by simp
  qed simp
  have "write_response_with_content lib strm cc req res = (True, strm\<lparr>sent := sent strm @ h @ res_body res\<rparr>)"
    using write_response_core_bytes[OF assms(8)] p(1) by (simp add: write_response_with_content_def)
  with p show ?thesis
    by (intro exI[of _ "h @ res_body res"]) (simp add: full_response_def)
qed

definition plain_lib :: http_lib where
  "plain_lib = \<lparr>h_ord = (\<lambda>hs. hs), h_regex_match = (\<lambda>p s. if p = s then Some [s] else None),
     h_stod = (\<lambda>s. None), h_boundary = ''b''\<rparr>"

lemma plain_iteration: "iteration (h_ord plain_lib)"
  by (simp add: iteration_def plain_lib_def)

lemma response_on_the_wire_witness:
  "\<exists>raw. write_response_with_content plain_lib buffer_stream False new_request (new_response\<lparr>res_status := 200, res_body := ''hello''\<rparr>) =
      (True, buffer_stream\<lparr>sent := sent buffer_stream @ raw\<rparr>) \<and>
    resp_body (response (parseHTTPResponse (raw @ ''HTTP/1.1''))) = ''hello''"
proof -
  have "length (response_bytes plain_lib False new_request (new_response\<lparr>res_status := 200, res_body := ''hello''\<rparr>) True) < 2 ^ 63"
    by code_simp
  from response_on_the_wire[OF plain_iteration _ _ _ _ _ _ _ this, of buffer_stream "''HTTP/1.1''"] show ?thesis
    by (auto simp: new_request_def new_response_def fields_valid_def headers_has_def buffer_stream_def)
qed

end
