(* ===== verification/HttpClient.thy ===== *)
theory HttpClient
  imports RequestWire ResponseWire
begin

text \<open>
  The HTTP client of the library (httplib.h, class ClientImpl), as the recovery manager, the health
  checker, the command-line client and the load generator use it: writing a request, reading the
  response line, the headers and the content, and the connection that is kept or closed. Whether an
  open socket is alive, and the stream of a new connection, are arguments. Features the program never
  sets are left out: proxies, authentication, redirects, default headers, receivers and progress
  functions, content providers. The lemmas give the bytes of a request, and what the bytes of a
  response are read as.
\<close>

subsection \<open>The client\<close>

record ClientImpl =
  cl_host :: string
  cl_port :: int
  cl_keep_alive :: bool
  cl_path_encode :: bool
  cl_socket :: "stream option"

definition escape_abstract_namespace_unix_domain :: "string \<Rightarrow> string" where
  "escape_abstract_namespace_unix_domain s =
     (if 1 < length s \<and> s ! 0 = CHR 0x00 then s[0 := CHR ''@''] else s)"

definition new_client :: "string \<Rightarrow> int \<Rightarrow> ClientImpl" where
  "new_client host p = \<lparr>cl_host = escape_abstract_namespace_unix_domain host, cl_port = p, cl_keep_alive = False,
     cl_path_encode = True, cl_socket = None\<rparr>"

definition set_keep_alive :: "bool \<Rightarrow> ClientImpl \<Rightarrow> ClientImpl" where
  "set_keep_alive on c = c\<lparr>cl_keep_alive := on\<rparr>"

definition adjust_host_string :: "string \<Rightarrow> string" where
  "adjust_host_string host = (if str_find '':'' host \<noteq> None then ''['' @ host @ '']'' else host)"

definition host_and_port :: "ClientImpl \<Rightarrow> string" where
  "host_and_port c = adjust_host_string (cl_host c) @ '':'' @ string_of_int (cl_port c)"

record ClientResponse =
  cr_version :: string
  cr_status :: int
  cr_reason :: string
  cr_headers :: headers
  cr_trailers :: headers
  cr_body :: string

definition new_client_response :: ClientResponse where
  "new_client_response = \<lparr>cr_version = [], cr_status = -1, cr_reason = [], cr_headers = [], cr_trailers = [], cr_body = []\<rparr>"

text \<open>The errors of the library the modelled part returns; the callers only test for one.\<close>

datatype client_error = Connection_failed | Write_failed | Read_failed

subsection \<open>Writing a request\<close>

text \<open>A header that is set unless the request has it.\<close>

definition default_header :: "string \<Rightarrow> string \<Rightarrow> Request \<Rightarrow> Request" where
  "default_header key val req = (if has_header req key then req else request_set_header key val req)"

definition body_headers :: "Request \<Rightarrow> Request" where
  "body_headers req =
     (if rq_body req = []
      then if rq_method req = ''POST'' \<or> rq_method req = ''PUT'' \<or> rq_method req = ''PATCH''
           then request_set_header ''Content-Length'' ''0'' req else req
      else default_header ''Content-Length'' (string_of_nat (length (rq_body req)))
             (default_header ''Content-Type'' ''text/plain'' req))"

definition request_headers :: "ClientImpl \<Rightarrow> bool \<Rightarrow> Request \<Rightarrow> Request" where
  "request_headers c close_connection req =
     body_headers
       (default_header ''User-Agent'' ''cpp-httplib/0.26.0''
         (default_header ''Accept-Encoding'' []
           (default_header ''Accept'' ''*/*''
             (default_header ''Host'' (if cl_port c = 80 then cl_host c else host_and_port c)
               (if close_connection then default_header ''Connection'' ''close'' req else req)))))"

text \<open>The regular expression is \<open>[^?]+\?.*\<close>; a dot matches no line terminator.\<close>

definition append_query_params :: "string \<Rightarrow> params \<Rightarrow> string" where
  "append_query_params path ps =
     (let (before, rest) = (takeWhile (\<lambda>c. c \<noteq> CHR ''?'') path, dropWhile (\<lambda>c. c \<noteq> CHR ''?'') path);
          matched = before \<noteq> [] \<and> rest \<noteq> [] \<and> CHR 0x0A \<notin> set rest \<and> CHR 0x0D \<notin> set rest
      in path @ (if matched then ''&'' else ''?'') @ params_to_query_str ps)"

definition path_with_query :: "ClientImpl \<Rightarrow> Request \<Rightarrow> string \<times> params" where
  "path_with_query c req =
     (let (path_part, query_part) =
            (case str_find ''?'' (rq_path req) of
               Some pos \<Rightarrow> (take pos (rq_path req), drop (pos + 1) (rq_path req))
             | None \<Rightarrow> (rq_path req, []));
          path = (if cl_path_encode c then encode_path path_part else path_part);
          ps = parse_query_text query_part (rq_params req)
      in (if ps = [] then path else append_query_params path ps, ps))"

definition write_request ::
  "http_lib \<Rightarrow> ClientImpl \<Rightarrow> bool \<Rightarrow> Request \<Rightarrow> stream \<Rightarrow> bool \<times> Request \<times> stream" where
  "write_request lib c close_connection req strm =
     (let req1 = request_headers c close_connection req;
          (path, ps) = path_with_query c req1;
          req2 = req1\<lparr>rq_params := ps\<rparr>;
          bstrm = snd (write_headers (h_ord lib) (snd (write_request_line buffer_stream (rq_method req2) path)) (rq_headers req2));
          (ok, strm1) = write_data strm (get_buffer bstrm)
      in if \<not> ok then (False, req2, strm1)
         else if rq_body req2 = [] then (True, req2, strm1)
         else (let (ok2, strm2) = write_data strm1 (rq_body req2) in (ok2, req2, strm2)))"

subsection \<open>Reading a response\<close>

text \<open>The regular expression \<open>(HTTP/1\.[01]) (\d{3})(?: (.*?))?\r\n\<close> on a whole line.\<close>

definition match_response_line :: "string \<Rightarrow> (string \<times> int \<times> string) option" where
  "match_response_line l =
     (let v = take 8 l; code = take 3 (drop 9 l); rest = drop 12 l; reason = drop 1 (take (length rest - 2) rest)
      in if (v = ''HTTP/1.0'' \<or> v = ''HTTP/1.1'') \<and> take 1 (drop 8 l) = '' '' \<and> length code = 3 \<and> list_all is_digit code \<and>
            (rest = CR_LF \<or>
             3 \<le> length rest \<and> hd rest = CHR '' '' \<and> drop (length rest - 2) rest = CR_LF \<and>
             CHR 0x0A \<notin> set reason \<and> CHR 0x0D \<notin> set reason)
         then Some (v, int (digits_val code), reason) else None)"

definition with_response_line :: "string \<times> int \<times> string \<Rightarrow> ClientResponse \<Rightarrow> ClientResponse" where
  "with_response_line m res =
     (let (v, code, reason) = m in res\<lparr>cr_version := v, cr_status := code, cr_reason := reason\<rparr>)"

text \<open>The loop that ignores \<open>100 Continue\<close>.\<close>

function skip_continue :: "line_reader \<Rightarrow> stream \<Rightarrow> ClientResponse \<Rightarrow> bool \<times> ClientResponse \<times> stream" where
  "skip_continue lr s res =
     (if cr_status res = 100
      then (let (ok, lr1, s1) = line_getline lr s
            in if \<not> ok then (False, res, s1)
               else (let (ok2, lr2, s2) = line_getline lr1 s1
                     in if \<not> ok2 then (False, res, s2)
                        else (case match_response_line (line_c_str lr2) of
                                None \<Rightarrow> (False, res, s2)
                              | Some m \<Rightarrow> skip_continue lr2 s2 (with_response_line m res))))
      else (True, res, s))"
  by pat_completeness auto
termination
  by (relation "measure (\<lambda>(lr, s, res). length (unread s))")
     (auto dest!: line_getline_shrinks[OF sym] intro: less_trans)

declare skip_continue.simps [simp del]

definition read_response_line :: "stream \<Rightarrow> Request \<Rightarrow> bool \<times> ClientResponse \<times> stream" where
  "read_response_line s req =
     (let (ok, lr, s1) = line_getline (line_reader 2048) s
      in if \<not> ok then (False, new_client_response, s1)
         else (case match_response_line (line_c_str lr) of
                 None \<Rightarrow> (rq_method req = ''CONNECT'', new_client_response, s1)
               | Some m \<Rightarrow> skip_continue lr s1 (with_response_line m new_client_response)))"

text \<open>\<open>std::string::max_size\<close> on a 64-bit machine.\<close>

definition string_max_size :: nat where
  "string_max_size = 2 ^ 63 - 1"

definition client_read_content ::
  "http_lib \<Rightarrow> Request \<Rightarrow> ClientResponse \<Rightarrow> stream \<Rightarrow> (client_error + ClientResponse) \<times> stream" where
  "client_read_content lib req res s =
     (if cr_status res \<noteq> 204 \<and> rq_method req \<noteq> ''HEAD'' \<and> rq_method req \<noteq> ''CONNECT''
      then if headers_has (cr_headers res) ''Content-Length'' \<and>
              string_max_size < fst (get_header_value_u64 (h_ord lib) (cr_headers res) ''Content-Length'' 0)
           then (Inl Read_failed, s)
           else if cr_status res \<noteq> 304
           then (case read_content append_receiver (h_ord lib) (cr_headers res) (2 ^ 64 - 1) [] s of
                   (None, content, trailers, s') \<Rightarrow> (Inr (res\<lparr>cr_body := content, cr_trailers := trailers\<rparr>), s')
                 | (Some _, _, _, s') \<Rightarrow> (Inl Read_failed, s'))
           else (Inr res, s)
      else (Inr res, s))"

definition client_process_request ::
  "http_lib \<Rightarrow> ClientImpl \<Rightarrow> bool \<Rightarrow> Request \<Rightarrow> stream \<Rightarrow> (client_error + ClientResponse) \<times> stream" where
  "client_process_request lib c close_connection req s =
     (let (ok, req', s1) = write_request lib c close_connection req s
      in if \<not> ok then (Inl Write_failed, s1)
         else (let (ok2, res, s2) = read_response_line s1 req'
               in if \<not> ok2 then (Inl Read_failed, s2)
                  else (let (ok3, hs, s3) = read_headers s2 []
                        in if \<not> ok3 then (Inl Read_failed, s3)
                           else client_read_content lib req' (res\<lparr>cr_headers := hs\<rparr>) s3)))"

subsection \<open>A request\<close>

text \<open>Whether the response makes the client close its socket.\<close>

definition response_closes :: "http_lib \<Rightarrow> ClientResponse \<Rightarrow> bool" where
  "response_closes lib res \<longleftrightarrow>
     get_header_value (h_ord lib) (cr_headers res) ''Connection'' [] = ''close'' \<or>
     cr_version res = ''HTTP/1.0'' \<and> cr_reason res \<noteq> ''Connection established''"

definition client_handle_request ::
  "http_lib \<Rightarrow> ClientImpl \<Rightarrow> bool \<Rightarrow> Request \<Rightarrow> stream \<Rightarrow> (client_error + ClientResponse) \<times> bool \<times> stream" where
  "client_handle_request lib c close_connection req s =
     (if rq_path req = [] then (Inl Connection_failed, False, s)
      else (case client_process_request lib c close_connection req s of
              (Inl e, s') \<Rightarrow> (Inl e, False, s')
            | (Inr res, s') \<Rightarrow> (Inr res, response_closes lib res, s')))"

text \<open>The socket is used again if it is alive, and replaced otherwise; afterwards it is kept or closed.\<close>

definition send_client_request ::
  "http_lib \<Rightarrow> bool \<Rightarrow> stream option \<Rightarrow> Request \<Rightarrow> ClientImpl \<Rightarrow> (client_error + ClientResponse) \<times> ClientImpl" where
  "send_client_request lib is_alive connection req c =
     (let socket = (case cl_socket c of Some s \<Rightarrow> if is_alive then Some s else connection | None \<Rightarrow> connection)
      in case socket of
           None \<Rightarrow> (Inl Connection_failed, c\<lparr>cl_socket := None\<rparr>)
         | Some s \<Rightarrow>
             (let close_connection = \<not> cl_keep_alive c;
                  (r, closed, s') = client_handle_request lib c close_connection req (new_socket_stream s)
              in (r, c\<lparr>cl_socket := (if closed \<or> close_connection \<or> (\<exists>e. r = Inl e) then None else Some s')\<rparr>)))"

definition client_Get :: "string \<Rightarrow> Request" where
  "client_Get path = new_request\<lparr>rq_method := ''GET'', rq_path := path\<rparr>"

definition send_with_body :: "string \<Rightarrow> string \<Rightarrow> string \<Rightarrow> string \<Rightarrow> Request" where
  "send_with_body m path body content_type =
     (let req = new_request\<lparr>rq_method := m, rq_path := path\<rparr>;
          req1 = (if content_type \<noteq> [] then request_set_header ''Content-Type'' content_type req else req)
      in req1\<lparr>rq_body := body\<rparr>)"

definition client_Post :: "string \<Rightarrow> string \<Rightarrow> string \<Rightarrow> Request" where
  "client_Post path body content_type = send_with_body ''POST'' path body content_type"

definition client_Put :: "string \<Rightarrow> string \<Rightarrow> string \<Rightarrow> Request" where
  "client_Put path body content_type = send_with_body ''PUT'' path body content_type"

definition client_Delete :: "string \<Rightarrow> Request" where
  "client_Delete path = send_with_body ''DELETE'' path [] []"

subsection \<open>The bytes of a request\<close>

lemma default_header_fields:
  "rq_method (default_header key val req) = rq_method req" "rq_path (default_header key val req) = rq_path req"
  "rq_params (default_header key val req) = rq_params req" "rq_body (default_header key val req) = rq_body req"
  "rq_method (body_headers req) = rq_method req" "rq_path (body_headers req) = rq_path req"
  "rq_params (body_headers req) = rq_params req" "rq_body (body_headers req) = rq_body req"
  by (simp_all add: default_header_def body_headers_def request_set_header_def)

lemma request_headers_fields:
  "rq_method (request_headers c cc req) = rq_method req" "rq_path (request_headers c cc req) = rq_path req"
  "rq_params (request_headers c cc req) = rq_params req" "rq_body (request_headers c cc req) = rq_body req"
  by (simp_all add: request_headers_def default_header_fields)

lemma write_request_bytes:
  assumes "send_results s = []" "CHR ''?'' \<notin> set (rq_path req)" "rq_params req = []" "cl_path_encode c"
  shows "write_request lib c cc req s = (True, request_headers c cc req,
    s\<lparr>sent := sent s @ head_text (rq_method req) (encode_path (rq_path req))
         (h_ord lib (rq_headers (request_headers c cc req))) @ rq_body req\<rparr>)"
proof -
  have "path_with_query c (request_headers c cc req) = (encode_path (rq_path req), [])"
    using assms(2-4) by (simp add: path_with_query_def request_headers_fields str_find_single_None[THEN iffD2] parse_query_Nil)
  moreover have "(request_headers c cc req)\<lparr>rq_params := []\<rparr> = request_headers c cc req"
    using assms(3) request_headers_fields(3)[of c cc req] by simp
  ultimately show ?thesis
    using assms(1)
    by (simp add: write_request_def Let_def request_headers_fields write_request_line_def write_headers_def buffer_stream_def
        stream_write_def write_header_lines_buffer get_buffer_def write_data_all head_text_def request_line_text_def)
qed

subsection \<open>What a response is read as\<close>

lemma three_digits:
  assumes "100 \<le> st" "st < 1000"
  obtains a b c where "string_of_int st = [a, b, c]" "is_digit a" "is_digit b" "is_digit c" "int (digits_val [a, b, c]) = st"
proof -
  let ?n = "nat st"
  have "100 \<le> ?n" "?n < 1000" using assms by auto
  then have n: "\<not> ?n < 10" "\<not> ?n div 10 < 10" "?n div 10 div 10 < 10" by auto
  have "string_of_nat ?n = [char_of (48 + ?n div 10 div 10), char_of (48 + ?n div 10 mod 10), char_of (48 + ?n mod 10)]"
    using n by (simp del: div_less_dividend add: string_of_nat.simps[of ?n] string_of_nat.simps[of "?n div 10"] string_of_nat.simps[of "?n div 10 div 10"])
  then obtain a b c where d: "string_of_nat ?n = [a, b, c]" by blast
  then have "digits_val [a, b, c] = ?n" using digits_val_string_of_nat[of ?n] by simp
  moreover have "\<forall>x \<in> {a, b, c}. is_digit x" using string_of_nat_digits[of _ ?n] d by auto
  ultimately show ?thesis using that[of a b c] d n by (simp add: string_of_int_def)
qed

lemma match_written_line:
  assumes "100 \<le> st" "st < 1000"
  shows "match_response_line (response_line st) = Some (''HTTP/1.1'', st, status_message st)"
proof -
  obtain a b c where d: "string_of_int st = [a, b, c]" "is_digit a" "is_digit b" "is_digit c" "int (digits_val [a, b, c]) = st"
    by (rule three_digits[OF assms])
  have l: "response_line st = ''HTTP/1.1'' @ '' '' @ [a, b, c] @ '' '' @ status_message st @ CR_LF"
    by (simp add: response_line_def d(1))
  let ?rest = "'' '' @ status_message st @ CR_LF"
  have "take 8 (response_line st) = ''HTTP/1.1''" "take 1 (drop 8 (response_line st)) = '' ''"
    "take 3 (drop 9 (response_line st)) = [a, b, c]" "drop 12 (response_line st) = ?rest"
    by (simp_all add: l)
  moreover have "length ?rest = length (status_message st) + 3" "drop (length ?rest - 2) ?rest = CR_LF"
    "drop 1 (take (length ?rest - 2) ?rest) = status_message st"
    by (simp_all add: CR_LF_def)
  ultimately show ?thesis
    using status_message_chars[of st] d(2-5) by (simp only: match_response_line_def Let_def) simp
qed

lemma response_line_read:
  "read_line en (response_line st @ r) = (True, response_line st, r)"
  "CHR 0x00 \<notin> set (response_line st)" if "100 \<le> st" "st < 1000"
proof -
  have l: "response_line st = status_text st @ CR_LF" by (simp add: response_line_def status_text_def)
  have "length (string_of_int st) \<le> 3" using that string_of_nat_bound[of 3 "nat st"] by (simp add: string_of_int_def)
  then have len: "length (status_text st) + 2 \<le> MAX_LINE_LENGTH"
    using status_message_length[of st] by (simp add: status_text_def MAX_LINE_LENGTH_def)
  have "str_find [CHR 0x0D, CHR 0x0A] (status_text st @ [CHR 0x0D, CHR 0x0A]) = Some (length (status_text st))"
    using status_text_chars[of st] by (intro str_find_crlf) simp
  from read_line_crlf[OF this len, of en r] show "read_line en (response_line st @ r) = (True, response_line st, r)"
    by (simp add: l CR_LF_def)
  have "\<forall>x \<in> set status_messages. CHR 0x00 \<notin> set (snd x)" by (simp add: status_messages_def)
  then have "CHR 0x00 \<notin> set m" if "map_of status_messages st = Some m" for m
    using map_of_SomeD[OF that] by (metis snd_conv)
  then have "CHR 0x00 \<notin> set (status_message st)" by (auto simp: status_message_def split: option.split)
  then show "CHR 0x00 \<notin> set (response_line st)"
    using string_of_int_chars[of "CHR 0x00" st] by (auto simp: response_line_def CR_LF_def is_digit_def)
qed

lemma small_fields:
  assumes "fields_valid hs" "headers_size hs \<le> 400"
  shows "\<forall>x \<in> set hs. field_ok x" "length hs \<le> HEADER_MAX_COUNT"
proof -
  have "length (header_line x) \<le> headers_size hs" if "x \<in> set hs" for x
    using that unfolding headers_size_def by (intro member_le_sum_list) auto
  with assms show "\<forall>x \<in> set hs. field_ok x"
    by (fastforce simp: field_ok_def fields_valid_def HEADER_MAX_LENGTH_def)
  have "4 * length hs \<le> headers_size hs" by (induction hs) (auto simp: headers_size_def header_line_def CR_LF_def)
  with assms(2) show "length hs \<le> HEADER_MAX_COUNT" by (simp add: HEADER_MAX_COUNT_def)
qed

text \<open>The response line and the headers of a written message.\<close>

lemma read_response_head:
  assumes "stream_ok s" "unread s = message st hs b" "100 < st" "st < 1000" "fields_valid hs" "headers_size hs \<le> 400"
  obtains s1 s2 where
    "read_response_line s req = (True, with_response_line (''HTTP/1.1'', st, status_message st) new_client_response, s1)"
    "read_headers s1 [] = (True, map decoded hs, s2)" "unread s2 = b" "same_end s s2"
proof -
  have st: "100 \<le> st" "st < 1000" using assms(3,4) by simp_all
  have "read_line (arrival_end s) (unread s) = (True, response_line st, concat (map header_line hs) @ CR_LF @ b)"
    unfolding assms(2) message_def using response_line_read(1)[OF st] by simp
  with assms(1) obtain lr s1 where s1: "line_getline (line_reader 2048) s = (True, lr, s1)"
    "line_text lr = response_line st" "unread s1 = concat (map header_line hs) @ CR_LF @ b" "same_end s s1"
    by (cases rule: line_getline_read_line[where lr = "line_reader 2048"]) (auto simp: same_end_def)
  have "line_c_str lr = response_line st"
    using s1(2) response_line_read(2)[OF st] by (auto simp: line_c_str_def takeWhile_eq_all_conv)
  then have "read_response_line s req = (True, with_response_line (''HTTP/1.1'', st, status_message st) new_client_response, s1)"
    using s1(1) match_written_line[OF st] assms(3)
    by (simp add: read_response_line_def skip_continue.simps[of lr] with_response_line_def)
  moreover note f = small_fields[OF assms(5,6)]
  obtain s2 where "read_headers s1 [] = (True, map decoded hs, s2)" "unread s2 = b" "same_end s1 s2"
    using read_headers_loop_fields[OF _ s1(3) f(1), of 0 "line_reader 2048" "[]"] f(2) s1(4)
    by (auto simp: read_headers_def same_end_def)
  ultimately show ?thesis using that s1(4) by (simp add: same_end_def)
qed

lemma decoded_names:
  "headers_has (map decoded hs) key = headers_has hs key"
  "filter (\<lambda>(n, v). case_equal n key) (map decoded hs) = map decoded (filter (\<lambda>(n, v). case_equal n key) hs)"
  by (simp_all add: headers_has_def list_ex_iff decoded_def filter_map comp_def case_prod_beta')

lemma decoded_length: "decoded (''Content-Length'', string_of_nat n) = (''Content-Length'', string_of_nat n)"
proof -
  have "CHR 0x25 \<notin> set (string_of_nat n)" using string_of_nat_digits[of "CHR 0x25" n] by (auto simp: is_digit_def)
  then show ?thesis by (simp add: decoded_def decode_path_component_plain)
qed

text \<open>The content of a message is read whole, and nothing after it.\<close>

lemma read_message_content:
  assumes "iteration (h_ord lib)" "length body < 2 ^ 62"
    "filter (\<lambda>(n, v). case_equal n ''Content-Length'') hs = [(''Content-Length'', string_of_nat (length body))]"
    "\<not> headers_has hs ''Transfer-Encoding''" "\<not> headers_has hs ''Content-Encoding''"
    "stream_ok s" "unread s = body @ r" "cr_headers res = map decoded hs" "cr_status res \<notin> {204, 304}"
    "rq_method req \<noteq> ''HEAD''" "rq_method req \<noteq> ''CONNECT''"
  obtains s' where "client_read_content lib req res s = (Inr (res\<lparr>cr_body := body, cr_trailers := []\<rparr>), s')" "unread s' = r" "same_end s s'"
proof -
  let ?hs = "map decoded hs"
  have f: "filter (\<lambda>(n, v). case_equal n ''Content-Length'') ?hs = [(''Content-Length'', string_of_nat (length body))]"
    by (simp add: decoded_names(2) assms(3) decoded_length del: filter_map)
  then have "header_values ?hs ''Content-Length'' \<noteq> []" by (simp add: header_values_def del: filter_map)
  then have has: "headers_has ?hs ''Content-Length''" by (simp only: header_values_has not_not)
  have fr: "framed m ?hs body" for m using f by (simp add: framed_def)
  have b: "length body < 2 ^ 63" using assms(2) by simp
  note len = content_length_value(1)[OF assms(1) fr b has]
  have "get_header_value (h_ord lib) ?hs ''Transfer-Encoding'' [] = []"
    "get_header_value (h_ord lib) ?hs ''Content-Encoding'' [] = []"
    using assms(4,5) by (simp_all add: get_header_value_none[OF assms(1)] header_values_has decoded_names(1))
  then have "\<not> is_chunked_transfer_encoding (h_ord lib) ?hs" "\<not> encoding_unsupported (h_ord lib) ?hs"
    by (simp_all add: is_chunked_transfer_encoding_def case_equal_def encoding_unsupported_def Let_def)
  with read_content_sized[OF _ _ has len _ assms(6,7), of "2 ^ 64 - 1"] b obtain s' where
    "read_content append_receiver (h_ord lib) ?hs (2 ^ 64 - 1) [] s = (None, body, [], s')" "unread s' = r" "same_end s s'"
    by auto
  with that[of s'] show ?thesis
    using assms(8-11) len[of 0] b by (simp add: client_read_content_def string_max_size_def)
qed

definition request_bytes :: "http_lib \<Rightarrow> ClientImpl \<Rightarrow> Request \<Rightarrow> string" where
  "request_bytes lib c req = sent (snd (snd (write_request lib c (\<not> cl_keep_alive c) req buffer_stream)))"

text \<open>A request on a connection on which the server's answer arrives.\<close>

lemma client_request_reads:
  assumes "iteration (h_ord lib)" "is_message False raw res" "200 \<le> res_status res" "res_status res < 600"
    "res_status res \<notin> {204, 304}" "length (res_body res) < 2 ^ 62"
    "stream_ok conn" "send_results conn = []" "concat (arriving conn) = raw @ rest"
    "rq_path req \<noteq> []" "CHR ''?'' \<notin> set (rq_path req)" "rq_params req = []" "cl_path_encode c"
    "rq_method req \<noteq> ''HEAD''" "rq_method req \<noteq> ''CONNECT''"
  shows "\<exists>r. fst (send_client_request lib False (Some conn) req c) = Inr r \<and>
    cr_status r = res_status res \<and> cr_body r = res_body res"
proof -
  let ?cc = "\<not> cl_keep_alive c"
  let ?s = "new_socket_stream conn"
  let ?req = "request_headers c ?cc req"
  obtain hs where hs: "raw = message (res_status res) hs (res_body res)" "fields_valid hs" "headers_size hs \<le> 400"
    "filter (\<lambda>(n, v). case_equal n ''Content-Length'') hs = [(''Content-Length'', string_of_nat (length (res_body res)))]"
    "\<not> headers_has hs ''Transfer-Encoding''" "\<not> headers_has hs ''Content-Encoding''"
    using assms(2) by (auto simp: is_message_def)
  have "send_results ?s = []" using assms(8) by (simp add: new_socket_stream_def)
  note w = write_request_bytes[OF this assms(11-13), of lib ?cc]
  define s1 where "s1 = ?s\<lparr>sent := sent ?s @ head_text (rq_method req) (encode_path (rq_path req))
         (h_ord lib (rq_headers ?req)) @ rq_body req\<rparr>"
  have s1: "stream_ok s1" "unread s1 = message (res_status res) hs (res_body res @ rest)"
    using assms(7,9) hs(1) by (simp_all add: s1_def stream_ok_def unread_def new_socket_stream_def message_def)
  obtain s2 s3 where r: "read_response_line s1 ?req =
      (True, with_response_line (''HTTP/1.1'', res_status res, status_message (res_status res)) new_client_response, s2)"
    "read_headers s2 [] = (True, map decoded hs, s3)" "unread s3 = res_body res @ rest" "same_end s1 s3"
    by (rule read_response_head[OF s1 _ _ hs(2,3), of ?req]) (use assms(3,4) in simp_all)
  let ?res = "(with_response_line (''HTTP/1.1'', res_status res, status_message (res_status res)) new_client_response)
    \<lparr>cr_headers := map decoded hs\<rparr>"
  obtain s4 where c: "client_read_content lib ?req ?res s3 = (Inr (?res\<lparr>cr_body := res_body res, cr_trailers := []\<rparr>), s4)"
    by (rule read_message_content[OF assms(1,6) hs(4-6) _ r(3), of ?res ?req])
       (use r(4) assms(5,14,15) in \<open>simp_all add: same_end_def request_headers_fields with_response_line_def\<close>)
  have "client_process_request lib c ?cc req ?s = (Inr (?res\<lparr>cr_body := res_body res, cr_trailers := []\<rparr>), s4)"
    unfolding client_process_request_def w s1_def[symmetric] using r(1,2) c by simp
  with assms(10) have "fst (client_handle_request lib c ?cc req ?s) = Inr (?res\<lparr>cr_body := res_body res, cr_trailers := []\<rparr>)"
    by (simp add: client_handle_request_def)
  then show ?thesis
    by (auto simp: send_client_request_def with_response_line_def split: prod.split option.split)
qed

end
