(* ===== verification/LruCache.thy ===== *)
theory LruCache
  imports Prelude
begin

text \<open>
  The key-value server's cache, \<open>LRUCache\<close> of kvcache.h: a \<open>std::list\<close> of key-value pairs in
  order of last use and an \<open>unordered_map\<close> from keys to iterators into the list. An iterator is
  the identity of a list node; dereferencing, splicing or erasing an iterator that is in no list
  and \<open>back()\<close> of an empty list are undefined behaviour, the value \<open>None\<close>. The operations keep
  the two containers consistent (\<open>lru_inv\<close>), never run into undefined behaviour and refine an
  association list in order of last use (\<open>spec_read\<close> and its companions); the mutex makes each
  operation one step. The locale \<open>cache_store\<close> states what a client of the cache relies on.
\<close>

subsection \<open>State\<close>

record lru_cache =
  capacity :: nat
  cache_list :: "(nat \<times> string \<times> string) list"
  cache_map :: "string \<rightharpoonup> nat"
  fresh_node :: nat

text \<open>The constructor; \<open>fresh_node\<close> is the identity the allocator gives the next list node.\<close>

definition LRUCache :: "nat \<Rightarrow> lru_cache" where
  "LRUCache cap = \<lparr>capacity = cap, cache_list = [], cache_map = Map.empty, fresh_node = 0\<rparr>"

subsection \<open>Operations\<close>

text \<open>\<open>cache_list.splice(cache_list.begin(), cache_list, it)\<close>: the node moves to the front.\<close>

definition splice_front :: "nat \<Rightarrow> (nat \<times> 'a) list \<Rightarrow> (nat \<times> 'a) list option" where
  "splice_front it xs = map_option (\<lambda>p. (it, p) # AList.delete it xs) (map_of xs it)"

definition read_key :: "lru_cache \<Rightarrow> string \<Rightarrow> (string \<times> lru_cache) option" where
  "read_key c key =
     (case cache_map c key of
        None \<Rightarrow> Some ('''', c)
      | Some it \<Rightarrow>
          (case splice_front it (cache_list c) of
             None \<Rightarrow> None
           | Some xs \<Rightarrow>
               (case map_of xs it of
                  None \<Rightarrow> None
                | Some (k, v) \<Rightarrow> Some (v, c\<lparr>cache_list := xs\<rparr>))))"

definition create_key :: "lru_cache \<Rightarrow> string \<Rightarrow> string \<Rightarrow> (int \<times> lru_cache) option" where
  "create_key c key value =
     (case cache_map c key of
        Some _ \<Rightarrow> Some (-1, c)
      | None \<Rightarrow>
          (case
             (if capacity c \<le> length (cache_list c)
              then if cache_list c = [] then None
                   else Some (c\<lparr>cache_map := (cache_map c)(fst (snd (last (cache_list c))) := None),
                                cache_list := butlast (cache_list c)\<rparr>)
              else Some c)
           of None \<Rightarrow> None
            | Some c1 \<Rightarrow>
                Some (0, c1\<lparr>cache_list := (fresh_node c1, key, value) # cache_list c1,
                            cache_map := (cache_map c1)(key \<mapsto> fresh_node c1),
                            fresh_node := Suc (fresh_node c1)\<rparr>)))"

definition update_key :: "lru_cache \<Rightarrow> string \<Rightarrow> string \<Rightarrow> (int \<times> lru_cache) option" where
  "update_key c key value =
     (case cache_map c key of
        None \<Rightarrow> Some (-1, c)
      | Some it \<Rightarrow>
          (case map_of (cache_list c) it of
             None \<Rightarrow> None
           | Some (k, v) \<Rightarrow>
               (case splice_front it (AList.update it (k, value) (cache_list c)) of
                  None \<Rightarrow> None
                | Some xs \<Rightarrow> Some (0, c\<lparr>cache_list := xs\<rparr>))))"

definition delete_key :: "lru_cache \<Rightarrow> string \<Rightarrow> (int \<times> lru_cache) option" where
  "delete_key c key =
     (case cache_map c key of
        Some it \<Rightarrow>
          (case map_of (cache_list c) it of
             None \<Rightarrow> None
           | Some _ \<Rightarrow> Some (0, c\<lparr>cache_list := AList.delete it (cache_list c),
                                  cache_map := (cache_map c)(key := None)\<rparr>))
      | None \<Rightarrow> Some (-1, c))"

subsection \<open>The abstract cache\<close>

text \<open>Key-value pairs, the most recently used first.\<close>

definition abs_cache :: "lru_cache \<Rightarrow> (string \<times> string) list" where
  "abs_cache c = map snd (cache_list c)"

definition spec_read :: "string \<Rightarrow> (string \<times> string) list \<Rightarrow> string \<times> (string \<times> string) list" where
  "spec_read k xs =
     (case map_of xs k of None \<Rightarrow> ('''', xs) | Some v \<Rightarrow> (v, (k, v) # AList.delete k xs))"

definition spec_create ::
  "nat \<Rightarrow> string \<Rightarrow> string \<Rightarrow> (string \<times> string) list \<Rightarrow> int \<times> (string \<times> string) list" where
  "spec_create cap k v xs =
     (if map_of xs k \<noteq> None then (-1, xs)
      else (0, (k, v) # (if cap \<le> length xs then butlast xs else xs)))"

definition spec_update ::
  "string \<Rightarrow> string \<Rightarrow> (string \<times> string) list \<Rightarrow> int \<times> (string \<times> string) list" where
  "spec_update k v xs = (if map_of xs k = None then (-1, xs) else (0, (k, v) # AList.delete k xs))"

definition spec_delete :: "string \<Rightarrow> (string \<times> string) list \<Rightarrow> int \<times> (string \<times> string) list" where
  "spec_delete k xs = (if map_of xs k = None then (-1, xs) else (0, AList.delete k xs))"

subsection \<open>Invariant\<close>

definition lru_inv :: "lru_cache \<Rightarrow> bool" where
  "lru_inv c \<longleftrightarrow>
     0 < capacity c \<and> length (cache_list c) \<le> capacity c \<and>
     distinct (map fst (cache_list c)) \<and> distinct (map fst (abs_cache c)) \<and>
     (\<forall>n \<in> fst ` set (cache_list c). n < fresh_node c) \<and>
     (\<forall>k it. cache_map c k = Some it \<longleftrightarrow> (\<exists>v. (it, k, v) \<in> set (cache_list c)))"

lemma lru_inv_capacity: "lru_inv c \<Longrightarrow> 0 < capacity c"
  and lru_inv_length: "lru_inv c \<Longrightarrow> length (cache_list c) \<le> capacity c"
  and lru_inv_nodes: "lru_inv c \<Longrightarrow> distinct (map fst (cache_list c))"
  and lru_inv_keys: "lru_inv c \<Longrightarrow> distinct (map fst (abs_cache c))"
  and lru_inv_map:
    "lru_inv c \<Longrightarrow> cache_map c k = Some it \<longleftrightarrow> (\<exists>v. (it, k, v) \<in> set (cache_list c))"
  by (simp_all add: lru_inv_def)

lemmas lru_invD = lru_inv_capacity lru_inv_length lru_inv_nodes lru_inv_keys

lemma lru_inv_fresh: "lru_inv c \<Longrightarrow> (n, p) \<in> set (cache_list c) \<Longrightarrow> n < fresh_node c"
  by (force simp: lru_inv_def)

text \<open>A node is the one the map has for a key exactly if it holds that key.\<close>

lemma lru_node_key:
  assumes "lru_inv c" "cache_map c k = Some it" "(n, k', v') \<in> set (cache_list c)"
  shows "n = it \<longleftrightarrow> k' = k"
proof
  from assms obtain v where v: "(it, k, v) \<in> set (cache_list c)"
    using lru_inv_map by blast
  show "k' = k" if "n = it"
    using distinct_fst_unique[OF lru_inv_nodes[OF assms(1)] v] assms(3) that by blast
  show "n = it" if "k' = k"
    using lru_inv_map[OF assms(1)] assms(2,3) that by (metis option.inject)
qed

lemma abs_cache_update [simp]: "abs_cache (c\<lparr>cache_list := xs\<rparr>) = map snd xs"
  by (simp add: abs_cache_def)

text \<open>A hit: the map's iterator is a live node that holds the key, and removing the node from the
  list is removing the key from the abstract cache.\<close>

lemma lru_hit:
  assumes inv: "lru_inv c" and hit: "cache_map c k = Some it"
  obtains v where "map_of (cache_list c) it = Some (k, v)" "map_of (abs_cache c) k = Some v"
    "map snd (AList.delete it (cache_list c)) = AList.delete k (abs_cache c)"
proof -
  from hit obtain v where v: "(it, k, v) \<in> set (cache_list c)"
    using lru_inv_map[OF inv] by blast
  note d = lru_inv_nodes[OF inv] and d' = lru_inv_keys[OF inv]
  have "(k, v) \<in> set (abs_cache c)" using v by (force simp: abs_cache_def)
  moreover have "map snd (AList.delete it (cache_list c)) = AList.delete k (abs_cache c)"
    by (auto dest: lru_node_key[OF inv hit] simp: delete_eq_filter abs_cache_def filter_map o_def intro!: arg_cong[of _ _ "map snd"] filter_cong)
  ultimately show ?thesis using that v d d' by simp
qed

lemma lru_miss: "lru_inv c \<Longrightarrow> cache_map c k = None \<Longrightarrow> map_of (abs_cache c) k = None"
  by (force simp: map_of_eq_None_iff abs_cache_def lru_inv_def)

lemma lru_hit_iff: "lru_inv c \<Longrightarrow> cache_map c k = None \<longleftrightarrow> map_of (abs_cache c) k = None"
  by (metis lru_hit lru_miss not_None_eq option.distinct(1))

lemma length_abs [simp]: "length (abs_cache c) = length (cache_list c)"
  by (simp add: abs_cache_def)

lemma lru_inv_LRUCache: "0 < cap \<Longrightarrow> lru_inv (LRUCache cap)"
  by (simp add: lru_inv_def LRUCache_def abs_cache_def)

lemma abs_LRUCache [simp]: "abs_cache (LRUCache cap) = []"
  by (simp add: LRUCache_def abs_cache_def)

subsection \<open>The operations keep the invariant and refine the abstract cache\<close>

text \<open>Putting a node with the key's identity and key at the front.\<close>

lemma lru_inv_move:
  assumes inv: "lru_inv c" and hit: "cache_map c k = Some it"
  shows "lru_inv (c\<lparr>cache_list := (it, k, v) # AList.delete it (cache_list c)\<rparr>)"
proof -
  from inv hit obtain w where w: "map_of (cache_list c) it = Some (k, w)"
    and del: "map snd (AList.delete it (cache_list c)) = AList.delete k (abs_cache c)"
    by (rule lru_hit)
  have mem: "(it, k, w) \<in> set (cache_list c)" using w by (rule map_of_SomeD)
  have len: "length (AList.delete it (cache_list c)) < length (cache_list c)"
    using mem by (simp add: delete_eq_filter length_filter_less)
  have abs: "abs_cache (c\<lparr>cache_list := (it, k, v) # AList.delete it (cache_list c)\<rparr>)
      = (k, v) # AList.delete k (abs_cache c)"
    by (simp add: del)
  have map: "cache_map c k' = Some it' \<longleftrightarrow>
      (\<exists>v'. (it', k', v') \<in> set ((it, k, v) # AList.delete it (cache_list c)))" for k' it'
    unfolding lru_inv_map[OF inv]
    using mem lru_node_key[OF inv hit] by (auto simp: set_delete_iff) blast+
  show ?thesis
    using inv len map lru_inv_fresh[OF inv mem] unfolding lru_inv_def abs
    by (auto simp: set_delete_iff distinct_delete)
qed

lemma read_key_refines:
  assumes inv: "lru_inv c"
  shows "\<exists>v c'. read_key c k = Some (v, c') \<and> lru_inv c' \<and> capacity c' = capacity c \<and>
           spec_read k (abs_cache c) = (v, abs_cache c')"
proof (cases "cache_map c k")
  case None
  with inv show ?thesis by (simp add: read_key_def spec_read_def lru_miss)
next
  case (Some it)
  with inv obtain v where "map_of (cache_list c) it = Some (k, v)" "map_of (abs_cache c) k = Some v"
    "map snd (AList.delete it (cache_list c)) = AList.delete k (abs_cache c)"
    by (rule lru_hit)
  with Some show ?thesis
    by (simp add: read_key_def spec_read_def splice_front_def lru_inv_move[OF inv Some])
qed

lemma update_key_refines:
  assumes inv: "lru_inv c"
  shows "\<exists>r c'. update_key c k w = Some (r, c') \<and> lru_inv c' \<and> capacity c' = capacity c \<and>
           spec_update k w (abs_cache c) = (r, abs_cache c')"
proof (cases "cache_map c k")
  case None
  with inv show ?thesis by (simp add: update_key_def spec_update_def lru_miss)
next
  case (Some it)
  with inv obtain v where "map_of (cache_list c) it = Some (k, v)" "map_of (abs_cache c) k = Some v"
    "map snd (AList.delete it (cache_list c)) = AList.delete k (abs_cache c)"
    by (rule lru_hit)
  with Some show ?thesis
    by (simp add: update_key_def spec_update_def splice_front_def lru_inv_move[OF inv Some]
        AList.update_conv' AList.delete_update_same)
qed

lemma delete_key_refines:
  assumes inv: "lru_inv c"
  shows "\<exists>r c'. delete_key c k = Some (r, c') \<and> lru_inv c' \<and> capacity c' = capacity c \<and>
           spec_delete k (abs_cache c) = (r, abs_cache c')"
proof (cases "cache_map c k")
  case None
  with inv show ?thesis by (simp add: delete_key_def spec_delete_def lru_miss)
next
  case (Some it)
  with inv obtain v where v: "map_of (cache_list c) it = Some (k, v)" "map_of (abs_cache c) k = Some v"
    and del: "map snd (AList.delete it (cache_list c)) = AList.delete k (abs_cache c)"
    by (rule lru_hit)
  let ?c = "c\<lparr>cache_list := AList.delete it (cache_list c), cache_map := (cache_map c)(k := None)\<rparr>"
  have abs: "abs_cache ?c = AList.delete k (abs_cache c)" by (simp add: abs_cache_def del[unfolded abs_cache_def])
  have map: "cache_map ?c k' = Some it' \<longleftrightarrow> (\<exists>v'. (it', k', v') \<in> set (cache_list ?c))" for k' it'
    using lru_node_key[OF inv Some] lru_inv_map[OF inv, of k' it'] by (auto simp: set_delete_iff)
  have "lru_inv ?c"
    using inv map le_trans[OF length_delete_le lru_inv_length[OF inv]] unfolding lru_inv_def abs
    by (auto simp: set_delete_iff distinct_delete)
  with Some v abs show ?thesis by (simp add: delete_key_def spec_delete_def)
qed

text \<open>Evicting the node at the back is deleting the key it holds.\<close>

lemma evict_is_delete:
  assumes inv: "lru_inv c" and ne: "cache_list c \<noteq> []"
  shows "delete_key c (fst (snd (last (cache_list c)))) =
    Some (0, c\<lparr>cache_map := (cache_map c)(fst (snd (last (cache_list c))) := None),
                cache_list := butlast (cache_list c)\<rparr>)"
proof -
  obtain xs n k v where xs: "cache_list c = xs @ [(n, k, v)]"
    using ne by (metis append_butlast_last_id prod.exhaust)
  have "n \<notin> fst ` set xs" using lru_inv_nodes[OF inv] xs by auto
  then have "AList.delete n (cache_list c) = xs" by (simp add: xs delete_notin delete_eq_filter[of n "xs @ _"] flip: delete_eq_filter)
  moreover have "cache_map c k = Some n" using lru_inv_map[OF inv] xs by auto
  moreover have "map_of (cache_list c) n = Some (k, v)"
    using map_of_set_conv[OF lru_inv_nodes[OF inv], of n "(k, v)"] by (auto simp: xs)
  ultimately show ?thesis by (simp add: delete_key_def xs)
qed

lemma lru_inv_insert:
  assumes inv: "lru_inv c" and room: "length (cache_list c) < capacity c"
    and miss: "cache_map c k = None"
  shows "lru_inv (c\<lparr>cache_list := (fresh_node c, k, v) # cache_list c,
                  cache_map := (cache_map c)(k \<mapsto> fresh_node c), fresh_node := Suc (fresh_node c)\<rparr>)"
    (is "lru_inv ?c")
proof -
  have abs: "abs_cache ?c = (k, v) # abs_cache c" by (simp add: abs_cache_def)
  have fresh: "fresh_node c \<notin> fst ` set (cache_list c)"
    using lru_inv_fresh[OF inv] by force
  have notin: "k \<notin> fst ` set (abs_cache c)"
    using lru_miss[OF inv miss] by (simp add: map_of_eq_None_iff)
  have map: "cache_map ?c k' = Some it' \<longleftrightarrow> (\<exists>v'. (it', k', v') \<in> set (cache_list ?c))" for k' it'
    using lru_inv_map[OF inv, of k' it'] miss fresh lru_inv_map[OF inv, of k it'] by force
  show ?thesis
    using inv room fresh notin map lru_inv_fresh[OF inv] unfolding lru_inv_def abs
    by (auto simp: less_Suc_eq)
qed

lemma create_key_refines:
  assumes inv: "lru_inv c"
  shows "\<exists>r c'. create_key c k w = Some (r, c') \<and> lru_inv c' \<and> capacity c' = capacity c \<and>
           spec_create (capacity c) k w (abs_cache c) = (r, abs_cache c')"
proof (cases "cache_map c k")
  case (Some it)
  with inv show ?thesis
    by (auto simp: create_key_def spec_create_def lru_hit_iff[symmetric])
next
  case miss: None
  have mo: "map_of (abs_cache c) k = None" using inv miss by (rule lru_miss)
  show ?thesis
  proof (cases "capacity c \<le> length (cache_list c)")
    case False
    with miss mo show ?thesis
      using lru_inv_insert[OF inv _ miss, of w]
      by (simp add: create_key_def spec_create_def abs_cache_def)
  next
    case full: True
    with lru_inv_capacity[OF inv] have ne: "cache_list c \<noteq> []" by auto
    let ?c = "c\<lparr>cache_map := (cache_map c)(fst (snd (last (cache_list c))) := None),
                cache_list := butlast (cache_list c)\<rparr>"
    have inv1: "lru_inv ?c"
      using delete_key_refines[OF inv, of "fst (snd (last (cache_list c)))"] evict_is_delete[OF inv ne]
      by auto
    have room: "length (cache_list ?c) < capacity ?c"
      using lru_inv_length[OF inv] lru_inv_capacity[OF inv] by simp
    from miss have "cache_map ?c k = None" by simp
    from lru_inv_insert[OF inv1 room this, of w] miss mo full ne show ?thesis
      by (simp add: create_key_def spec_create_def abs_cache_def map_butlast)
  qed
qed

subsection \<open>What a client relies on\<close>

text \<open>What the cache answers for a key.\<close>

definition cache_lookup :: "lru_cache \<Rightarrow> string \<Rightarrow> string option" where
  "cache_lookup c = map_of (abs_cache c)"

text \<open>
  The contract of a bounded cache in front of a store: reading does not change what is cached,
  creating a key caches it and may drop others, deleting a key drops it. The client's lemmas say
  that a cache that agrees with the store \<open>m\<close> (\<open>lookup c \<subseteq>\<^sub>m m\<close>) keeps agreeing.
\<close>

locale cache_store =
  fixes lookup :: "'c \<Rightarrow> string \<Rightarrow> string option"
    and inv :: "'c \<Rightarrow> bool"
    and rd :: "'c \<Rightarrow> string \<Rightarrow> (string \<times> 'c) option"
    and cr :: "'c \<Rightarrow> string \<Rightarrow> string \<Rightarrow> (int \<times> 'c) option"
    and dl :: "'c \<Rightarrow> string \<Rightarrow> (int \<times> 'c) option"
  assumes rd_ok: "inv c \<Longrightarrow> \<exists>c'. rd c k = Some (case lookup c k of None \<Rightarrow> '''' | Some v \<Rightarrow> v, c') \<and>
      inv c' \<and> lookup c' = lookup c"
    and cr_ok: "inv c \<Longrightarrow> \<exists>r c'. cr c k v = Some (r, c') \<and> inv c' \<and>
      (if lookup c k = None then r = 0 \<and> lookup c' \<subseteq>\<^sub>m (lookup c)(k \<mapsto> v) \<and> lookup c' k = Some v
       else r = -1 \<and> lookup c' = lookup c)"
    and dl_ok: "inv c \<Longrightarrow> \<exists>r c'. dl c k = Some (r, c') \<and> inv c' \<and> lookup c' = (lookup c)(k := None)"
begin

lemma rd_coherent:
  assumes "inv c" and "lookup c \<subseteq>\<^sub>m m"
  obtains v c' where "rd c k = Some (v, c')" "inv c'" "lookup c' \<subseteq>\<^sub>m m" "v \<noteq> '''' \<Longrightarrow> m k = Some v"
    "v = '''' \<Longrightarrow> lookup c' k = None \<or> lookup c' k = Some ''''"
  using rd_ok[OF assms(1), of k] assms(2)
  by (auto simp: map_le_def split: option.splits) (metis domI)+

lemma cr_coherent:
  assumes "inv c" and "lookup c \<subseteq>\<^sub>m m" and "m k = Some v"
  obtains r c' where "cr c k v = Some (r, c')" "inv c'" "lookup c' \<subseteq>\<^sub>m m"
proof -
  have "(lookup c)(k \<mapsto> v) \<subseteq>\<^sub>m m" using assms(2,3) by (auto simp: map_le_def)
  then show ?thesis
    using cr_ok[OF assms(1), of k v] assms(2) that by (auto split: if_splits dest: map_le_trans)
qed

lemma dl_coherent:
  assumes "inv c" and "lookup c \<subseteq>\<^sub>m m"
  obtains r c' where "dl c k = Some (r, c')" "inv c'" "lookup c' \<subseteq>\<^sub>m m(k := x)" "lookup c' k = None"
    "lookup c' \<subseteq>\<^sub>m m"
proof -
  have "(lookup c)(k := None) \<subseteq>\<^sub>m m(k := x)" "(lookup c)(k := None) \<subseteq>\<^sub>m m"
    using assms(2) by (auto simp: map_le_def)
  then show ?thesis using dl_ok[OF assms(1), of k] that by auto
qed

end

lemma map_of_butlast_le: "distinct (map fst xs) \<Longrightarrow> map_of (butlast xs) \<subseteq>\<^sub>m map_of xs"
proof (induction xs)
  case (Cons x xs)
  then show ?case by (cases x) (auto simp: map_le_def)
qed simp

interpretation lru: cache_store cache_lookup lru_inv read_key create_key delete_key
proof (unfold_locales, goal_cases)
  case (1 c k)
  then show ?case
    using read_key_refines[OF 1, of k]
    by (cases "map_of (abs_cache c) k")
       (auto simp: spec_read_def cache_lookup_def fun_eq_iff dest!: sym[of "_ # _"])
next
  case (2 c k v)
  then show ?case
    using create_key_refines[OF 2, of k v] map_of_butlast_le[OF lru_inv_keys[OF 2]]
    by (auto simp: spec_create_def cache_lookup_def dest!: sym[of "_ # _"] split: if_splits
        intro: map_le_upd)
next
  case (3 c k)
  then show ?case
    using delete_key_refines[OF 3, of k]
    by (auto simp: spec_delete_def cache_lookup_def fun_eq_iff dest!: sym[of "AList.delete _ _"]
        split: if_splits)
qed

subsection \<open>Least recently used\<close>

text \<open>
  The operations that use a key: a read that hits, an update that hits and a create that succeeds.
  \<open>lru_run\<close> runs a sequence of operations and returns the keys they used, in order.
\<close>

datatype lru_op = Op_read string | Op_create string string | Op_update string string

fun lru_step :: "lru_cache \<Rightarrow> lru_op \<Rightarrow> (string list \<times> lru_cache) option" where
  "lru_step c (Op_read k) =
     map_option (\<lambda>(v, c'). (if cache_map c k = None then [] else [k], c')) (read_key c k)"
| "lru_step c (Op_create k v) =
     map_option (\<lambda>(r, c'). (if r = 0 then [k] else [], c')) (create_key c k v)"
| "lru_step c (Op_update k v) =
     map_option (\<lambda>(r, c'). (if r = 0 then [k] else [], c')) (update_key c k v)"

fun lru_run :: "lru_cache \<Rightarrow> lru_op list \<Rightarrow> (string list \<times> lru_cache) option" where
  "lru_run c [] = Some ([], c)"
| "lru_run c (x # xs) =
     (case lru_step c x of
        None \<Rightarrow> None
      | Some (u, c1) \<Rightarrow> map_option (\<lambda>(us, c2). (u @ us, c2)) (lru_run c1 xs))"

text \<open>The keys used, the latest first.\<close>

definition recency :: "string list \<Rightarrow> string list" where
  "recency us = dedup_by (\<lambda>x. x) [] (rev us)"

definition lru_keys :: "lru_cache \<Rightarrow> string list" where
  "lru_keys c = map fst (abs_cache c)"

lemma distinct_recency: "distinct (recency us)"
  using distinct_dedup_by[of "\<lambda>x. x"] by (simp add: recency_def)

lemma recency_snoc: "recency (us @ [k]) = k # filter (\<lambda>x. x \<noteq> k) (recency us)"
  by (simp add: recency_def dedup_by_id_seen)

lemma map_fst_delete: "map fst (AList.delete k xs) = filter (\<lambda>x. x \<noteq> k) (map fst xs)"
  by (simp add: delete_eq_filter filter_map o_def case_prod_beta')

lemma lru_keys_move:
  assumes "k \<in> set (take n (recency us))" "0 < n"
  shows "k # filter (\<lambda>x. x \<noteq> k) (take n (recency us)) = take n (recency (us @ [k]))"
  using assms take_filter_front[OF distinct_recency assms(1)]
  by (cases n) (simp_all add: recency_snoc)

lemma lru_keys_insert:
  assumes "k \<notin> set (take n (recency us))" "0 < n"
  shows "k # (if n \<le> length (take n (recency us)) then butlast (take n (recency us))
              else take n (recency us)) = take n (recency (us @ [k]))"
proof -
  have "take (n - 1) (filter (\<lambda>x. x \<noteq> k) (recency us)) = take (n - 1) (recency us)"
    by (rule take_filter_absent[OF assms(1)]) simp
  moreover have "take (n - 1) (recency us) =
      (if n \<le> length (take n (recency us)) then butlast (take n (recency us)) else take n (recency us))"
    using assms(2) by (auto simp: butlast_conv_take min_def)
  ultimately show ?thesis using assms(2) by (cases n) (simp_all add: recency_snoc)
qed

lemma lru_step_recency:
  assumes inv: "lru_inv c" and keys: "lru_keys c = take (capacity c) (recency us)"
  shows "\<exists>u c'. lru_step c x = Some (u, c') \<and> lru_inv c' \<and> capacity c' = capacity c \<and>
           lru_keys c' = take (capacity c) (recency (us @ u))"
proof -
  note pos = lru_inv_capacity[OF inv]
  have mem: "k \<in> set (take (capacity c) (recency us)) \<longleftrightarrow> map_of (abs_cache c) k \<noteq> None" for k
    by (simp add: keys[symmetric] lru_keys_def map_of_eq_None_iff)
  have len: "length (abs_cache c) = length (take (capacity c) (recency us))"
    by (simp add: keys[symmetric] lru_keys_def)
  have hit: "cache_map c k = None \<longleftrightarrow> map_of (abs_cache c) k = None" for k
    by (rule lru_hit_iff[OF inv])
  show ?thesis
  proof (cases x)
    case (Op_read k)
    from read_key_refines[OF inv, of k] obtain v c' where
      "read_key c k = Some (v, c')" "lru_inv c'" "capacity c' = capacity c"
      "spec_read k (abs_cache c) = (v, abs_cache c')" by blast
    then show ?thesis
      using Op_read hit keys lru_keys_move[of k "capacity c" us] mem[of k] pos
      by (cases "map_of (abs_cache c) k")
         (auto simp: spec_read_def lru_keys_def map_fst_delete dest!: sym[of "_ # _"])
  next
    case (Op_create k w)
    from create_key_refines[OF inv, of k w] obtain r c' where
      "create_key c k w = Some (r, c')" "lru_inv c'" "capacity c' = capacity c"
      "spec_create (capacity c) k w (abs_cache c) = (r, abs_cache c')" by blast
    then show ?thesis
      using Op_create keys lru_keys_insert[of k "capacity c" us] mem[of k] pos len
      by (cases "map_of (abs_cache c) k")
         (auto simp: spec_create_def lru_keys_def map_butlast dest!: sym[of "_ # _"] split: if_splits)
  next
    case (Op_update k w)
    from update_key_refines[OF inv, of k w] obtain r c' where
      "update_key c k w = Some (r, c')" "lru_inv c'" "capacity c' = capacity c"
      "spec_update k w (abs_cache c) = (r, abs_cache c')" by blast
    then show ?thesis
      using Op_update keys lru_keys_move[of k "capacity c" us] mem[of k] pos
      by (cases "map_of (abs_cache c) k")
         (auto simp: spec_update_def lru_keys_def map_fst_delete dest!: sym[of "_ # _"])
  qed
qed

lemma lru_run_recency_from:
  assumes "lru_inv c" "lru_keys c = take (capacity c) (recency us)"
  shows "\<exists>u c'. lru_run c xs = Some (u, c') \<and> lru_inv c' \<and> capacity c' = capacity c \<and>
           lru_keys c' = take (capacity c) (recency (us @ u))"
  using assms
proof (induction xs arbitrary: c us)
  case Nil
  then show ?case by simp
next
  case (Cons x xs)
  from lru_step_recency[OF Cons.prems, of x] obtain u c1 where
    s: "lru_step c x = Some (u, c1)" "lru_inv c1" "capacity c1 = capacity c"
    "lru_keys c1 = take (capacity c1) (recency (us @ u))" by auto
  from Cons.IH[OF s(2,4)] s show ?case by fastforce
qed

subsection \<open>Properties\<close>



text \<open>
  On a consistent cache each of the four operations terminates normally, keeps the cache
  consistent, and does to the abstract list of pairs what its specification says, with the same
  return value.
\<close>

theorem cache_operations_refine:
  assumes "lru_inv c"
  shows "(\<exists>v c'. read_key c k = Some (v, c') \<and> lru_inv c' \<and> spec_read k (abs_cache c) = (v, abs_cache c')) \<and>
    (\<exists>r c'. create_key c k v = Some (r, c') \<and> lru_inv c' \<and>
       spec_create (capacity c) k v (abs_cache c) = (r, abs_cache c')) \<and>
    (\<exists>r c'. update_key c k v = Some (r, c') \<and> lru_inv c' \<and> spec_update k v (abs_cache c) = (r, abs_cache c')) \<and>
    (\<exists>r c'. delete_key c k = Some (r, c') \<and> lru_inv c' \<and> spec_delete k (abs_cache c) = (r, abs_cache c'))"
  using read_key_refines[OF assms] create_key_refines[OF assms] update_key_refines[OF assms]
    delete_key_refines[OF assms] by metis

lemma cache_operations_refine_witness:
  "\<exists>r c'. create_key (LRUCache 1000) ''k'' ''v'' = Some (r, c') \<and> lru_inv c' \<and>
     spec_create 1000 ''k'' ''v'' [] = (r, abs_cache c')"
  using cache_operations_refine[of "LRUCache 1000" "''k''" "''v''"] lru_inv_LRUCache[of 1000]
  by (simp add: LRUCache_def abs_cache_def)

text \<open>
  A cache of capacity zero is not usable: the first create takes \<open>back()\<close> of an empty list,
  which is undefined behaviour.
\<close>

theorem zero_capacity_create: "create_key (LRUCache 0) k v = None"
  by (simp add: create_key_def LRUCache_def)

end
