(* ===== verification/KvServer.thy ===== *)
theory KvServer
  imports HttpMessage LruCache
begin

text \<open>
  The key-value server, kvserver.cpp: its request handlers over the cache and a PostgreSQL table,
  its routes and the choice of its port. PostgreSQL and libpqxx are not part of the repository:
  the statements the handlers execute are the fields of the record \<open>server_env\<close>, a parameter of
  every handler, and \<open>pg_table\<close> states what SQL promises about them. A statement throws by
  returning \<open>Inl\<close>; a transaction's effects exist in its own view until the commit. The result
  \<open>None\<close> of a handler is undefined behaviour of the cache, which the cache's invariant excludes.
\<close>

subsection \<open>Requests, responses and the environment\<close>

definition reply :: "Response \<Rightarrow> int \<Rightarrow> string \<Rightarrow> Response" where
  "reply res code body = set_content body ''text/plain'' (res\<lparr>res_status := code\<rparr>)"

text \<open>What a statement can throw, with the text of \<open>what()\<close>.\<close>

datatype pg_error = Unique_violation string | Pg_exception string

fun what :: "pg_error \<Rightarrow> string" where
  "what (Unique_violation w) = w"
| "what (Pg_exception w) = w"

record 'db server_env =
  env_connect :: "string \<Rightarrow> 'db \<Rightarrow> pg_error option"
  sql_insert :: "'db \<Rightarrow> string \<Rightarrow> string \<Rightarrow> pg_error + 'db"
  sql_delete :: "'db \<Rightarrow> string \<Rightarrow> pg_error + string list \<times> 'db"
  sql_select :: "'db \<Rightarrow> string \<Rightarrow> pg_error + string list"
  sql_update :: "'db \<Rightarrow> string \<Rightarrow> string \<Rightarrow> pg_error + string list \<times> 'db"
  sql_upsert :: "'db \<Rightarrow> string \<Rightarrow> string \<Rightarrow> pg_error + string list \<times> 'db"
  sql_keys :: "'db \<Rightarrow> pg_error + string list"
  sql_commit :: "'db \<Rightarrow> 'db \<Rightarrow> pg_error option \<times> 'db"
  log_is_open :: bool

record 'db server =
  srv_port :: int
  srv_db :: 'db
  srv_cache :: lru_cache
  audit_log :: "string list"

definition conn_str :: "int \<Rightarrow> string" where
  "conn_str port =
     ''host=127.0.0.1 port=5432 dbname='' @ (''kvstore_'' @ string_of_int port) @
     '' user=postgres password=Escanor09@''"

definition get_connection :: "'db server_env \<Rightarrow> 'db server \<Rightarrow> pg_error option" where
  "get_connection env s = env_connect env (conn_str (srv_port s)) (srv_db s)"

definition closing :: Response where
  "closing = set_header ''Connection'' ''close'' new_response"

definition error_500 :: "pg_error \<Rightarrow> Response" where
  "error_500 e = reply closing 500 (''Error: '' @ what e)"

subsection \<open>Handlers\<close>

text \<open>\<open>std::getline(input, key, ' '); std::getline(input, value)\<close>.\<close>

definition split_create :: "string \<Rightarrow> string \<times> string" where
  "split_create body =
     (case getline (CHR '' '') body of
        None \<Rightarrow> ([], [])
      | Some (key, rest) \<Rightarrow>
          (key, case getline (CHR 0x0A) rest of None \<Rightarrow> [] | Some (val, _) \<Rightarrow> val))"

definition catch_create :: "pg_error \<Rightarrow> Response" where
  "catch_create e =
     (case e of Unique_violation _ \<Rightarrow> reply closing 409 ''Error: Key already exists'' | _ \<Rightarrow> error_500 e)"

definition handle_create :: "'db server_env \<Rightarrow> 'db server \<Rightarrow> Request \<Rightarrow> ('db server \<times> Response) option" where
  "handle_create env s req =
     (let (key, val) = split_create (rq_body req)
      in (case get_connection env s of
            Some e \<Rightarrow> Some (s, catch_create e)
          | None \<Rightarrow>
              (case sql_insert env (srv_db s) key val of
                 Inl e \<Rightarrow> Some (s, catch_create e)
               | Inr view \<Rightarrow>
                   (case sql_commit env (srv_db s) view of
                      (Some e, db) \<Rightarrow> Some (s\<lparr>srv_db := db\<rparr>, catch_create e)
                    | (None, db) \<Rightarrow>
                        map_option
                          (\<lambda>(_, c). (s\<lparr>srv_db := db, srv_cache := c\<rparr>, reply closing 201 ''Created Successfully''))
                          (create_key (srv_cache s) key val)))))"

definition handle_delete :: "'db server_env \<Rightarrow> 'db server \<Rightarrow> Request \<Rightarrow> ('db server \<times> Response) option" where
  "handle_delete env s req =
     (let key = rq_matches req ! 1
      in (case get_connection env s of
            Some e \<Rightarrow> Some (s, error_500 e)
          | None \<Rightarrow>
              (case sql_delete env (srv_db s) key of
                 Inl e \<Rightarrow> Some (s, error_500 e)
               | Inr (r, view) \<Rightarrow>
                   if r = [] then Some (s, reply closing 404 (''Key Not Found'' @ [CHR 0x0A]))
                   else
                     (case sql_commit env (srv_db s) view of
                        (Some e, db) \<Rightarrow> Some (s\<lparr>srv_db := db\<rparr>, error_500 e)
                      | (None, db) \<Rightarrow>
                          map_option
                            (\<lambda>(_, c). (s\<lparr>srv_db := db, srv_cache := c\<rparr>,
                                       reply closing 200 (''Deleted Successfully'' @ [CHR 0x0A])))
                            (delete_key (srv_cache s) key)))))"

definition audit_line :: "string \<Rightarrow> string" where
  "audit_line key = ''AUDIT LOG - Key Requested: '' @ key @ '' '' @ replicate 50000 (CHR ''X'') @ [CHR 0x0A]"

definition handle_read :: "'db server_env \<Rightarrow> 'db server \<Rightarrow> Request \<Rightarrow> ('db server \<times> Response) option" where
  "handle_read env s req =
     (let key = rq_matches req ! 1
      in (case read_key (srv_cache s) key of
            None \<Rightarrow> None
          | Some (cache_value, c) \<Rightarrow>
              (let s1 = s\<lparr>srv_cache := c,
                          audit_log := (if log_is_open env then audit_log s @ [audit_line key] else audit_log s)\<rparr>
               in if cache_value \<noteq> [] then Some (s1, reply closing 200 cache_value)
                  else
                    (case get_connection env s1 of
                       Some e \<Rightarrow> Some (s1, error_500 e)
                     | None \<Rightarrow>
                         (case sql_select env (srv_db s1) key of
                            Inl e \<Rightarrow> Some (s1, error_500 e)
                          | Inr [] \<Rightarrow> Some (s1, reply closing 404 (''Key not Found'' @ [CHR 0x0A]))
                          | Inr (db_value # _) \<Rightarrow>
                              map_option
                                (\<lambda>(_, c'). (s1\<lparr>srv_cache := c'\<rparr>, reply closing 200 db_value))
                                (create_key (srv_cache s1) key db_value))))))"

definition handle_update :: "'db server_env \<Rightarrow> 'db server \<Rightarrow> Request \<Rightarrow> ('db server \<times> Response) option" where
  "handle_update env s req =
     (let key = rq_matches req ! 1; val = rq_body req;
          is_replication = has_header req ''X-Internal-Replication''
      in (case get_connection env s of
            Some e \<Rightarrow> Some (s, error_500 e)
          | None \<Rightarrow>
              (case (if is_replication then sql_upsert env (srv_db s) key val
                     else sql_update env (srv_db s) val key) of
                 Inl e \<Rightarrow> Some (s, error_500 e)
               | Inr (r, view) \<Rightarrow>
                   if r = [] \<and> \<not> is_replication
                   then Some (s, reply closing 404 (''Key not found in DB'' @ [CHR 0x0A]))
                   else
                     (case sql_commit env (srv_db s) view of
                        (Some e, db) \<Rightarrow> Some (s\<lparr>srv_db := db\<rparr>, error_500 e)
                      | (None, db) \<Rightarrow>
                          map_option
                            (\<lambda>(_, c). (s\<lparr>srv_db := db, srv_cache := c\<rparr>,
                                       reply closing 200 (''Updated Successfully'' @ [CHR 0x0A])))
                            (delete_key (srv_cache s) key)))))"

text \<open>The loop that builds the list of keys.\<close>

fun key_lines :: "string list \<Rightarrow> string" where
  "key_lines [] = []"
| "key_lines (k # ks) = k @ [CHR 0x0A] @ key_lines ks"

definition handle_all_keys :: "'db server_env \<Rightarrow> 'db server \<Rightarrow> Request \<Rightarrow> ('db server \<times> Response) option" where
  "handle_all_keys env s req =
     (case get_connection env s of
        Some e \<Rightarrow> Some (s, error_500 e)
      | None \<Rightarrow>
          (case sql_keys env (srv_db s) of
             Inl e \<Rightarrow> Some (s, error_500 e)
           | Inr ks \<Rightarrow> Some (s, reply closing 200 (key_lines ks))))"

definition handle_sync :: "'db server_env \<Rightarrow> 'db server \<Rightarrow> Request \<Rightarrow> ('db server \<times> Response) option" where
  "handle_sync env s req =
     (let key = rq_matches req ! 1; val = rq_body req
      in (case get_connection env s of
            Some e \<Rightarrow> Some (s, error_500 e)
          | None \<Rightarrow>
              (case sql_upsert env (srv_db s) key val of
                 Inl e \<Rightarrow> Some (s, error_500 e)
               | Inr (r, view) \<Rightarrow>
                   (case sql_commit env (srv_db s) view of
                      (Some e, db) \<Rightarrow> Some (s\<lparr>srv_db := db\<rparr>, error_500 e)
                    | (None, db) \<Rightarrow>
                        map_option
                          (\<lambda>(_, c). (s\<lparr>srv_db := db, srv_cache := c\<rparr>,
                             if r = []
                             then reply closing 200 (''Ignored: Never version already present'' @ [CHR 0x0A])
                             else reply closing 201 (''Synced Successfully'' @ [CHR 0x0A])))
                          (delete_key (srv_cache s) key)))))"

definition handle_health :: "'db server \<Rightarrow> Request \<Rightarrow> ('db server \<times> Response) option" where
  "handle_health s req = Some (s, reply new_response 200 ''OK'')"

subsection \<open>Start and routes\<close>

text \<open>The port of \<open>main\<close>: \<open>argv\<close> without the program name.\<close>

definition main_port :: "string list \<Rightarrow> int" where
  "main_port args =
     (case args of [] \<Rightarrow> 9001 | a # _ \<Rightarrow> (case stoi a of Inr p \<Rightarrow> p | Inl _ \<Rightarrow> 9001))"

definition start_server :: "string list \<Rightarrow> 'db \<Rightarrow> 'db server" where
  "start_server args db = \<lparr>srv_port = main_port args, srv_db = db, srv_cache = LRUCache 1000, audit_log = []\<rparr>"

text \<open>The two shapes of pattern: a literal path and \<open>prefix(\w+)\<close>; both must match the whole path.\<close>

datatype pattern = Literal string | Word_after string

definition is_word :: "char \<Rightarrow> bool" where
  "is_word c \<longleftrightarrow> (let n = (of_char c :: nat)
     in (48 \<le> n \<and> n \<le> 57) \<or> (65 \<le> n \<and> n \<le> 90) \<or> (97 \<le> n \<and> n \<le> 122) \<or> n = 95)"

fun match_pattern :: "pattern \<Rightarrow> string \<Rightarrow> string list option" where
  "match_pattern (Literal p) path = (if path = p then Some [path] else None)"
| "match_pattern (Word_after p) path =
     (let w = drop (length p) path
      in if prefix p path \<and> w \<noteq> [] \<and> list_all is_word w then Some [path, w] else None)"

datatype handler = Create | Update | Delete | All_keys | Read | Health | Sync

text \<open>The registrations of \<open>main\<close>, in order.\<close>

definition routes :: "(string \<times> pattern \<times> handler) list" where
  "routes =
     [(''POST'', Literal ''/kvstore/create'', Create),
      (''PUT'', Word_after ''/kvstore/'', Update),
      (''DELETE'', Word_after ''/kvstore/'', Delete),
      (''GET'', Literal ''/kvstore/allkeys'', All_keys),
      (''GET'', Word_after ''/kvstore/'', Read),
      (''GET'', Literal ''/health'', Health),
      (''POST'', Word_after ''/kvstore/sync/'', Sync)]"

text \<open>The first registration for the method whose pattern matches; HEAD uses GET's.\<close>

fun find_route :: "(string \<times> pattern \<times> handler) list \<Rightarrow> string \<Rightarrow> string \<Rightarrow> (handler \<times> string list) option" where
  "find_route [] m path = None"
| "find_route ((m', p, h) # rs) m path =
     (if m' = (if m = ''HEAD'' then ''GET'' else m)
      then (case match_pattern p path of Some ms \<Rightarrow> Some (h, ms) | None \<Rightarrow> find_route rs m path)
      else find_route rs m path)"

fun run_handler :: "handler \<Rightarrow> 'db server_env \<Rightarrow> 'db server \<Rightarrow> Request \<Rightarrow> ('db server \<times> Response) option" where
  "run_handler Create env s req = handle_create env s req"
| "run_handler Update env s req = handle_update env s req"
| "run_handler Delete env s req = handle_delete env s req"
| "run_handler All_keys env s req = handle_all_keys env s req"
| "run_handler Read env s req = handle_read env s req"
| "run_handler Health env s req = handle_health s req"
| "run_handler Sync env s req = handle_sync env s req"

definition serve :: "'db server_env \<Rightarrow> 'db server \<Rightarrow> Request \<Rightarrow> ('db server \<times> Response) option" where
  "serve env s req =
     (case find_route routes (rq_method req) (rq_path req) of
        None \<Rightarrow> Some (s, new_response\<lparr>res_status := 404\<rparr>)
      | Some (h, ms) \<Rightarrow> run_handler h env s (req\<lparr>rq_matches := ms\<rparr>))"

subsection \<open>What SQL promises\<close>

text \<open>
  \<open>rows db\<close> is the table \<open>kv_data\<close> in a committed state or a transaction's view \<open>db\<close>. A statement
  that does not throw has the effect SQL gives it; only the insertion of a key that is in the table
  violates the primary key; a commit that throws has changed nothing.
\<close>

definition pg_table :: "'db server_env \<Rightarrow> ('db \<Rightarrow> string \<rightharpoonup> string) \<Rightarrow> bool" where
  "pg_table env rows \<longleftrightarrow>
     (\<forall>cs db w. env_connect env cs db \<noteq> Some (Unique_violation w)) \<and>
     (\<forall>db k v view. sql_insert env db k v = Inr view \<longrightarrow> rows db k = None \<and> rows view = (rows db)(k \<mapsto> v)) \<and>
     (\<forall>db k v w. sql_insert env db k v = Inl (Unique_violation w) \<longrightarrow> rows db k \<noteq> None) \<and>
     (\<forall>db k r view. sql_delete env db k = Inr (r, view) \<longrightarrow>
        (r = [] \<longleftrightarrow> rows db k = None) \<and> rows view = (rows db)(k := None)) \<and>
     (\<forall>db k r. sql_select env db k = Inr r \<longrightarrow> r = (case rows db k of None \<Rightarrow> [] | Some v \<Rightarrow> [v])) \<and>
     (\<forall>db k v r view. sql_update env db v k = Inr (r, view) \<longrightarrow>
        (r = [] \<longleftrightarrow> rows db k = None) \<and>
        rows view = (if rows db k = None then rows db else (rows db)(k \<mapsto> v))) \<and>
     (\<forall>db k v r view. sql_upsert env db k v = Inr (r, view) \<longrightarrow> r \<noteq> [] \<and> rows view = (rows db)(k \<mapsto> v)) \<and>
     (\<forall>db ks. sql_keys env db = Inr ks \<longrightarrow> distinct ks \<and> set ks = dom (rows db)) \<and>
     (\<forall>db view db'. sql_commit env db view = (None, db') \<longrightarrow> rows db' = rows view) \<and>
     (\<forall>db view e db'. sql_commit env db view = (Some e, db') \<longrightarrow>
        rows db' = rows db \<and> (\<forall>w. e \<noteq> Unique_violation w))"

text \<open>The database is reachable and throws nothing but unique violations.\<close>

definition pg_up :: "'db server_env \<Rightarrow> bool" where
  "pg_up env \<longleftrightarrow>
     (\<forall>cs db. env_connect env cs db = None) \<and>
     (\<forall>db k v w. sql_insert env db k v \<noteq> Inl (Pg_exception w)) \<and>
     (\<forall>db k e. sql_delete env db k \<noteq> Inl e) \<and> (\<forall>db k e. sql_select env db k \<noteq> Inl e) \<and>
     (\<forall>db k v e. sql_update env db k v \<noteq> Inl e) \<and> (\<forall>db k v e. sql_upsert env db k v \<noteq> Inl e) \<and>
     (\<forall>db e. sql_keys env db \<noteq> Inl e) \<and> (\<forall>db view e db'. sql_commit env db view \<noteq> (Some e, db'))"

lemma pg_connect: "pg_table env rows \<Longrightarrow> env_connect env cs db \<noteq> Some (Unique_violation w)"
  unfolding pg_table_def by (elim conjE) meson

lemma pg_insert: "pg_table env rows \<Longrightarrow> sql_insert env db k v = Inr view \<Longrightarrow>
      rows db k = None \<and> rows view = (rows db)(k \<mapsto> v)"
  unfolding pg_table_def by (elim conjE) meson

lemma pg_unique: "pg_table env rows \<Longrightarrow> sql_insert env db k v = Inl (Unique_violation w) \<Longrightarrow> rows db k \<noteq> None"
  unfolding pg_table_def by (elim conjE) meson

lemma pg_delete: "pg_table env rows \<Longrightarrow> sql_delete env db k = Inr (r, view) \<Longrightarrow>
      (r = [] \<longleftrightarrow> rows db k = None) \<and> rows view = (rows db)(k := None)"
  unfolding pg_table_def by (elim conjE) metis

lemma pg_select: "pg_table env rows \<Longrightarrow> sql_select env db k = Inr r \<Longrightarrow>
      r = (case rows db k of None \<Rightarrow> [] | Some v \<Rightarrow> [v])"
  unfolding pg_table_def by (elim conjE) meson

lemma pg_update: "pg_table env rows \<Longrightarrow> sql_update env db v k = Inr (r, view) \<Longrightarrow>
      (r = [] \<longleftrightarrow> rows db k = None) \<and> rows view = (if rows db k = None then rows db else (rows db)(k \<mapsto> v))"
  unfolding pg_table_def by (elim conjE) metis

lemma pg_upsert: "pg_table env rows \<Longrightarrow> sql_upsert env db k v = Inr (r, view) \<Longrightarrow>
      r \<noteq> [] \<and> rows view = (rows db)(k \<mapsto> v)"
  unfolding pg_table_def by (elim conjE) metis

lemma pg_keys: "pg_table env rows \<Longrightarrow> sql_keys env db = Inr ks \<Longrightarrow> distinct ks \<and> set ks = dom (rows db)"
  unfolding pg_table_def by (elim conjE) meson

lemma pg_commit: "pg_table env rows \<Longrightarrow> sql_commit env db view = (None, db') \<Longrightarrow> rows db' = rows view"
  unfolding pg_table_def by (elim conjE) meson

lemma pg_abort: "pg_table env rows \<Longrightarrow> sql_commit env db view = (Some e, db') \<Longrightarrow>
      rows db' = rows db \<and> (\<forall>w. e \<noteq> Unique_violation w)"
  unfolding pg_table_def by (elim conjE) metis

subsection \<open>The abstract store\<close>

text \<open>
  What each request means on the table: the table afterwards, the status and the body. The order
  of the key list is the database's.
\<close>

fun kv_spec :: "handler \<Rightarrow> Request \<Rightarrow> (string \<rightharpoonup> string) \<Rightarrow> (string \<rightharpoonup> string) \<Rightarrow> int \<Rightarrow> string \<Rightarrow> bool" where
  "kv_spec Create req m m' code body =
     (let (k, v) = split_create (rq_body req)
      in if m k = None then m' = m(k \<mapsto> v) \<and> code = 201 \<and> body = ''Created Successfully''
         else m' = m \<and> code = 409 \<and> body = ''Error: Key already exists'')"
| "kv_spec Update req m m' code body =
     (let k = rq_matches req ! 1
      in if m k = None \<and> \<not> has_header req ''X-Internal-Replication''
         then m' = m \<and> code = 404 \<and> body = ''Key not found in DB'' @ [CHR 0x0A]
         else m' = m(k \<mapsto> rq_body req) \<and> code = 200 \<and> body = ''Updated Successfully'' @ [CHR 0x0A])"
| "kv_spec Delete req m m' code body =
     (let k = rq_matches req ! 1
      in m' = m(k := None) \<and>
         (if m k = None then code = 404 \<and> body = ''Key Not Found'' @ [CHR 0x0A]
          else code = 200 \<and> body = ''Deleted Successfully'' @ [CHR 0x0A]))"
| "kv_spec All_keys req m m' code body =
     (m' = m \<and> code = 200 \<and> (\<exists>ks. distinct ks \<and> set ks = dom m \<and> body = key_lines ks))"
| "kv_spec Read req m m' code body =
     (m' = m \<and> (case m (rq_matches req ! 1) of
        None \<Rightarrow> code = 404 \<and> body = ''Key not Found'' @ [CHR 0x0A]
      | Some v \<Rightarrow> code = 200 \<and> body = v))"
| "kv_spec Health req m m' code body = (m' = m \<and> code = 200 \<and> body = ''OK'')"
| "kv_spec Sync req m m' code body =
     (m' = m(rq_matches req ! 1 \<mapsto> rq_body req) \<and> code = 201 \<and> body = ''Synced Successfully'' @ [CHR 0x0A])"

subsection \<open>Correctness of the handlers\<close>

text \<open>The cache agrees with the committed table.\<close>

definition server_ok :: "('db \<Rightarrow> string \<rightharpoonup> string) \<Rightarrow> 'db server \<Rightarrow> bool" where
  "server_ok rows s \<longleftrightarrow>
     lru_inv (srv_cache s) \<and> cache_lookup (srv_cache s) \<subseteq>\<^sub>m rows (srv_db s)"

text \<open>A handler's outcome: the abstract effect, or a 500 that left the table alone.\<close>

definition handled ::
  "'db server_env \<Rightarrow> ('db \<Rightarrow> string \<rightharpoonup> string) \<Rightarrow> handler \<Rightarrow> 'db server \<Rightarrow> Request \<Rightarrow> ('db server \<times> Response) option \<Rightarrow> bool" where
  "handled env rows h s req out \<longleftrightarrow>
     (case out of
        None \<Rightarrow> False
      | Some (s', res) \<Rightarrow>
          server_ok rows s' \<and>
          (kv_spec h req (rows (srv_db s)) (rows (srv_db s')) (res_status res) (res_body res) \<or>
           (\<not> pg_up env \<and> res_status res = 500 \<and> rows (srv_db s') = rows (srv_db s))))"

lemma reply_fields [simp]: "res_status (reply res code body) = code" "res_body (reply res code body) = body"
  by (simp_all add: reply_def set_content_def set_header_def)

lemma error_500_status [simp]: "res_status (error_500 e) = 500"
  by (simp add: error_500_def)

lemma handled_error:
  "server_ok rows s \<Longrightarrow> \<not> pg_up env \<Longrightarrow> handled env rows h s req (Some (s, error_500 e))"
  by (simp add: handled_def)

lemma handled_abort:
  "server_ok rows s \<Longrightarrow> pg_table env rows \<Longrightarrow> sql_commit env (srv_db s) view = (Some e, db) \<Longrightarrow>
   handled env rows h s req (Some (s\<lparr>srv_db := db\<rparr>, error_500 e))"
  using pg_abort[of env rows "srv_db s" view e db]
  by (auto simp: handled_def server_ok_def pg_up_def)

text \<open>A committed change of one key followed by dropping the key from the cache.\<close>

lemma server_ok_delete_key:
  assumes "server_ok rows s" "rows db = (rows (srv_db s))(k := x)"
  obtains r c where "delete_key (srv_cache s) k = Some (r, c)" "server_ok rows (s\<lparr>srv_db := db, srv_cache := c\<rparr>)"
proof -
  have inv: "lru_inv (srv_cache s)" and le: "cache_lookup (srv_cache s) \<subseteq>\<^sub>m rows (srv_db s)"
    using assms(1) by (simp_all add: server_ok_def)
  obtain r c where "delete_key (srv_cache s) k = Some (r, c)" "lru_inv c"
    "cache_lookup c \<subseteq>\<^sub>m (rows (srv_db s))(k := x)" by (rule lru.dl_coherent[OF inv le])
  with assms(2) that show ?thesis by (simp add: server_ok_def)
qed

text \<open>A committed insertion followed by putting the pair into the cache.\<close>

lemma server_ok_create_key:
  assumes "server_ok rows s" "rows (srv_db s) k = None" "rows db = (rows (srv_db s))(k \<mapsto> v)"
  obtains r c where "create_key (srv_cache s) k v = Some (r, c)" "server_ok rows (s\<lparr>srv_db := db, srv_cache := c\<rparr>)"
proof -
  have inv: "lru_inv (srv_cache s)" and "cache_lookup (srv_cache s) \<subseteq>\<^sub>m rows (srv_db s)"
    using assms(1) by (simp_all add: server_ok_def)
  then have "cache_lookup (srv_cache s) \<subseteq>\<^sub>m rows db"
    using assms(2,3) by (auto simp: map_le_def dom_def)
  moreover have "rows db k = Some v" using assms(3) by simp
  ultimately obtain r c where "create_key (srv_cache s) k v = Some (r, c)" "lru_inv c"
    "cache_lookup c \<subseteq>\<^sub>m rows db" by (rule lru.cr_coherent[OF inv])
  then show ?thesis using that by (simp add: server_ok_def)
qed

lemma handled_done:
  assumes "server_ok rows s'" "kv_spec h req (rows (srv_db s)) (rows (srv_db s')) (res_status res) (res_body res)"
  shows "handled env rows h s req (Some (s', res))"
  using assms by (simp add: handled_def)

text \<open>A statement that throws shows that the database is not up.\<close>

lemma not_up_connect: "get_connection env s = Some e \<Longrightarrow> \<not> pg_up env"
  and not_up_insert: "sql_insert env db k v = Inl (Pg_exception w) \<Longrightarrow> \<not> pg_up env"
  and not_up_delete: "sql_delete env db k = Inl e \<Longrightarrow> \<not> pg_up env"
  and not_up_select: "sql_select env db k = Inl e \<Longrightarrow> \<not> pg_up env"
  and not_up_update: "sql_update env db v k = Inl e \<Longrightarrow> \<not> pg_up env"
  and not_up_upsert: "sql_upsert env db k v = Inl e \<Longrightarrow> \<not> pg_up env"
  and not_up_keys: "sql_keys env db = Inl e \<Longrightarrow> \<not> pg_up env"
  by (auto simp: pg_up_def get_connection_def)

lemmas not_up = not_up_connect not_up_insert not_up_delete not_up_select not_up_update not_up_upsert not_up_keys

text \<open>The shared shape of the handlers: connect, run a statement, commit.\<close>

lemma handled_connect:
  assumes "server_ok rows s" "handled env rows h s req X"
  shows "handled env rows h s req (case get_connection env s of Some e \<Rightarrow> Some (s, error_500 e) | None \<Rightarrow> X)"
  using assms by (cases "get_connection env s") (simp_all add: handled_error not_up_connect)

lemma handled_statement:
  assumes "server_ok rows s" and "\<And>e. R = Inl e \<Longrightarrow> \<not> pg_up env"
    and "\<And>x. R = Inr x \<Longrightarrow> handled env rows h s req (F x)"
  shows "handled env rows h s req (case R of Inl e \<Rightarrow> Some (s, error_500 e) | Inr x \<Rightarrow> F x)"
  using assms by (auto intro: handled_error split: sum.split)

lemma handled_commit:
  assumes "server_ok rows s" "pg_table env rows"
    and "\<And>db. rows db = rows view \<Longrightarrow> handled env rows h s req (X db)"
  shows "handled env rows h s req
    (case sql_commit env (srv_db s) view of
       (Some e, db) \<Rightarrow> Some (s\<lparr>srv_db := db\<rparr>, error_500 e)
     | (None, db) \<Rightarrow> X db)"
  using assms handled_abort[OF assms(1,2)] pg_commit[OF assms(2)]
  by (auto split: option.split prod.split)

lemma handled_drop_key:
  assumes "server_ok rows s" "rows db = (rows (srv_db s))(k := x)"
    and "kv_spec h req (rows (srv_db s)) (rows db) (res_status res) (res_body res)"
  shows "handled env rows h s req
    (map_option (\<lambda>(_, c). (s\<lparr>srv_db := db, srv_cache := c\<rparr>, res)) (delete_key (srv_cache s) k))"
proof -
  obtain r c where "delete_key (srv_cache s) k = Some (r, c)" "server_ok rows (s\<lparr>srv_db := db, srv_cache := c\<rparr>)"
    by (rule server_ok_delete_key[OF assms(1,2)])
  with assms(3) show ?thesis by (simp add: handled_done)
qed

text \<open>A read answered from the table leaves the pair in the cache.\<close>

lemma handled_cache_key:
  assumes "server_ok rows s" "rows (srv_db s) k = None" "rows db = (rows (srv_db s))(k \<mapsto> v)"
    and "kv_spec h req (rows (srv_db s)) (rows db) (res_status res) (res_body res)"
  shows "handled env rows h s req
    (map_option (\<lambda>(_, c). (s\<lparr>srv_db := db, srv_cache := c\<rparr>, res)) (create_key (srv_cache s) k v))"
proof -
  obtain r c where "create_key (srv_cache s) k v = Some (r, c)" "server_ok rows (s\<lparr>srv_db := db, srv_cache := c\<rparr>)"
    by (rule server_ok_create_key[OF assms(1-3)])
  with assms(4) show ?thesis by (simp add: handled_done)
qed

lemma handle_delete_ok:
  assumes pg: "pg_table env rows" and ok: "server_ok rows s"
  shows "handled env rows Delete s req (handle_delete env s req)"
  unfolding handle_delete_def Let_def
proof (intro handled_connect[OF ok] handled_statement[OF ok], erule not_up, clarify)
  fix r view
  assume "sql_delete env (srv_db s) (rq_matches req ! 1) = Inr (r, view)"
  note d = pg_delete[OF pg this]
  have "rows (srv_db s) = (rows (srv_db s))(rq_matches req ! 1 := None)" if "r = []"
    using d that by (simp add: fun_upd_idem)
  with d ok show "handled env rows Delete s req
     (if r = [] then Some (s, reply closing 404 (''Key Not Found'' @ [CHR 0x0A]))
      else case sql_commit env (srv_db s) view of
        (None, db) \<Rightarrow> map_option (\<lambda>(_, c). (s\<lparr>srv_db := db, srv_cache := c\<rparr>,
           reply closing 200 (''Deleted Successfully'' @ [CHR 0x0A]))) (delete_key (srv_cache s) (rq_matches req ! 1))
      | (Some e, db) \<Rightarrow> Some (s\<lparr>srv_db := db\<rparr>, error_500 e))"
    by (auto intro!: handled_commit[OF ok pg] handled_done handled_drop_key[OF ok])
qed

lemma handle_sync_ok:
  assumes pg: "pg_table env rows" and ok: "server_ok rows s"
  shows "handled env rows Sync s req (handle_sync env s req)"
  unfolding handle_sync_def Let_def
proof (intro handled_connect[OF ok] handled_statement[OF ok], erule not_up, clarify)
  fix r view
  assume "sql_upsert env (srv_db s) (rq_matches req ! 1) (rq_body req) = Inr (r, view)"
  note d = pg_upsert[OF pg this]
  then show "handled env rows Sync s req
     (case sql_commit env (srv_db s) view of
        (None, db) \<Rightarrow> map_option (\<lambda>(_, c). (s\<lparr>srv_db := db, srv_cache := c\<rparr>,
           if r = [] then reply closing 200 (''Ignored: Never version already present'' @ [CHR 0x0A])
           else reply closing 201 (''Synced Successfully'' @ [CHR 0x0A])))
           (delete_key (srv_cache s) (rq_matches req ! 1))
      | (Some e, db) \<Rightarrow> Some (s\<lparr>srv_db := db\<rparr>, error_500 e))"
    by (intro handled_commit[OF ok pg] handled_drop_key[OF ok]) auto
qed

lemma handle_update_ok:
  assumes pg: "pg_table env rows" and ok: "server_ok rows s"
  shows "handled env rows Update s req (handle_update env s req)"
  unfolding handle_update_def Let_def
proof (intro handled_connect[OF ok] handled_statement[OF ok], goal_cases)
  let ?k = "rq_matches req ! 1" and ?v = "rq_body req" and ?repl = "has_header req ''X-Internal-Replication''"
  case (1 e)
  then show "\<not> pg_up env" using not_up_upsert not_up_update by (metis (full_types))
next
  let ?k = "rq_matches req ! 1" and ?v = "rq_body req" and ?repl = "has_header req ''X-Internal-Replication''"
  case (2 p)
  obtain r view where p: "p = (r, view)" by (cases p)
  note stmt = 2[unfolded p]
  have d: "rows view = (if ?repl \<or> rows (srv_db s) ?k \<noteq> None then (rows (srv_db s))(?k \<mapsto> ?v) else rows (srv_db s))"
    "r = [] \<and> \<not> ?repl \<longleftrightarrow> rows (srv_db s) ?k = None \<and> \<not> ?repl"
    using stmt pg_upsert[OF pg] pg_update[OF pg] by (auto split: if_splits)
  show ?case
    using d ok p by (auto intro!: handled_commit[OF ok pg] handled_done handled_drop_key[OF ok])
qed

lemma handle_all_keys_ok:
  assumes pg: "pg_table env rows" and ok: "server_ok rows s"
  shows "handled env rows All_keys s req (handle_all_keys env s req)"
  unfolding handle_all_keys_def
  by (intro handled_connect[OF ok] handled_statement[OF ok], erule not_up)
     (use pg_keys[OF pg] ok in \<open>force intro!: handled_done\<close>)

lemma catch_create_cases:
  "catch_create (Unique_violation w) = reply closing 409 ''Error: Key already exists''"
  "catch_create (Pg_exception w) = error_500 (Pg_exception w)"
  by (simp_all add: catch_create_def)

lemma handle_create_ok:
  assumes pg: "pg_table env rows" and ok: "server_ok rows s"
  shows "handled env rows Create s req (handle_create env s req)"
proof -
  obtain k v where kv: "split_create (rq_body req) = (k, v)" by (cases "split_create (rq_body req)")
  show ?thesis
  proof (cases "get_connection env s")
    case (Some e)
    then obtain w where "e = Pg_exception w"
      using pg_connect[OF pg] by (cases e) (auto simp: get_connection_def)
    with Some kv show ?thesis
      by (simp add: handle_create_def catch_create_cases handled_error[OF ok] not_up)
  next
    case conn: None
    show ?thesis
    proof (cases "sql_insert env (srv_db s) k v")
      case (Inl e)
      show ?thesis
      proof (cases e)
        case (Unique_violation w)
        with pg_unique[OF pg] Inl conn kv ok show ?thesis
          by (auto simp: handle_create_def catch_create_cases intro!: handled_done)
      next
        case (Pg_exception w)
        with Inl conn kv show ?thesis
          by (simp add: handle_create_def catch_create_cases handled_error[OF ok] not_up)
      qed
    next
      case (Inr view)
      note i = pg_insert[OF pg Inr]
      have "catch_create e = error_500 e" if "sql_commit env (srv_db s) view = (Some e, db)" for e db
        using pg_abort[OF pg that] by (cases e) (auto simp: catch_create_cases)
      then have "handle_create env s req = (case sql_commit env (srv_db s) view of
          (Some e, db) \<Rightarrow> Some (s\<lparr>srv_db := db\<rparr>, error_500 e)
        | (None, db) \<Rightarrow> map_option (\<lambda>(_, c). (s\<lparr>srv_db := db, srv_cache := c\<rparr>,
             reply closing 201 ''Created Successfully'')) (create_key (srv_cache s) k v))"
        using conn Inr kv by (auto simp: handle_create_def split: prod.split option.split)
      moreover have "handled env rows Create s req \<dots>"
        using i kv by (intro handled_commit[OF ok pg] handled_cache_key[OF ok]) auto
      ultimately show ?thesis by simp
    qed
  qed
qed

lemma handle_read_ok:
  assumes pg: "pg_table env rows" and ok: "server_ok rows s"
  shows "handled env rows Read s req (handle_read env s req)"
proof -
  let ?k = "rq_matches req ! 1"
  have inv: "lru_inv (srv_cache s)" and le: "cache_lookup (srv_cache s) \<subseteq>\<^sub>m rows (srv_db s)"
    using ok by (simp_all add: server_ok_def)
  obtain v c where rd: "read_key (srv_cache s) ?k = Some (v, c)" "lru_inv c"
    "cache_lookup c \<subseteq>\<^sub>m rows (srv_db s)" "v \<noteq> [] \<Longrightarrow> rows (srv_db s) ?k = Some v"
    by (rule lru.rd_coherent[OF inv le, of ?k]) blast
  define s1 where "s1 = s\<lparr>srv_cache := c,
     audit_log := (if log_is_open env then audit_log s @ [audit_line ?k] else audit_log s)\<rparr>"
  have ok1: "server_ok rows s1" and db1: "srv_db s1 = srv_db s"
    using rd by (simp_all add: server_ok_def s1_def)
  have miss: "handled env rows Read s1 req
     (case get_connection env s1 of Some e \<Rightarrow> Some (s1, error_500 e)
      | None \<Rightarrow>
          (case sql_select env (srv_db s1) ?k of
             Inl e \<Rightarrow> Some (s1, error_500 e)
           | Inr r \<Rightarrow>
               (case r of [] \<Rightarrow> Some (s1, reply closing 404 (''Key not Found'' @ [CHR 0x0A]))
                | db_value # _ \<Rightarrow> map_option (\<lambda>(_, c'). (s1\<lparr>srv_cache := c'\<rparr>, reply closing 200 db_value))
                    (create_key (srv_cache s1) ?k db_value))))"
  proof (intro handled_connect[OF ok1] handled_statement[OF ok1], erule not_up)
    fix r
    assume "sql_select env (srv_db s1) ?k = Inr r"
    then have r: "r = (case rows (srv_db s1) ?k of None \<Rightarrow> [] | Some v \<Rightarrow> [v])" by (rule pg_select[OF pg])
    show "handled env rows Read s1 req
      (case r of [] \<Rightarrow> Some (s1, reply closing 404 (''Key not Found'' @ [CHR 0x0A]))
       | db_value # _ \<Rightarrow> map_option (\<lambda>(_, c'). (s1\<lparr>srv_cache := c'\<rparr>, reply closing 200 db_value))
           (create_key (srv_cache s1) ?k db_value))"
    proof (cases "rows (srv_db s1) ?k")
      case None
      with r ok1 show ?thesis by (auto intro!: handled_done)
    next
      case (Some w)
      have "lru_inv (srv_cache s1)" "cache_lookup (srv_cache s1) \<subseteq>\<^sub>m rows (srv_db s1)"
        using ok1 by (simp_all add: server_ok_def)
      then obtain q c' where "create_key (srv_cache s1) ?k w = Some (q, c')" "lru_inv c'"
        "cache_lookup c' \<subseteq>\<^sub>m rows (srv_db s1)" using Some by (rule lru.cr_coherent)
      with r Some show ?thesis by (auto simp: server_ok_def intro!: handled_done)
    qed
  qed
  have "handled env rows Read s req out = handled env rows Read s1 req out" for out
    unfolding handled_def db1 ..
  with miss rd ok1 db1 show ?thesis
    unfolding handle_read_def Let_def rd(1) option.case prod.case s1_def[symmetric]
    by (auto intro!: handled_done simp: s1_def)
qed

lemma handle_health_ok: "server_ok rows s \<Longrightarrow> handled env rows Health s req (handle_health s req)"
  by (simp add: handle_health_def handled_done)

lemmas handlers_ok = handle_create_ok handle_update_ok handle_delete_ok handle_all_keys_ok
  handle_read_ok handle_health_ok handle_sync_ok

lemma run_handler_ok:
  assumes "pg_table env rows" "server_ok rows s"
  shows "handled env rows h s req (run_handler h env s req)"
  using assms by (cases h) (simp_all add: handlers_ok)

text \<open>A sequence of requests, one handler after the other.\<close>

fun serve_all :: "'db server_env \<Rightarrow> 'db server \<Rightarrow> Request list \<Rightarrow> ('db server \<times> Response list) option" where
  "serve_all env s [] = Some (s, [])"
| "serve_all env s (req # reqs) =
     (case serve env s req of
        None \<Rightarrow> None
      | Some (s1, res) \<Rightarrow> map_option (\<lambda>(s2, rs). (s2, res # rs)) (serve_all env s1 reqs))"

lemma serve_ok:
  assumes pg: "pg_table env rows" and ok: "server_ok rows s"
  shows "\<exists>s' res. serve env s req = Some (s', res) \<and> server_ok rows s'"
proof (cases "find_route routes (rq_method req) (rq_path req)")
  case None
  with ok show ?thesis by (simp add: serve_def)
next
  case (Some p)
  obtain h ms where p: "p = (h, ms)" by (cases p)
  show ?thesis using run_handler_ok[OF pg ok, of h "req\<lparr>rq_matches := ms\<rparr>"] Some p
    by (auto simp: serve_def handled_def split: option.splits)
qed

lemma server_ok_start: "server_ok rows (start_server args db)"
  by (simp add: server_ok_def start_server_def lru_inv_LRUCache cache_lookup_def)

lemma serve_all_ok:
  assumes pg: "pg_table env rows"
  shows "server_ok rows s \<Longrightarrow>
    \<exists>s' rs. serve_all env s reqs = Some (s', rs) \<and> server_ok rows s' \<and> length rs = length reqs"
proof (induction reqs arbitrary: s)
  case (Cons req reqs)
  from serve_ok[OF pg Cons.prems, of req] obtain s1 res where
    s1: "serve env s req = Some (s1, res)" "server_ok rows s1" by blast
  from Cons.IH[OF s1(2)] s1 show ?case by fastforce
qed simp

subsection \<open>A table in memory\<close>

text \<open>The statements of the handlers on a table that is a list of rows and never fails.\<close>

definition mem_pg :: "(string \<times> string) list server_env" where
  "mem_pg =
     \<lparr>env_connect = (\<lambda>_ _. None),
      sql_insert = (\<lambda>db k v. if map_of db k = None then Inr ((k, v) # db) else Inl (Unique_violation [])),
      sql_delete = (\<lambda>db k. Inr (if map_of db k = None then [] else [k], AList.delete k db)),
      sql_select = (\<lambda>db k. Inr (case map_of db k of None \<Rightarrow> [] | Some v \<Rightarrow> [v])),
      sql_update = (\<lambda>db v k. Inr (if map_of db k = None then ([], db) else ([k], AList.update k v db))),
      sql_upsert = (\<lambda>db k v. Inr ([k], AList.update k v db)),
      sql_keys = (\<lambda>db. Inr (remdups (map fst db))),
      sql_commit = (\<lambda>_ view. (None, view)),
      log_is_open = False\<rparr>"

lemma mem_pg_table: "pg_table mem_pg map_of"
  unfolding pg_table_def mem_pg_def
  by (auto simp: AList.update_conv' AList.delete_conv' map_of_eq_None_iff dom_map_of_conv_image_fst
      split: if_splits option.splits)

lemma mem_pg_up: "pg_up mem_pg"
  by (simp add: pg_up_def mem_pg_def)

subsection \<open>Facts about single requests\<close>

text \<open>What \<open>std::getline\<close> finds in the body of a create request.\<close>

lemma split_create_pair:
  assumes "CHR '' '' \<notin> set k" "CHR 0x0A \<notin> set v"
  shows "split_create (k @ '' '' @ v) = (k, v)"
  using assms getline_append[of "CHR '' ''" k v] getline_last[of "CHR 0x0A" v]
  by (cases "v = []") (simp_all add: split_create_def getline_def)

lemma match_word:
  assumes "w \<noteq> []" "list_all is_word w"
  shows "match_pattern (Word_after p) (p @ w) = Some [p @ w, w]"
  using assms by simp

lemma not_word_slash: "list_all is_word w \<Longrightarrow> CHR ''/'' \<notin> set w"
  by (auto simp: list_all_iff is_word_def Let_def)

lemma find_route_word:
  assumes "w \<noteq> []" "list_all is_word w"
  shows "find_route routes ''PUT'' (''/kvstore/'' @ w) = Some (Update, [''/kvstore/'' @ w, w])"
    and "find_route routes ''DELETE'' (''/kvstore/'' @ w) = Some (Delete, [''/kvstore/'' @ w, w])"
    and "w \<noteq> ''allkeys'' \<Longrightarrow> find_route routes ''GET'' (''/kvstore/'' @ w) = Some (Read, [''/kvstore/'' @ w, w])"
    and "find_route routes ''GET'' ''/kvstore/allkeys'' = Some (All_keys, [''/kvstore/allkeys''])"
    and "find_route routes ''POST'' (''/kvstore/sync/'' @ w) = Some (Sync, [''/kvstore/sync/'' @ w, w])"
    and "find_route routes ''POST'' ''/kvstore/create'' = Some (Create, [''/kvstore/create''])"
    and "find_route routes ''GET'' ''/health'' = Some (Health, [''/health''])"
  using assms by (simp_all add: routes_def)

text \<open>A read after a write that succeeded, with the database up.\<close>

lemma read_gives_row:
  assumes "pg_table env rows" "pg_up env" "server_ok rows s" "rows (srv_db s) (rq_matches req ! 1) = Some v"
  obtains s' res where "handle_read env s req = Some (s', res)" "res_status res = 200" "res_body res = v"
    "rows (srv_db s') = rows (srv_db s)" "server_ok rows s'"
  using handle_read_ok[OF assms(1,3), of req] assms(2,4)
  by (auto simp: handled_def split: option.splits)

subsection \<open>Properties\<close>


definition demo_req :: "string \<Rightarrow> string \<Rightarrow> string \<Rightarrow> Request" where
  "demo_req m p body = new_request\<lparr>rq_method := m, rq_path := p, rq_body := body\<rparr>"




text \<open>
  C36. While no connection to the database can be made, a read of a key that is cached with a
  non-empty value is still answered with the value; every other request on the table gets a 500
  with the error, and no state but the read's log and order of use changes.
\<close>

theorem database_unreachable:
  assumes "\<And>cs db. env_connect env cs db = Some (Pg_exception w)" "lru_inv (srv_cache s)"
  shows "(\<forall>h. h \<notin> {Read, Health} \<longrightarrow> run_handler h env s req = Some (s, reply closing 500 (''Error: '' @ w))) \<and>
    (\<exists>s'. srv_db s' = srv_db s \<and> cache_lookup (srv_cache s') = cache_lookup (srv_cache s) \<and>
       run_handler Read env s req = Some (s',
         (case cache_lookup (srv_cache s) (rq_matches req ! 1) of
            Some v \<Rightarrow> if v \<noteq> [] then reply closing 200 v else reply closing 500 (''Error: '' @ w)
          | None \<Rightarrow> reply closing 500 (''Error: '' @ w))))"
proof
  have conn: "get_connection env t = Some (Pg_exception w)" for t
    by (simp add: get_connection_def assms(1))
  have "run_handler h env s req = Some (s, reply closing 500 (''Error: '' @ w))" if "h \<notin> {Read, Health}" for h
    using that by (cases h) (simp_all add: conn error_500_def catch_create_def handle_create_def handle_update_def
        handle_delete_def handle_all_keys_def handle_sync_def split: prod.split)
  then show "\<forall>h. h \<notin> {Read, Health} \<longrightarrow> run_handler h env s req = Some (s, reply closing 500 (''Error: '' @ w))" by blast
  obtain c where "read_key (srv_cache s) (rq_matches req ! 1) =
      Some (case cache_lookup (srv_cache s) (rq_matches req ! 1) of None \<Rightarrow> '''' | Some v \<Rightarrow> v, c)"
    "cache_lookup c = cache_lookup (srv_cache s)"
    using lru.rd_ok[OF assms(2), of "rq_matches req ! 1"] by blast
  then show "\<exists>s'. srv_db s' = srv_db s \<and> cache_lookup (srv_cache s') = cache_lookup (srv_cache s) \<and>
       run_handler Read env s req = Some (s',
         (case cache_lookup (srv_cache s) (rq_matches req ! 1) of
            Some v \<Rightarrow> if v \<noteq> [] then reply closing 200 v else reply closing 500 (''Error: '' @ w)
          | None \<Rightarrow> reply closing 500 (''Error: '' @ w)))"
    by (auto simp: handle_read_def conn error_500_def split: option.split)
qed

definition unreachable_pg :: "(string \<times> string) list server_env" where
  "unreachable_pg = mem_pg\<lparr>env_connect := (\<lambda>_ _. Some (Pg_exception ''down''))\<rparr>"

lemma connect_unreachable: "env_connect unreachable_pg cs db = Some (Pg_exception ''down'')"
  by (simp add: unreachable_pg_def)

lemma database_unreachable_witness:
  "run_handler Update unreachable_pg (start_server [] []) (demo_req ''PUT'' ''/kvstore/k'' ''v'') =
     Some (start_server [] [], reply closing 500 (''Error: '' @ ''down''))"
proof -
  have "lru_inv (srv_cache (start_server [] []))" by (simp add: start_server_def lru_inv_LRUCache)
  then show ?thesis
    by (rule database_unreachable[OF connect_unreachable, THEN conjunct1, THEN spec, THEN mp]) simp
qed

text \<open>
  Read your writes: after an update of a key that was answered with 200, a read of that key
  while the database is up is answered with 200 and the value written, whatever was cached before.
\<close>

theorem read_after_update:
  assumes "pg_table env rows" "pg_up env" "server_ok rows s"
    and "handle_update env s put = Some (s1, res1)" "res_status res1 = 200"
    and "rq_matches get ! 1 = rq_matches put ! 1"
  shows "\<exists>s2 res2. handle_read env s1 get = Some (s2, res2) \<and> res_status res2 = 200 \<and> res_body res2 = rq_body put"
proof -
  have "server_ok rows s1" "rows (srv_db s1) = (rows (srv_db s))(rq_matches put ! 1 \<mapsto> rq_body put)"
    using handle_update_ok[OF assms(1,3), of put] assms(4,5) by (auto simp: handled_def Let_def split: if_splits)
  then show ?thesis
    using read_gives_row[OF assms(1,2), of s1 get "rq_body put"] assms(6) by (metis fun_upd_same)
qed

definition demo_put :: Request where
  "demo_put = (demo_req ''PUT'' ''/kvstore/k'' ''w'')\<lparr>rq_headers := [(''X-Internal-Replication'', ''true'')],
     rq_matches := [''/kvstore/k'', ''k'']\<rparr>"

lemma read_after_update_witness:
  "\<exists>s1 res1 s2 res2. handle_update mem_pg (start_server [] []) demo_put = Some (s1, res1) \<and>
     handle_read mem_pg s1 demo_put = Some (s2, res2) \<and> res_status res2 = 200 \<and> res_body res2 = ''w''"
proof -
  have "handled mem_pg map_of Update (start_server [] []) demo_put (handle_update mem_pg (start_server [] []) demo_put)"
    by (rule handle_update_ok[OF mem_pg_table server_ok_start])
  then obtain s1 res1 where u: "handle_update mem_pg (start_server [] []) demo_put = Some (s1, res1)" "res_status res1 = 200"
    using mem_pg_up by (auto simp: handled_def Let_def demo_put_def demo_req_def has_header_def headers_has_def split: option.splits if_splits)
  have "rq_body demo_put = ''w''" by (simp add: demo_put_def demo_req_def)
  with read_after_update[OF mem_pg_table mem_pg_up server_ok_start u, of demo_put] u(1) show ?thesis by auto
qed

text \<open>
  The sync route, documented as never overwriting a newer value, overwrites whatever is stored:
  if the database does not fail the key afterwards has the value that was sent, the answer is
  always 201, and the answer that a newer version was present is never given.
\<close>

theorem sync_always_overwrites:
  assumes "pg_table env rows" "server_ok rows s" "handle_sync env s req = Some (s', res)" "res_status res \<noteq> 500"
  shows "rows (srv_db s') = (rows (srv_db s))(rq_matches req ! 1 \<mapsto> rq_body req) \<and> res_status res = 201 \<and>
    res_body res = ''Synced Successfully'' @ [CHR 0x0A]"
  using handle_sync_ok[OF assms(1,2), of req] assms(3,4) by (auto simp: handled_def)

lemma sync_always_overwrites_witness:
  "\<exists>s' res. handle_sync mem_pg (start_server [] [(''k'', ''new'')]) (demo_put\<lparr>rq_body := ''old''\<rparr>) = Some (s', res) \<and>
     map_of (srv_db s') ''k'' = Some ''old''"
proof -
  let ?s = "start_server [] [(''k'', ''new'')]" and ?r = "demo_put\<lparr>rq_body := ''old''\<rparr>"
  have "handled mem_pg map_of Sync ?s ?r (handle_sync mem_pg ?s ?r)"
    by (rule handle_sync_ok[OF mem_pg_table server_ok_start])
  then obtain s' res where u: "handle_sync mem_pg ?s ?r = Some (s', res)" "res_status res \<noteq> 500"
    using mem_pg_up by (auto simp: handled_def split: option.splits)
  from sync_always_overwrites[OF mem_pg_table server_ok_start u] u(1) show ?thesis
    by (auto simp: demo_put_def)
qed

text \<open>
  A create request stores the pair it was sent: the first space of the body separates key and
  value, and a value may hold spaces but ends at the first line end.
\<close>

theorem create_body_roundtrip:
  assumes "CHR '' '' \<notin> set k" "CHR 0x0A \<notin> set v"
  shows "split_create (k @ '' '' @ v) = (k, v) \<and> split_create (k @ '' '' @ v @ CHR 0x0A # rest) = (k, v)"
  using split_create_pair[OF assms] getline_append[OF assms(1)] getline_append[OF assms(2), of rest]
  by (simp add: split_create_def)

lemma create_body_roundtrip_witness:
  "split_create (''k'' @ '' '' @ ''two words'') = (''k'', ''two words'')"
  using create_body_roundtrip[of "''k''" "''two words''"] by simp

text \<open>
  Routing: a key of word characters reaches the handler of its method with the key as its
  match, except that a read of the key \<open>allkeys\<close> lists the keys instead; the other routes are
  matched literally.
\<close>

theorem routes_by_key:
  assumes "w \<noteq> []" "list_all is_word w"
  shows "find_route routes ''PUT'' (''/kvstore/'' @ w) = Some (Update, [''/kvstore/'' @ w, w]) \<and>
    find_route routes ''DELETE'' (''/kvstore/'' @ w) = Some (Delete, [''/kvstore/'' @ w, w]) \<and>
    find_route routes ''GET'' (''/kvstore/'' @ w) =
      (if w = ''allkeys'' then Some (All_keys, [''/kvstore/allkeys'']) else Some (Read, [''/kvstore/'' @ w, w])) \<and>
    find_route routes ''POST'' (''/kvstore/sync/'' @ w) = Some (Sync, [''/kvstore/sync/'' @ w, w])"
  using find_route_word[OF assms] by simp

lemma routes_by_key_witness:
  "find_route routes ''GET'' (''/kvstore/'' @ ''k_1'') = Some (Read, [''/kvstore/k_1'', ''k_1''])"
  using routes_by_key[of "''k_1''"] by (simp add: is_word_def)

end
