(* ===== verification/KvWire.thy ===== *)
theory KvWire
  imports KvServer RequestWire ResponseWire
begin

text \<open>
  The key-value server as it is built: the handlers of kvserver.cpp registered with the library's
  server, which reads requests from the bytes of a connection and writes responses to it. The lemmas
  show that the whole server, from bytes to bytes, does what \<open>serve\<close> says on the request the bytes
  stand for. \<open>std::regex_match\<close> is a parameter; \<open>regex_ok\<close> is what the C++ standard says of the two
  shapes of pattern the server registers.
\<close>

subsection \<open>Registration\<close>

text \<open>The text of a pattern; \<open>CHR 0x5C\<close> is the backslash.\<close>

fun pattern_text :: "pattern \<Rightarrow> string" where
  "pattern_text (Literal p) = p"
| "pattern_text (Word_after p) = p @ ''('' @ CHR 0x5C # ''w+)''"

definition regex_char :: "char \<Rightarrow> bool" where
  "regex_char c \<longleftrightarrow> is_word c \<or> c = CHR ''/''"

definition regex_ok :: "http_lib \<Rightarrow> bool" where
  "regex_ok lib \<longleftrightarrow> (\<forall>p path. list_all regex_char p \<longrightarrow>
     h_regex_match lib (pattern_text (Literal p)) path = match_pattern (Literal p) path \<and>
     h_regex_match lib (pattern_text (Word_after p)) path = match_pattern (Word_after p) path)"

text \<open>A handler of the program as a handler of the library; it is always given a new response.\<close>

definition kv_handler :: "'db server_env \<Rightarrow> handler \<Rightarrow> 'db server handler_fn" where
  "kv_handler env h w req res = map_option (\<lambda>(w', res'). (w', None, res')) (run_handler h env w req)"

fun register :: "'db server_env \<Rightarrow> (string \<times> pattern \<times> handler) list \<Rightarrow> 'db server http_server \<Rightarrow>
    string + 'db server http_server" where
  "register env [] srv = Inr srv"
| "register env ((m, p, h) # rs) srv =
     (let add = (if m = ''GET'' then server_Get else if m = ''POST'' then server_Post
                 else if m = ''PUT'' then server_Put else server_Delete)
      in (case add (pattern_text p) (kv_handler env h) srv of
            Inl e \<Rightarrow> Inl e
          | Inr srv' \<Rightarrow> register env rs srv'))"

definition kv_http :: "'db server_env \<Rightarrow> string + 'db server http_server" where
  "kv_http env = register env routes new_server"

definition route_handlers :: "'db server_env \<Rightarrow> (string \<times> pattern \<times> handler) list \<Rightarrow> 'db server handlers" where
  "route_handlers env rs = map (\<lambda>(m, p, h). (RegexMatcher (pattern_text p), kv_handler env h)) rs"

definition served_method :: "string \<Rightarrow> string" where
  "served_method m = (if m = ''HEAD'' then ''GET'' else m)"

definition method_routes :: "string \<Rightarrow> (string \<times> pattern \<times> handler) list" where
  "method_routes m = filter (\<lambda>(m', p, h). m' = served_method m) routes"

lemma kv_http_handlers:
  assumes "m \<in> {''GET'', ''HEAD'', ''POST'', ''PUT'', ''DELETE''}"
  shows "\<exists>srv. kv_http env = Inr srv \<and> method_handlers srv m = route_handlers env (method_routes m)"
  using assms
  by (auto simp: kv_http_def routes_def server_Get_def server_Post_def server_Put_def server_Delete_def
      make_matcher_def new_server_def method_handlers_def route_handlers_def method_routes_def served_method_def)

lemma find_route_method: "find_route rs m path = find_route (filter (\<lambda>(m', p, h). m' = served_method m) rs) m path"
  by (induction rs m path rule: find_route.induct) (auto simp: served_method_def split: option.split)

subsection \<open>Dispatching\<close>

text \<open>What a handler reads of a request.\<close>

definition same_request :: "Request \<Rightarrow> Request \<Rightarrow> bool" where
  "same_request req req' \<longleftrightarrow> rq_matches req = rq_matches req' \<and> rq_body req = rq_body req' \<and>
     has_header req ''X-Internal-Replication'' = has_header req' ''X-Internal-Replication''"

lemma run_handler_same: "same_request req req' \<Longrightarrow> run_handler h env w req = run_handler h env w req'"
  by (cases h) (simp_all add: same_request_def handle_create_def handle_update_def handle_delete_def
      handle_all_keys_def handle_read_def handle_sync_def handle_health_def)

text \<open>The fields of a request a match and a route change.\<close>

definition routed_from :: "Request \<Rightarrow> Request \<Rightarrow> bool" where
  "routed_from req req' \<longleftrightarrow> (\<exists>ms ps r. req' = req\<lparr>rq_matches := ms, rq_path_params := ps, rq_matched_route := r\<rparr>)"

lemma routed_from_fields:
  "routed_from req req' \<Longrightarrow> rq_method req' = rq_method req \<and> rq_headers req' = rq_headers req \<and>
     rq_ranges req' = rq_ranges req \<and> rq_body req' = rq_body req \<and> rq_path req' = rq_path req"
  by (auto simp: routed_from_def)

lemma dispatch_routes:
  assumes "regex_ok lib" "\<forall>(m', p, h) \<in> set rs. m' = served_method m \<and>
      (case p of Literal q \<Rightarrow> list_all regex_char q | Word_after q \<Rightarrow> list_all regex_char q)"
  shows "\<exists>req'. routed_from req req' \<and>
    dispatch_request lib w req res (route_handlers env rs) =
      (case find_route rs m (rq_path req) of
         None \<Rightarrow> Some (w, req', res, Inr False)
       | Some (h, ms) \<Rightarrow>
           map_option (\<lambda>(w', res'). (w', req', res', Inr True)) (run_handler h env w (req\<lparr>rq_matches := ms\<rparr>)))"
  using assms(2)
proof (induction rs arbitrary: req)
  case Nil
  show ?case
    by (intro exI[of _ req] conjI)
       (auto simp: routed_from_def route_handlers_def
         intro!: exI[of _ "rq_matches req"] exI[of _ "rq_path_params req"] exI[of _ "rq_matched_route req"])
next
  case (Cons x rs)
  obtain m' p h where x: "x = (m', p, h)" by (cases x) auto
  have m': "m' = served_method m" using Cons.prems x by simp
  have re: "h_regex_match lib (pattern_text p) path = match_pattern p path" for path
    using assms(1) Cons.prems x by (cases p) (auto simp: regex_ok_def)
  show ?case
  proof (cases "match_pattern p (rq_path req)")
    case None
    let ?req = "req\<lparr>rq_path_params := [], rq_matches := []\<rparr>"
    obtain req' where req': "routed_from ?req req'"
      "dispatch_request lib w ?req res (route_handlers env rs) =
        (case find_route rs m (rq_path ?req) of
           None \<Rightarrow> Some (w, req', res, Inr False)
         | Some (h, ms) \<Rightarrow>
             map_option (\<lambda>(w', res'). (w', req', res', Inr True)) (run_handler h env w (?req\<lparr>rq_matches := ms\<rparr>)))"
      using Cons.IH[of ?req] Cons.prems by auto
    moreover have "run_handler h env w (?req\<lparr>rq_matches := ms\<rparr>) = run_handler h env w (req\<lparr>rq_matches := ms\<rparr>)" for h ms
      by (rule run_handler_same) (simp add: same_request_def has_header_def)
    moreover have "dispatch_request lib w req res (route_handlers env (x # rs)) =
        dispatch_request lib w ?req res (route_handlers env rs)"
      using None re by (simp add: x route_handlers_def)
    moreover have "find_route (x # rs) m (rq_path req) = find_route rs m (rq_path ?req)"
      using None m' by (simp add: x served_method_def)
    moreover have "routed_from req req'" using req' by (auto simp: routed_from_def)
    ultimately show ?thesis by (intro exI[of _ req']) (simp only: simp_thms)
  next
    case (Some ms)
    let ?req = "req\<lparr>rq_path_params := [], rq_matches := ms, rq_matched_route := pattern_text p\<rparr>"
    have "run_handler h env w ?req = run_handler h env w (req\<lparr>rq_matches := ms\<rparr>)"
      by (rule run_handler_same) (simp add: same_request_def has_header_def)
    moreover have "?req = req\<lparr>rq_matches := ms, rq_path_params := [], rq_matched_route := pattern_text p\<rparr>" by simp
    then have "routed_from req ?req" unfolding routed_from_def by blast
    ultimately show ?thesis
      using Some m' re
      by (intro exI[of _ ?req])
         (auto simp: x route_handlers_def served_method_def kv_handler_def Let_def split: option.split)
  qed
qed

lemma method_routes_plain:
  "\<forall>(m', p, h) \<in> set (method_routes m). m' = served_method m \<and>
     (case p of Literal q \<Rightarrow> list_all regex_char q | Word_after q \<Rightarrow> list_all regex_char q)"
proof -
  have "list_all (\<lambda>(m', p, h). case p of Literal q \<Rightarrow> list_all regex_char q | Word_after q \<Rightarrow> list_all regex_char q) routes"
    by code_simp
  then show ?thesis by (auto simp: method_routes_def list_all_iff)
qed

subsection \<open>The responses of the handlers\<close>

definition kv_response :: "Response \<Rightarrow> bool" where
  "kv_response res \<longleftrightarrow> fields_valid (res_headers res) \<and> (\<forall>key \<in> framing_fields. \<not> headers_has (res_headers res) key) \<and>
     headers_size (res_headers res) \<le> 100 \<and> 200 \<le> res_status res \<and> res_status res < 600 \<and>
     res_status res \<notin> {204, 304}"

lemma headers_size_filter: "headers_size (filter P hs) \<le> headers_size hs"
  by (induction hs) (auto simp: headers_size_def)

lemma kv_response_reply:
  assumes "fields_valid (res_headers res)" "\<forall>key \<in> framing_fields. \<not> headers_has (res_headers res) key"
    "headers_size (res_headers res) \<le> 50" "200 \<le> code" "code < 600" "code \<notin> {204, 304}"
  shows "kv_response (reply res code body)"
proof -
  let ?hs = "filter (\<lambda>(n, v). \<not> case_equal n ''Content-Type'') (res_headers res)"
  let ?res = "res\<lparr>res_status := code, res_body := body, res_headers := ?hs\<rparr>"
  have "fields_valid (res_headers ?res)" "\<forall>key \<in> framing_fields. \<not> headers_has (res_headers ?res) key"
    using assms by (auto simp: fields_valid_def headers_has_def list_ex_iff)
  moreover have "headers_size (res_headers (set_header ''Content-Type'' ''text/plain'' ?res)) \<le> 100"
    using headers_size_set_header[of "''Content-Type''" "''text/plain''" ?res] assms(3)
      headers_size_filter[of "\<lambda>(n, v). \<not> case_equal n ''Content-Type''" "res_headers res"] by simp
  ultimately have "kv_response (set_header ''Content-Type'' ''text/plain'' ?res)"
    using assms(4-6) by (simp add: kv_response_def set_header_fields not_framing)
  then show ?thesis by (simp add: reply_def set_content_def)
qed

lemma kv_response_closing:
  assumes "200 \<le> code" "code < 600" "code \<notin> {204, 304}"
  shows "kv_response (reply closing code body)" "kv_response (reply new_response code body)"
proof -
  have n: "fields_valid (res_headers new_response)" "\<forall>key \<in> framing_fields. \<not> headers_has (res_headers new_response) key"
    "headers_size (res_headers new_response) = 0"
    by (simp_all add: new_response_def fields_valid_def headers_has_def headers_size_def)
  then show "kv_response (reply new_response code body)" using assms by (intro kv_response_reply) simp_all
  show "kv_response (reply closing code body)"
    using headers_size_set_header[of "''Connection''" "''close''" new_response] n assms
    by (intro kv_response_reply) (simp_all add: closing_def set_header_fields not_framing)
qed

lemma kv_response_catch: "kv_response (catch_create e)" "kv_response (error_500 e)"
  by (simp_all add: catch_create_def error_500_def kv_response_closing split: pg_error.split)

text \<open>Every response of a handler is sent as it is: nothing in it disturbs the message.\<close>

lemma run_handler_response: "run_handler h env w req = Some (w', res) \<Longrightarrow> kv_response res"
  by (cases h)
     (auto simp: handle_create_def handle_delete_def handle_read_def handle_update_def handle_all_keys_def
       handle_sync_def handle_health_def Let_def kv_response_catch kv_response_closing
       split: option.splits prod.splits sum.splits list.splits if_splits)

subsection \<open>From bytes to bytes\<close>

definition peer_headers :: "peer \<Rightarrow> headers" where
  "peer_headers p = rq_headers (add_peer p new_request)"

lemma add_peer_conv: "add_peer p req = req\<lparr>rq_headers := rq_headers req @ peer_headers p\<rparr>"
  by (auto simp: add_peer_def peer_headers_def request_set_header_def emplace_header_def new_request_def)

lemma peer_headers_names: "fst ` set (peer_headers p) \<subseteq> {''REMOTE_ADDR'', ''REMOTE_PORT'', ''LOCAL_ADDR'', ''LOCAL_PORT''}"
  by (auto simp: peer_headers_def add_peer_def request_set_header_def emplace_header_def new_request_def)

lemma peer_headers_values:
  assumes "list_all (\<lambda>n. \<not> case_equal n key) [''REMOTE_ADDR'', ''REMOTE_PORT'', ''LOCAL_ADDR'', ''LOCAL_PORT'']"
  shows "header_values (peer_headers p) key = []"
proof -
  have "\<not> case_equal n key" if "(n, v) \<in> set (peer_headers p)" for n v
    using that peer_headers_names[of p] assms by force
  then show ?thesis by (auto simp: header_values_def filter_empty_conv)
qed

lemma other_names:
  "key \<in> {''Range'', ''Expect'', ''Transfer-Encoding'', ''Content-Encoding'', ''Accept'', ''Content-Type'', ''Content-Length'',
     ''X-Internal-Replication''} \<Longrightarrow>
   list_all (\<lambda>n. \<not> case_equal n key) [''REMOTE_ADDR'', ''REMOTE_PORT'', ''LOCAL_ADDR'', ''LOCAL_PORT'']"
  by (elim insertE emptyE) (simp_all add: case_equal_def)

lemma peer_values:
  "key \<in> {''Range'', ''Expect'', ''Transfer-Encoding'', ''Content-Encoding'', ''Accept'', ''Content-Type'', ''Content-Length'',
     ''X-Internal-Replication''} \<Longrightarrow> header_values (hs @ peer_headers p) key = header_values hs key"
  using peer_headers_values[OF other_names] by (simp add: header_values_append)

lemma request_ok_peer:
  assumes "request_ok lib m hs body"
  shows "request_ok lib m (hs @ peer_headers p) body"
proof -
  have "filter (\<lambda>(n, v). case_equal n ''Content-Length'') (peer_headers p) = []"
    using peer_headers_values[OF other_names, of "''Content-Length''" p] by (simp add: header_values_def)
  with assms show ?thesis by (simp add: request_ok_def framed_def peer_values)
qed

text \<open>A request with a well-formed head is routed; its content is read and the rest is left.\<close>

lemma handle_head_framed:
  assumes "iteration (h_ord lib)" "request_ok lib (rq_method req) (rq_headers req) body" "rq_body req = []" "rq_ranges req = []"
    "stream_ok s" "unread s = body @ r"
  obtains s' closed where "unread s' = r" "same_end s s'"
    "handle_head lib srv p cc w req s =
      (case dispatch_request lib w ((add_peer p req)\<lparr>rq_body := body\<rparr>) new_response (method_handlers srv (rq_method req)) of
         None \<Rightarrow> None
       | Some (w', req', res, outcome) \<Rightarrow>
           Some (w', let (ret, s'') = finish_request lib cc req' (catch_exception outcome res) s' in (ret, closed, s'')))"
proof -
  let ?req = "add_peer p req"
  have rq: "rq_method ?req = rq_method req" "rq_headers ?req = rq_headers req @ peer_headers p" "rq_body ?req = []"
    using assms(3) by (simp_all add: add_peer_conv)
  note ok = request_ok_peer[OF assms(2), of p]
  have acc: "\<not> (has_header ?req ''Accept'' \<and> \<not> parse_accept_header (h_stod lib) (get_header_value (h_ord lib) (rq_headers ?req) ''Accept'' []))"
  proof (cases "header_values (rq_headers ?req) ''Accept'' = []")
    case True
    then show ?thesis by (simp add: has_header_def header_values_has)
  next
    case False
    from get_header_value_in[OF assms(1) this, of "[]"] ok show ?thesis by (simp add: rq(2) request_ok_def)
  qed
  have rng: "\<not> has_header ?req ''Range''"
    using ok by (simp add: has_header_def rq(2) request_ok_def flip: header_values_has)
  have ex: "get_header_value (h_ord lib) (rq_headers ?req) ''Expect'' [] = []"
    using ok by (simp add: rq(2) request_ok_def get_header_value_none[OF assms(1)])
  have same: "?req\<lparr>rq_ranges := []\<rparr> = ?req" using assms(4) by (simp add: add_peer_conv)
  obtain s' where s': "routing lib srv w ?req new_response s =
      (dispatch_request lib w (?req\<lparr>rq_body := body\<rparr>) new_response (method_handlers srv (rq_method ?req)), s')"
    "unread s' = r" "same_end s s'"
    by (rule routing_framed[OF assms(1) _ rq(3) assms(5,6)]) (use ok rq in simp_all)
  show ?thesis
    by (rule that[OF s'(2,3)])
       (simp add: handle_head_def Let_def acc rng ex same s'(1) rq(1) split: option.split prod.split)
qed

text \<open>
  The bytes \<open>raw\<close> are the response \<open>res\<close>, as a message and for the load balancer's parser; \<open>head\<close> says
  that the request was a HEAD request, whose response has no content.
\<close>

definition carries :: "bool \<Rightarrow> string \<Rightarrow> Response \<Rightarrow> bool" where
  "carries head raw res \<longleftrightarrow>
     is_message head raw res \<and> sized_response raw \<and>
     (let p = parseHTTPResponse raw
      in if head \<and> res_body res \<noteq> [] then rparse_status p = INCOMPLETE
         else rparse_status p = COMPLETE \<and> statusCode (response p) = res_status res \<and>
              resp_body (response p) = res_body res \<and> rawResponse (response p) = raw)"

lemma carries_bytes:
  assumes "iteration (h_ord lib)" "kv_response res" "rq_ranges req = []" "need \<or> res_body res = []"
    "length (res_body res) < 2 ^ 62"
  shows "carries (rq_method req = ''HEAD'') (response_bytes lib cc req res need) res"
proof -
  have k: "fields_valid (res_headers res)" "\<not> headers_has (res_headers res) ''Content-Length''"
    "0 \<le> res_status res" "res_status res < 2 ^ 31"
    using assms(2) by (simp_all add: kv_response_def framing_fields_def)
  have msg: "is_message (rq_method req = ''HEAD'') (response_bytes lib cc req res need) res"
    by (rule response_bytes_message[OF assms(1,3) k(1) _ assms(4) _ assms(5)]) (use assms(2) in \<open>simp_all add: kv_response_def\<close>)
  have len: "length (response_bytes lib cc req res need) + length (res_body res) < 2 ^ 64"
    using response_bytes_length[OF assms(1,3) k(1,2) assms(4), of cc] assms(2,5) by (simp add: kv_response_def)
  show ?thesis
  proof (rule parse_sent[OF assms(1,3) k(1,2) assms(4) k(3,4) len])
    fix h r
    assume h: "response_bytes lib cc req res need = h @ (if rq_method req = ''HEAD'' then [] else res_body res)"
      and r: "statusCode r = res_status res" "4 \<le> length h" "\<And>b. sized_response (h @ b)"
      and p: "\<And>b. parseHTTPResponse (h @ b) =
       (if length b < length (res_body res) then partial_response r
        else full_response (h @ b) (length h - 4) r (length (res_body res)) (length h + length (res_body res)))"
    show ?thesis
    proof (cases "rq_method req = ''HEAD'' \<and> res_body res \<noteq> []")
      case True
      with h p[of "[]"] r(3)[of "[]"] msg show ?thesis by (simp add: carries_def Let_def)
    next
      case False
      with h have e: "response_bytes lib cc req res need = h @ res_body res" by auto
      have "\<not> (rq_method req = ''HEAD'' \<and> res_body res \<noteq> [])" by (rule False)
      then show ?thesis
        unfolding carries_def Let_def e p using r msg[unfolded e]
        by (simp add: full_response_def)
    qed
  qed
qed

text \<open>The answer to a request that was routed, or to one no handler was found for.\<close>

lemma finish_request_bytes:
  assumes "kv_response res" "rq_ranges req = []" "send_results s = []"
  shows "finish_request lib cc req (True, res) s = (True, s\<lparr>sent := sent s @ response_bytes lib cc req res True\<rparr>)"
    "finish_request lib cc req (False, new_response) s =
       (True, s\<lparr>sent := sent s @ response_bytes lib cc req (new_response\<lparr>res_status := 404\<rparr>) False\<rparr>)"
proof -
  have "req\<lparr>rq_ranges := []\<rparr> = req" using assms(2) by simp
  then have "response_bytes lib cc (req\<lparr>rq_ranges := []\<rparr>) = response_bytes lib cc req" by (rule arg_cong)
  with assms show "finish_request lib cc req (True, res) s = (True, s\<lparr>sent := sent s @ response_bytes lib cc req res True\<rparr>)"
    "finish_request lib cc req (False, new_response) s =
       (True, s\<lparr>sent := sent s @ response_bytes lib cc req (new_response\<lparr>res_status := 404\<rparr>) False\<rparr>)"
    by (simp_all add: finish_request_def default_status_def kv_response_def range_error_def
        write_response_with_content_def write_response_def write_response_core_bytes)
       (simp_all add: new_response_def)
qed

lemma kv_response_404: "kv_response (new_response\<lparr>res_status := 404\<rparr>)"
  by (simp add: kv_response_def new_response_def fields_valid_def headers_has_def headers_size_def)

definition request_of :: "string \<Rightarrow> string \<Rightarrow> headers \<Rightarrow> string \<Rightarrow> Request" where
  "request_of m t hs body = new_request\<lparr>rq_method := m, rq_path := t, rq_headers := map decoded hs, rq_body := body\<rparr>"

lemma run_handler_request:
  "run_handler h env w (((add_peer p ((with_line m t new_request)\<lparr>rq_headers := map decoded hs\<rparr>))\<lparr>rq_body := body\<rparr>)\<lparr>rq_matches := ms\<rparr>) =
   run_handler h env w ((request_of m t hs body)\<lparr>rq_matches := ms\<rparr>)"
proof (rule run_handler_same)
  have "headers_has (hs' @ peer_headers p) ''X-Internal-Replication'' = headers_has hs' ''X-Internal-Replication''" for hs'
    using peer_values[of "''X-Internal-Replication''" hs' p] header_values_has by (metis insertCI)
  then show "same_request
      (((add_peer p ((with_line m t new_request)\<lparr>rq_headers := map decoded hs\<rparr>))\<lparr>rq_body := body\<rparr>)\<lparr>rq_matches := ms\<rparr>)
      ((request_of m t hs body)\<lparr>rq_matches := ms\<rparr>)"
    by (simp add: same_request_def add_peer_conv request_of_def has_header_def)
qed

text \<open>The whole path of a request: its head, its content, the dispatch and the response.\<close>

lemma process_serves:
  assumes "iteration (h_ord lib)" "regex_ok lib" "kv_http env = Inr srv"
    "stream_ok s" "send_results s = []" "unread s = head_text m t hs @ body @ rest"
    "head_ok m t hs" "request_ok lib m (map decoded hs) body"
  shows "case serve env w (request_of m t hs body) of
      None \<Rightarrow> process_request lib srv p cc w s = None
    | Some (w', res) \<Rightarrow>
        \<exists>closed s' raw. process_request lib srv p cc w s = Some (w', True, closed, s') \<and>
          unread s' = rest \<and> sent s' = sent s @ raw \<and>
          (length (res_body res) < 2 ^ 62 \<longrightarrow> carries (m = ''HEAD'') raw res)"
proof -
  let ?req = "(with_line m t new_request)\<lparr>rq_headers := map decoded hs\<rparr>"
  let ?full = "(add_peer p ?req)\<lparr>rq_body := body\<rparr>"
  obtain s1 where s1: "process_request lib srv p cc w s = handle_head lib srv p cc w ?req s1"
    "unread s1 = body @ rest" "same_end s s1"
    by (rule process_head[OF assms(4,6,7)])
  obtain s2 closed where s2: "unread s2 = rest" "same_end s1 s2"
    "handle_head lib srv p cc w ?req s1 =
      (case dispatch_request lib w ?full new_response (method_handlers srv (rq_method ?req)) of
         None \<Rightarrow> None
       | Some (w', req', res, outcome) \<Rightarrow>
           Some (w', let (ret, s'') = finish_request lib cc req' (catch_exception outcome res) s2 in (ret, closed, s'')))"
    by (rule handle_head_framed[OF assms(1), of ?req body s1 rest srv p cc w])
       (use assms(8) s1 in \<open>simp_all add: with_line_def new_request_def same_end_def\<close>)
  have m: "m \<in> {''GET'', ''HEAD'', ''POST'', ''PUT'', ''DELETE''}" using assms(8) by (simp add: request_ok_def)
  have hs: "method_handlers srv (rq_method ?req) = route_handlers env (method_routes m)"
    using kv_http_handlers[OF m, of env] assms(3) by (simp add: with_line_def)
  obtain req' where req': "routed_from ?full req'"
    "dispatch_request lib w ?full new_response (route_handlers env (method_routes m)) =
      (case find_route (method_routes m) m (rq_path ?full) of
         None \<Rightarrow> Some (w, req', new_response, Inr False)
       | Some (h, ms) \<Rightarrow>
           map_option (\<lambda>(w', res'). (w', req', res', Inr True)) (run_handler h env w (?full\<lparr>rq_matches := ms\<rparr>)))"
    using dispatch_routes[OF assms(2) method_routes_plain] by blast
  have f: "rq_method req' = m" "rq_ranges req' = []"
    using routed_from_fields[OF req'(1)] by (simp_all add: add_peer_conv with_line_def new_request_def)
  have send: "send_results s2 = []" "sent s2 = sent s" using s1(3) s2(2) assms(5) by (simp_all add: same_end_def)
  have route: "find_route (method_routes m) m (rq_path ?full) = find_route routes m t"
    using find_route_method[of routes m t] by (simp add: add_peer_conv with_line_def method_routes_def)
  note finish = finish_request_bytes[OF _ f(2) send(1), of _ lib cc]
  have un: "unread (s2\<lparr>sent := x\<rparr>) = rest" for x using s2(1) by (simp add: unread_def)
  show ?thesis
  proof (cases "find_route routes m t")
    case None
    let ?raw = "response_bytes lib cc req' (new_response\<lparr>res_status := 404\<rparr>) False"
    have "dispatch_request lib w ?full new_response (method_handlers srv (rq_method ?req)) =
        Some (w, req', new_response, Inr False)"
      unfolding hs req'(2) route None by simp
    then have "process_request lib srv p cc w s = Some (w, True, closed, s2\<lparr>sent := sent s @ ?raw\<rparr>)"
      unfolding s1(1) s2(3) using finish(2)[OF kv_response_404] by (simp add: catch_exception_def send(2))
    moreover have "serve env w (request_of m t hs body) = Some (w, new_response\<lparr>res_status := 404\<rparr>)"
      using None by (simp add: serve_def request_of_def)
    moreover have "carries (m = ''HEAD'') ?raw (new_response\<lparr>res_status := 404\<rparr>)"
      using carries_bytes[OF assms(1) kv_response_404 f(2), of False cc] f(1) by (simp add: new_response_def)
    ultimately show ?thesis using un by (auto simp: new_response_def)
  next
    case (Some x)
    then obtain h ms where x: "find_route routes m t = Some (h, ms)" by (cases x) auto
    let ?out = "run_handler h env w ((request_of m t hs body)\<lparr>rq_matches := ms\<rparr>)"
    have d: "dispatch_request lib w ?full new_response (method_handlers srv (rq_method ?req)) =
        map_option (\<lambda>(w', res'). (w', req', res', Inr True)) ?out"
      unfolding hs req'(2) route x by (simp add: run_handler_request)
    have sv: "serve env w (request_of m t hs body) = ?out"
      using x by (simp add: serve_def request_of_def)
    show ?thesis
    proof (cases ?out)
      case None
      with s1(1) s2(3) d sv show ?thesis by simp
    next
      case (Some y)
      then obtain w' res where y: "?out = Some (w', res)" by (cases y) auto
      let ?raw = "response_bytes lib cc req' res True"
      note k = run_handler_response[OF y]
      have "process_request lib srv p cc w s = Some (w', True, closed, s2\<lparr>sent := sent s @ ?raw\<rparr>)"
        unfolding s1(1) s2(3) d y using finish(1)[OF k] by (simp add: catch_exception_def send(2))
      moreover have "length (res_body res) < 2 ^ 62 \<longrightarrow> carries (m = ''HEAD'') ?raw res"
        using carries_bytes[OF assms(1) k f(2), of True cc] f(1) by simp
      ultimately show ?thesis using un sv y by auto
    qed
  qed
qed

text \<open>A library whose regular expressions are those of the two shapes of pattern.\<close>

definition kv_regex :: "string \<Rightarrow> string \<Rightarrow> string list option" where
  "kv_regex p path =
     (let q = take (length p - 5) p
      in if p = pattern_text (Word_after q) then match_pattern (Word_after q) path else match_pattern (Literal p) path)"

definition kv_lib :: http_lib where
  "kv_lib = plain_lib\<lparr>h_regex_match := kv_regex\<rparr>"

lemma kv_lib_ok: "regex_ok kv_lib" "iteration (h_ord kv_lib)"
proof -
  have "p \<noteq> pattern_text (Word_after q)" if "list_all regex_char p" for p q
    using that by (auto simp: regex_char_def is_word_def)
  then show "regex_ok kv_lib" by (simp add: regex_ok_def kv_lib_def kv_regex_def)
qed (simp add: kv_lib_def plain_lib_def iteration_def)

definition demo_peer :: peer where
  "demo_peer = \<lparr>remote_addr = ''127.0.0.1'', remote_port = 50000, local_addr = ''127.0.0.1'', local_port = 9001\<rparr>"

text \<open>A request with one header, whatever its method.\<close>

lemma demo_head:
  assumes "m \<in> {''GET'', ''HEAD''}"
  shows "head_ok m ''/health'' [(''Host'', ''a'')]" "request_ok lib m (map decoded [(''Host'', ''a'')]) []"
    "serve mem_pg w (request_of m ''/health'' [(''Host'', ''a'')] []) = Some (w, reply new_response 200 ''OK'')"
proof -
  have "\<forall>x \<in> set [(''Host'', ''a'')]. field_ok x"
    by (simp add: field_ok_def field_name field_value header_line_def CR_LF_def HEADER_MAX_LENGTH_def)
  with assms show "head_ok m ''/health'' [(''Host'', ''a'')]"
    by (auto simp: head_ok_def known_methods_def target_ok_def REQUEST_URI_MAX_LENGTH_def HEADER_MAX_COUNT_def)
  have hv: "header_values (map decoded [(''Host'', ''a'')]) key = []"
    if "key \<in> {''Range'', ''Expect'', ''Transfer-Encoding'', ''Content-Encoding'', ''Accept'', ''Content-Type'', ''Content-Length''}" for key
    using that by (auto simp: header_values_def decoded_def case_equal_def)
  with assms show "request_ok lib m (map decoded [(''Host'', ''a'')]) []"
    by (auto simp: request_ok_def framed_def)
  show "serve mem_pg w (request_of m ''/health'' [(''Host'', ''a'')] []) = Some (w, reply new_response 200 ''OK'')"
    using assms by (auto simp: serve_def request_of_def routes_def new_request_def is_word_def handle_health_def)
qed

definition demo_bytes :: stream where
  "demo_bytes = demo_stream [''GET /hea'', ''lth HTTP/1.1'' @ CR_LF @ ''Host: a'' @ CR_LF @ CR_LF]"

subsection \<open>Properties\<close>

text \<open>
  C5. The server refines \<open>serve\<close>, from bytes to bytes. For the bytes of a well-formed request, in
  whatever packets they arrive, the server of the library with the program's routes changes the
  world as \<open>serve\<close> does on the request they stand for, consumes exactly these bytes, and sends bytes
  the load balancer's parser takes for the response \<open>serve\<close> gives. It runs into undefined behaviour
  only if \<open>serve\<close> does.
\<close>

theorem bytes_refine_serve:
  assumes "iteration (h_ord lib)" "regex_ok lib" "kv_http env = Inr srv"
    "stream_ok s" "send_results s = []" "unread s = head_text m t hs @ body @ rest"
    "head_ok m t hs" "request_ok lib m (map decoded hs) body"
  shows "case serve env w (request_of m t hs body) of
      None \<Rightarrow> process_request lib srv p cc w s = None
    | Some (w', res) \<Rightarrow>
        \<exists>closed s' raw. process_request lib srv p cc w s = Some (w', True, closed, s') \<and>
          unread s' = rest \<and> sent s' = sent s @ raw \<and>
          (length (res_body res) < 2 ^ 62 \<longrightarrow> carries (m = ''HEAD'') raw res)"
  by (rule process_serves[OF assms])

lemma bytes_refine_serve_witness:
  "\<exists>srv closed s' raw. kv_http mem_pg = Inr srv \<and>
     process_request kv_lib srv demo_peer False (start_server [] []) demo_bytes = Some (start_server [] [], True, closed, s') \<and>
     unread s' = [] \<and> sent s' = raw \<and> carries False raw (reply new_response 200 ''OK'')"
proof -
  obtain srv where srv: "kv_http mem_pg = Inr srv" using kv_http_handlers[of "''GET''" mem_pg] by auto
  have "''GET'' \<in> {''GET'', ''HEAD''}" by simp
  note d = demo_head[OF this]
  have "stream_ok demo_bytes" "send_results demo_bytes = []" "sent demo_bytes = []"
    "unread demo_bytes = head_text ''GET'' ''/health'' [(''Host'', ''a'')] @ [] @ []"
    by (simp_all add: demo_bytes_def demo_stream_def stream_ok_def unread_def head_text_def request_line_text_def
        header_line_def CR_LF_def)
  then show ?thesis
    using d(3) bytes_refine_serve[OF kv_lib_ok(2,1) srv _ _ _ d(1,2), where w = "start_server [] []" and p = demo_peer and cc = False]
      srv by fastforce
qed

end
