(* ===== verification/CppMap.thy ===== *)
theory CppMap
  imports Prelude
begin

text \<open>
  \<open>std::map\<close>: an association list whose keys are strictly increasing, which is also the order of
  iteration. An iterator is a position, \<open>end()\<close> the length. The lemmas give the element the
  iteration starts from after \<open>lower_bound\<close> and show that insertion and erasure keep the order and
  act as the update and the restriction of the finite map.
\<close>

type_synonym ('k, 'v) cpp_map = "('k \<times> 'v) list"

definition map_sorted :: "('k::linorder, 'v) cpp_map \<Rightarrow> bool" where
  "map_sorted m \<longleftrightarrow> sorted_wrt (<) (map fst m)"

text \<open>\<open>m[k] = v\<close>.\<close>

fun map_set :: "'k::linorder \<Rightarrow> 'v \<Rightarrow> ('k, 'v) cpp_map \<Rightarrow> ('k, 'v) cpp_map" where
  "map_set k v [] = [(k, v)]"
| "map_set k v ((k', v') # m) =
     (if k < k' then (k, v) # (k', v') # m
      else if k = k' then (k, v) # m
      else (k', v') # map_set k v m)"

text \<open>\<open>m.erase(k)\<close>.\<close>

definition map_erase :: "'k \<Rightarrow> ('k, 'v) cpp_map \<Rightarrow> ('k, 'v) cpp_map" where
  "map_erase k m = filter (\<lambda>(k', v). k' \<noteq> k) m"

text \<open>\<open>m.lower_bound(k)\<close>: the position of the first key that is not below \<open>k\<close>.\<close>

definition lower_bound :: "('k::linorder, 'v) cpp_map \<Rightarrow> 'k \<Rightarrow> nat" where
  "lower_bound m k = length (takeWhile (\<lambda>(k', v). k' < k) m)"

lemma map_sorted_Nil [simp]: "map_sorted []"
  by (simp add: map_sorted_def)

lemma map_sorted_Cons:
  "map_sorted (p # m) \<longleftrightarrow> (\<forall>q \<in> set m. fst p < fst q) \<and> map_sorted m"
  by (auto simp: map_sorted_def)

lemma map_sorted_distinct: "map_sorted m \<Longrightarrow> distinct (map fst m)"
  by (induction m) (auto simp: map_sorted_Cons)

lemma set_map_set:
  "map_sorted m \<Longrightarrow> set (map_set k v m) = insert (k, v) {p \<in> set m. fst p \<noteq> k}"
  by (induction k v m rule: map_set.induct) (auto simp: map_sorted_Cons)

lemma map_sorted_set: "map_sorted m \<Longrightarrow> map_sorted (map_set k v m)"
  by (induction k v m rule: map_set.induct) (auto simp: map_sorted_Cons set_map_set)

lemma map_set_nonempty [simp]: "map_set k v m \<noteq> []"
  by (cases m) (auto split: if_splits)

lemma set_map_erase: "set (map_erase k m) = {p \<in> set m. fst p \<noteq> k}"
  by (auto simp: map_erase_def)

lemma map_sorted_filter: "map_sorted m \<Longrightarrow> map_sorted (filter P m)"
  by (simp add: map_sorted_def sorted_wrt_map sorted_wrt_filter)

lemma map_sorted_erase: "map_sorted m \<Longrightarrow> map_sorted (map_erase k m)"
  by (simp add: map_erase_def map_sorted_filter)

text \<open>Two sorted maps with the same entries are the same map.\<close>

lemma map_sorted_unique:
  "map_sorted m \<Longrightarrow> map_sorted m' \<Longrightarrow> set m = set m' \<Longrightarrow> m = m'"
proof (induction m arbitrary: m')
  case (Cons p m)
  then obtain q n where m': "m' = q # n" by (cases m') auto
  from Cons.prems m' have "p = q"
    by (metis (no_types, lifting) list.set_intros(1) map_sorted_Cons order_less_asym set_ConsD)
  moreover have "p \<notin> set m" and "q \<notin> set n"
    using Cons.prems m' by (auto simp: map_sorted_Cons)
  ultimately have "set m = set n" using Cons.prems(3) m' by auto
  with Cons m' \<open>p = q\<close> show ?case by (simp add: map_sorted_Cons)
qed simp

text \<open>The iteration that starts at \<open>lower_bound\<close> and wraps around.\<close>

lemma lower_bound_le [simp]: "lower_bound m k \<le> length m"
  by (simp add: lower_bound_def length_takeWhile_le)

lemma rotate_lower_bound:
  assumes "map_sorted m"
  shows "drop (lower_bound m k) m = filter (\<lambda>p. k \<le> fst p) m"
    and "take (lower_bound m k) m = filter (\<lambda>p. fst p < k) m"
proof -
  have "takeWhile (\<lambda>(k', v). k' < k) m = filter (\<lambda>p. fst p < k) m \<and>
        dropWhile (\<lambda>(k', v). k' < k) m = filter (\<lambda>p. k \<le> fst p) m"
    using assms
  proof (induction m)
    case (Cons p m)
    show ?case
    proof (cases "fst p < k")
      case True
      with Cons show ?thesis by (auto simp: map_sorted_Cons split: prod.splits)
    next
      case False
      with Cons.prems have "\<forall>q \<in> set (p # m). k \<le> fst q"
        by (auto simp: map_sorted_Cons)
      then have "filter (\<lambda>q. k \<le> fst q) (p # m) = p # m" "filter (\<lambda>q. fst q < k) (p # m) = []"
        by (auto simp: filter_id_conv filter_empty_conv not_less)
      with False show ?thesis by (auto split: prod.splits)
    qed
  qed simp
  then show "drop (lower_bound m k) m = filter (\<lambda>p. k \<le> fst p) m"
    and "take (lower_bound m k) m = filter (\<lambda>p. fst p < k) m"
    unfolding lower_bound_def by (metis dropWhile_eq_drop takeWhile_eq_take)+
qed

end
