(* ===== verification/HashRing.thy ===== *)
theory HashRing
  imports CppString CppMap "HOL-Library.Word"
begin

text \<open>
  The consistent-hash ring, HashRing.h and HashRing.cpp, with the backend records it stores
  (Backend.h). \<open>std::hash<std::string>\<close> is implementation-defined: it is the argument \<open>hs\<close> of
  every definition that hashes. The main facts: the walk of \<open>getNodes\<close> ends and visits the distinct
  backends clockwise from the key (\<open>getNodes_walk\<close>); a node is owner of ring positions exactly
  between its addition and its removal; removing a node only takes it out of each key's walk.
\<close>

subsection \<open>Backends\<close>

datatype backend_status = UP | RECOVERING | DOWN

record backend =
  ip :: string
  port :: int
  status :: backend_status

type_synonym hasher = "string \<Rightarrow> 64 word"

record hash_ring =
  num_vnodes :: nat
  ring :: "(32 word, backend) cpp_map"

definition HashRing :: "nat \<Rightarrow> hash_ring" where
  "HashRing n = \<lparr>num_vnodes = n, ring = []\<rparr>"

text \<open>\<open>ip + ":" + std::to_string(port)\<close>, and the spelling of the count in \<open>getNodes\<close>.\<close>

definition node_id :: "backend \<Rightarrow> string" where
  "node_id b = ip b @ '':'' @ string_of_int (port b)"

definition unique_id :: "backend \<Rightarrow> string" where
  "unique_id b = ip b @ '' :'' @ string_of_int (port b)"

definition hash_string :: "hasher \<Rightarrow> string \<Rightarrow> 32 word" where
  "hash_string hs key = ucast (hs key)"

definition vnode_key :: "backend \<Rightarrow> nat \<Rightarrow> string" where
  "vnode_key b i = node_id b @ ''#vnode_'' @ string_of_nat i"

definition ring_empty :: "hash_ring \<Rightarrow> bool" where
  "ring_empty r \<longleftrightarrow> ring r = []"

text \<open>The loops over the virtual nodes, from \<open>i\<close> on with \<open>n\<close> iterations left.\<close>

fun add_vnodes :: "hasher \<Rightarrow> backend \<Rightarrow> nat \<Rightarrow> nat \<Rightarrow> (32 word, backend) cpp_map \<Rightarrow> (32 word, backend) cpp_map" where
  "add_vnodes hs b i 0 m = m"
| "add_vnodes hs b i (Suc n) m =
     add_vnodes hs b (Suc i) n (map_set (hash_string hs (vnode_key b i)) b m)"

fun remove_vnodes :: "hasher \<Rightarrow> backend \<Rightarrow> nat \<Rightarrow> nat \<Rightarrow> (32 word, backend) cpp_map \<Rightarrow> (32 word, backend) cpp_map" where
  "remove_vnodes hs b i 0 m = m"
| "remove_vnodes hs b i (Suc n) m =
     remove_vnodes hs b (Suc i) n (map_erase (hash_string hs (vnode_key b i)) m)"

definition add_node :: "hasher \<Rightarrow> backend \<Rightarrow> hash_ring \<Rightarrow> hash_ring" where
  "add_node hs b r = r\<lparr>ring := add_vnodes hs b 0 (num_vnodes r) (ring r)\<rparr>"

definition remove_node :: "hasher \<Rightarrow> backend \<Rightarrow> hash_ring \<Rightarrow> hash_ring" where
  "remove_node hs b r = r\<lparr>ring := remove_vnodes hs b 0 (num_vnodes r) (ring r)\<rparr>"

subsection \<open>Identities\<close>

text \<open>A port has no colon, so the last colon of an identity separates the two parts.\<close>

lemma no_colon_port: "CHR '':'' \<notin> set (string_of_int i)"
  using string_of_int_chars[of "CHR '':''" i] by auto

lemma append_sep_inject:
  assumes "c \<notin> set ys" "c \<notin> set ys'"
  shows "xs @ c # ys = xs' @ c # ys' \<longleftrightarrow> xs = xs' \<and> ys = ys'"
proof
  assume eq: "xs @ c # ys = xs' @ c # ys'"
  have "length xs = length xs'"
    using find_last_of_append[OF assms(1), of xs] find_last_of_append[OF assms(2), of xs'] eq by simp
  with eq show "xs = xs' \<and> ys = ys'" by simp
qed simp

lemma node_id_inject: "node_id b = node_id b' \<longleftrightarrow> ip b = ip b' \<and> port b = port b'"
  by (simp add: node_id_def append_sep_inject no_colon_port string_of_int_inject)

lemma unique_id_inject: "unique_id b = unique_id b' \<longleftrightarrow> ip b = ip b' \<and> port b = port b'"
proof -
  have "unique_id c = (ip c @ '' '') @ CHR '':'' # string_of_int (port c)" for c
    by (simp add: unique_id_def)
  then show ?thesis
    by (simp add: append_sep_inject no_colon_port string_of_int_inject del: append_assoc)
qed

lemma same_ids: "unique_id b = unique_id b' \<longleftrightarrow> node_id b = node_id b'"
  by (simp add: node_id_inject unique_id_inject)

lemma card_ids:
  "card (unique_id ` S) = card ((\<lambda>b. (ip b, port b)) ` S)"
  "card (node_id ` S) = card ((\<lambda>b. (ip b, port b)) ` S)"
proof -
  have u: "unique_id ` S = (\<lambda>(i, p). i @ '' :'' @ string_of_int p) ` (\<lambda>b. (ip b, port b)) ` S"
    and n: "node_id ` S = (\<lambda>(i, p). i @ '':'' @ string_of_int p) ` (\<lambda>b. (ip b, port b)) ` S"
    by (simp_all add: image_image unique_id_def node_id_def)
  show "card (unique_id ` S) = card ((\<lambda>b. (ip b, port b)) ` S)"
    unfolding u by (rule card_image, rule inj_onI) (auto simp: unique_id_inject[unfolded unique_id_def, simplified])
  show "card (node_id ` S) = card ((\<lambda>b. (ip b, port b)) ` S)"
    unfolding n by (rule card_image, rule inj_onI) (auto simp: node_id_inject[unfolded node_id_def, simplified])
qed

lemma card_unique_ids: "card (unique_id ` S) = card (node_id ` S)"
  by (simp add: card_ids)

subsection \<open>The walk of getNodes\<close>

text \<open>\<open>unique_backends.size()\<close>.\<close>

definition n_unique :: "(32 word, backend) cpp_map \<Rightarrow> nat" where
  "n_unique m = length (remdups (map (\<lambda>p. unique_id (snd p)) m))"

lemma n_unique_card: "n_unique m = card (node_id ` set (map snd m))"
proof -
  have "n_unique m = card (unique_id ` set (map snd m))"
    by (simp add: n_unique_def length_remdups_card_conv image_image)
  then show ?thesis by (simp add: card_unique_ids)
qed

text \<open>\<open>it == ring_.end()\<close> restarts at \<open>ring_.begin()\<close>.\<close>

definition wrap :: "'a list \<Rightarrow> nat \<Rightarrow> nat" where
  "wrap m it = (if length m \<le> it then 0 else it)"

lemma rotate_wrap_Suc:
  assumes "m \<noteq> []"
  shows "\<exists>xs. rotate (wrap m it) m = (m ! wrap m it) # xs \<and>
           rotate (wrap m (Suc (wrap m it))) m = xs @ [m ! wrap m it]"
proof -
  have lt: "wrap m it < length m" using assms by (simp add: wrap_def)
  then have hd: "rotate (wrap m it) m = (m ! wrap m it) # tl (rotate (wrap m it) m)"
    using hd_rotate_conv_nth[OF assms, of "wrap m it"] assms
    by (metis list.collapse mod_less rotate_is_Nil_conv)
  have "rotate (wrap m (Suc (wrap m it))) m = rotate1 (rotate (wrap m it) m)"
    using lt by (cases "Suc (wrap m it) = length m") (simp_all add: wrap_def flip: rotate_Suc)
  with hd show ?thesis by (metis rotate1.simps(2))
qed

lemma unseen_exists:
  assumes "length seen < n_unique m"
  shows "\<exists>p \<in> set m. node_id (snd p) \<notin> set seen"
proof (rule ccontr)
  assume "\<not> ?thesis"
  then have "node_id ` set (map snd m) \<subseteq> set seen" by auto
  then have "n_unique m \<le> card (set seen)"
    unfolding n_unique_card by (rule card_mono[OF finite_set])
  also have "\<dots> \<le> length seen" by (rule card_length)
  finally show False using assms by simp
qed

text \<open>The distance of the iterator to the next backend that has not been seen.\<close>

definition unseen_dist :: "(32 word, backend) cpp_map \<Rightarrow> nat \<Rightarrow> string list \<Rightarrow> nat" where
  "unseen_dist m it seen =
     length (takeWhile (\<lambda>p. node_id (snd p) \<in> set seen) (rotate (wrap m it) m))"

lemma unseen_dist_decreases:
  assumes "length seen < n_unique m" and "node_id (snd (m ! wrap m it)) \<in> set seen"
  shows "unseen_dist m (Suc (wrap m it)) seen < unseen_dist m it seen"
proof -
  from unseen_exists[OF assms(1)] obtain p where p: "p \<in> set m" "node_id (snd p) \<notin> set seen" by blast
  then have "m \<noteq> []" by auto
  from rotate_wrap_Suc[OF this, of it] obtain xs where
    r: "rotate (wrap m it) m = (m ! wrap m it) # xs"
    and r': "rotate (wrap m (Suc (wrap m it))) m = xs @ [m ! wrap m it]" by blast
  have "p \<in> set ((m ! wrap m it) # xs)" using p(1) r by (metis set_rotate)
  with p(2) assms(2) have "p \<in> set xs" by auto
  with p(2) have "takeWhile (\<lambda>p. node_id (snd p) \<in> set seen) (xs @ [m ! wrap m it]) =
      takeWhile (\<lambda>p. node_id (snd p) \<in> set seen) xs"
    by (metis (no_types, lifting) takeWhile_append1)
  with r r' assms(2) show ?thesis by (simp add: unseen_dist_def)
qed

function getNodes_loop ::
  "(32 word, backend) cpp_map \<Rightarrow> nat \<Rightarrow> nat \<Rightarrow> string list \<Rightarrow> backend list \<Rightarrow> backend list" where
  "getNodes_loop m replication_factor it seen result =
     (if length result < replication_factor \<and> length seen < n_unique m
      then let it' = wrap m it; current = snd (m ! it')
           in if node_id current \<notin> set seen
              then getNodes_loop m replication_factor (Suc it') (node_id current # seen) (result @ [current])
              else getNodes_loop m replication_factor (Suc it') seen result
      else result)"
  by pat_completeness auto
termination
proof (relation "measures [\<lambda>(m, rf, it, seen, result). card (node_id ` set (map snd m) - set seen),
                           \<lambda>(m, rf, it, seen, result). unseen_dist m it seen]", goal_cases)
  case (2 m rf it seen result it' current)
  from unseen_exists 2(1) have "m \<noteq> []" by fastforce
  then have "current \<in> set (map snd m)" using 2 by (simp add: wrap_def)
  then have "node_id current \<in> node_id ` set (map snd m) - set seen" using 2 by blast
  then have "card (node_id ` set (map snd m) - set (node_id current # seen))
      < card (node_id ` set (map snd m) - set seen)"
    by (intro psubset_card_mono) auto
  then show ?case by simp
next
  case (3 m rf it seen result it' current)
  then show ?case using unseen_dist_decreases by simp
qed simp

declare getNodes_loop.simps [simp del]

definition getNodes :: "hasher \<Rightarrow> hash_ring \<Rightarrow> string \<Rightarrow> nat \<Rightarrow> backend list" where
  "getNodes hs r key replication_factor =
     (if ring r = [] then []
      else getNodes_loop (ring r) replication_factor
             (lower_bound (ring r) (hash_string hs key)) [] [])"

lemma dedup_all_seen:
  assumes "distinct seen" "set seen \<subseteq> node_id ` set (map snd m)" "n_unique m \<le> length seen"
  shows "dedup_by node_id seen (map snd (rotate i m)) = []"
proof -
  have "set seen = node_id ` set (map snd m)"
    using assms by (intro card_seteq) (auto simp: n_unique_card distinct_card)
  then have "node_id ` set (dedup_by node_id seen (map snd (rotate i m))) = {}"
    by (simp add: set_dedup_by)
  then show ?thesis by simp
qed

lemma getNodes_loop_eq:
  "distinct seen \<Longrightarrow> set seen \<subseteq> node_id ` set (map snd m) \<Longrightarrow>
   getNodes_loop m rf it seen result =
     result @ take (rf - length result) (dedup_by node_id seen (map snd (rotate (wrap m it) m)))"
proof (induction m rf it seen result rule: getNodes_loop.induct)
  case (1 m rf it seen result)
  let ?b = "snd (m ! wrap m it)"
  show ?case
  proof (cases "length result < rf \<and> length seen < n_unique m")
    case False
    then show ?thesis
      using dedup_all_seen[OF 1(3,4)] by (auto simp: getNodes_loop.simps[of m rf it seen result] not_less)
  next
    case True
    from unseen_exists True have ne: "m \<noteq> []" by fastforce
    from rotate_wrap_Suc[OF ne, of it] obtain xs where
      r: "rotate (wrap m it) m = (m ! wrap m it) # xs"
      and r': "rotate (wrap m (Suc (wrap m it))) m = xs @ [m ! wrap m it]" by blast
    have skip: "dedup_by node_id s (map snd (xs @ [m ! wrap m it])) = dedup_by node_id s (map snd xs)"
      if "node_id ?b \<in> set s" for s
      using that by (simp add: dedup_by_append)
    show ?thesis
    proof (cases "node_id ?b \<in> set seen")
      case seen: True
      with 1(2)[OF True refl refl] 1(3,4) have "getNodes_loop m rf (Suc (wrap m it)) seen result =
          result @ take (rf - length result) (dedup_by node_id seen (map snd xs))"
        by (simp only: r' skip[OF seen] not_not simp_thms)
      with True seen r show ?thesis by (simp add: getNodes_loop.simps[of m rf it seen result])
    next
      case unseen: False
      have "?b \<in> set (map snd m)" using ne by (simp add: wrap_def)
      with 1(1)[OF True refl refl unseen] unseen 1(3,4) have
        "getNodes_loop m rf (Suc (wrap m it)) (node_id ?b # seen) (result @ [?b]) =
          result @ ?b # take (rf - Suc (length result)) (dedup_by node_id (node_id ?b # seen) (map snd xs))"
        by (simp add: r' skip del: map_append)
      moreover have "rf - length result = Suc (rf - Suc (length result))" using True by (simp add: Suc_diff_Suc)
      ultimately show ?thesis
        using True unseen r by (simp add: getNodes_loop.simps[of m rf it seen result] Let_def)
    qed
  qed
qed

text \<open>The distinct backends clockwise from the key's position.\<close>

definition ring_walk :: "hasher \<Rightarrow> hash_ring \<Rightarrow> string \<Rightarrow> backend list" where
  "ring_walk hs r key =
     (let h = hash_string hs key
      in dedup_by node_id [] (map snd (filter (\<lambda>p. h \<le> fst p) (ring r) @ filter (\<lambda>p. fst p < h) (ring r))))"

lemma getNodes_walk:
  assumes "map_sorted (ring r)"
  shows "getNodes hs r key rf = take rf (ring_walk hs r key)"
proof (cases "ring r = []")
  case True
  then show ?thesis by (simp add: getNodes_def ring_walk_def)
next
  case False
  let ?i = "lower_bound (ring r) (hash_string hs key)"
  have "rotate (wrap (ring r) ?i) (ring r) = drop ?i (ring r) @ take ?i (ring r)"
  proof (cases "?i = length (ring r)")
    case True
    then show ?thesis by (simp add: wrap_def)
  next
    case False
    then have "?i < length (ring r)" using lower_bound_le[of "ring r" "hash_string hs key"] by linarith
    then show ?thesis by (simp add: wrap_def rotate_drop_take)
  qed
  with False assms show ?thesis
    by (simp add: getNodes_def getNodes_loop_eq ring_walk_def Let_def rotate_lower_bound)
qed

lemma distinct_walk: "distinct (map node_id (ring_walk hs r key))"
  by (simp only: ring_walk_def Let_def distinct_dedup_by)

lemma set_walk: "node_id ` set (ring_walk hs r key) = node_id ` set (map snd (ring r))"
  by (simp add: ring_walk_def Let_def set_dedup_by image_image flip: image_Un)
     (auto simp: image_iff not_less)

lemma walk_subset: "set (ring_walk hs r key) \<subseteq> set (map snd (ring r))"
  using set_dedup_by_subset[of node_id "[]"] by (fastforce simp: ring_walk_def Let_def)

lemma length_walk: "length (ring_walk hs r key) = n_unique (ring r)"
proof -
  have "length (ring_walk hs r key) = card (node_id ` set (ring_walk hs r key))"
    using distinct_card[OF distinct_walk, of hs r key] by simp
  then show ?thesis by (simp only: set_walk n_unique_card)
qed

subsection \<open>Adding and removing nodes\<close>

text \<open>The ring positions of a node.\<close>

definition vnode_hashes :: "hasher \<Rightarrow> nat \<Rightarrow> backend \<Rightarrow> 32 word set" where
  "vnode_hashes hs n b = (\<lambda>i. hash_string hs (vnode_key b i)) ` {..<n}"

lemma vnode_hashes_node_id: "node_id b = node_id b' \<Longrightarrow> vnode_hashes hs n b = vnode_hashes hs n b'"
  by (simp add: vnode_hashes_def vnode_key_def)

lemma add_vnodes_set:
  assumes "map_sorted m"
  shows "map_sorted (add_vnodes hs b i n m) \<and>
    set (add_vnodes hs b i n m) =
      (\<lambda>j. (hash_string hs (vnode_key b j), b)) ` {i..<i + n} \<union>
      {p \<in> set m. fst p \<notin> (\<lambda>j. hash_string hs (vnode_key b j)) ` {i..<i + n}}"
  using assms
proof (induction n arbitrary: i m)
  case (Suc n)
  have "{i..<i + Suc n} = insert i {Suc i..<Suc i + n}" by auto
  then show ?case
    using Suc.IH[of "map_set (hash_string hs (vnode_key b i)) b m" "Suc i"] Suc.prems
    by (auto simp: map_sorted_set set_map_set)
qed simp

lemma remove_vnodes_set:
  assumes "map_sorted m"
  shows "remove_vnodes hs b i n m =
    filter (\<lambda>p. fst p \<notin> (\<lambda>j. hash_string hs (vnode_key b j)) ` {i..<i + n}) m"
  using assms
proof (induction n arbitrary: i m)
  case (Suc n)
  have "{i..<i + Suc n} = insert i {Suc i..<Suc i + n}" by auto
  then show ?case
    using Suc.IH[of "map_erase (hash_string hs (vnode_key b i)) m" "Suc i"] Suc.prems
    by (auto simp: map_sorted_erase) (simp add: map_erase_def case_prod_beta' conj_commute)
qed simp

text \<open>Every entry of the ring sits at a position of the backend it stores.\<close>

definition ring_ok :: "hasher \<Rightarrow> hash_ring \<Rightarrow> bool" where
  "ring_ok hs r \<longleftrightarrow> map_sorted (ring r) \<and> 0 < num_vnodes r \<and>
     (\<forall>p \<in> set (ring r). fst p \<in> vnode_hashes hs (num_vnodes r) (snd p))"

definition ring_owners :: "hash_ring \<Rightarrow> string set" where
  "ring_owners r = node_id ` set (map snd (ring r))"

lemma num_vnodes_add [simp]: "num_vnodes (add_node hs b r) = num_vnodes r"
  and num_vnodes_remove [simp]: "num_vnodes (remove_node hs b r) = num_vnodes r"
  by (simp_all add: add_node_def remove_node_def)

lemma ring_ok_sorted: "ring_ok hs r \<Longrightarrow> map_sorted (ring r)"
  by (simp add: ring_ok_def)

lemma map_sorted_add: "map_sorted (ring r) \<Longrightarrow> map_sorted (ring (add_node hs b r))"
  and map_sorted_remove: "map_sorted (ring r) \<Longrightarrow> map_sorted (ring (remove_node hs b r))"
  by (simp_all add: add_node_def add_vnodes_set remove_node_def remove_vnodes_set map_sorted_filter)

lemma set_add_node:
  "map_sorted (ring r) \<Longrightarrow> set (ring (add_node hs b r)) =
     (\<lambda>h. (h, b)) ` vnode_hashes hs (num_vnodes r) b \<union>
     {p \<in> set (ring r). fst p \<notin> vnode_hashes hs (num_vnodes r) b}"
  by (auto simp: add_node_def add_vnodes_set vnode_hashes_def image_image lessThan_atLeast0)

lemma ring_remove_node:
  "map_sorted (ring r) \<Longrightarrow>
   ring (remove_node hs b r) = filter (\<lambda>p. fst p \<notin> vnode_hashes hs (num_vnodes r) b) (ring r)"
  by (simp add: remove_node_def remove_vnodes_set vnode_hashes_def lessThan_atLeast0)

lemma ring_ok_add: "ring_ok hs r \<Longrightarrow> ring_ok hs (add_node hs b r)"
  by (auto simp: ring_ok_def map_sorted_add set_add_node)

lemma ring_ok_remove: "ring_ok hs r \<Longrightarrow> ring_ok hs (remove_node hs b r)"
  by (auto simp: ring_ok_def map_sorted_remove ring_remove_node map_sorted_filter)

lemma owners_add:
  assumes "ring_ok hs r"
  shows "ring_owners (add_node hs b r) \<subseteq> insert (node_id b) (ring_owners r)"
    and "node_id b \<in> ring_owners (add_node hs b r)"
proof -
  note set = set_add_node[OF ring_ok_sorted[OF assms], of hs b]
  show "ring_owners (add_node hs b r) \<subseteq> insert (node_id b) (ring_owners r)"
    by (auto simp: ring_owners_def set)
  have "0 \<in> {..<num_vnodes r}" using assms by (simp add: ring_ok_def)
  then have "(hash_string hs (vnode_key b 0), b) \<in> set (ring (add_node hs b r))"
    unfolding set vnode_hashes_def by blast
  then show "node_id b \<in> ring_owners (add_node hs b r)"
    by (force simp: ring_owners_def)
qed

lemma owners_remove:
  assumes "ring_ok hs r"
  shows "ring_owners (remove_node hs b r) \<subseteq> ring_owners r - {node_id b}"
proof
  fix s assume "s \<in> ring_owners (remove_node hs b r)"
  then obtain h c where c: "(h, c) \<in> set (ring r)" "h \<notin> vnode_hashes hs (num_vnodes r) b" "s = node_id c"
    by (auto simp: ring_owners_def ring_remove_node[OF ring_ok_sorted[OF assms]])
  then have "h \<in> vnode_hashes hs (num_vnodes r) c" using assms by (force simp: ring_ok_def)
  with c(2) have "node_id c \<noteq> node_id b" using vnode_hashes_node_id by metis
  with c show "s \<in> ring_owners r - {node_id b}" by (force simp: ring_owners_def)
qed

subsection \<open>The contract of a ring of nodes\<close>

text \<open>
  What the router relies on: adding a node makes it an owner, removing it ends that, and a
  selection is a set of distinct owners of the requested size if there are that many. The client's
  lemmas keep the owners inside a set of live nodes.
\<close>

locale node_ring =
  fixes add :: "backend \<Rightarrow> 'r \<Rightarrow> 'r"
    and rem :: "backend \<Rightarrow> 'r \<Rightarrow> 'r"
    and sel :: "'r \<Rightarrow> string \<Rightarrow> nat \<Rightarrow> backend list"
    and ok :: "'r \<Rightarrow> bool"
    and owners :: "'r \<Rightarrow> string set"
  assumes ok_add: "ok r \<Longrightarrow> ok (add b r)"
    and ok_rem: "ok r \<Longrightarrow> ok (rem b r)"
    and owners_after_add: "ok r \<Longrightarrow> owners (add b r) \<subseteq> insert (node_id b) (owners r)"
    and owner_after_add: "ok r \<Longrightarrow> node_id b \<in> owners (add b r)"
    and owners_after_rem: "ok r \<Longrightarrow> owners (rem b r) \<subseteq> owners r - {node_id b}"
    and sel_owners: "ok r \<Longrightarrow> node_id ` set (sel r key n) \<subseteq> owners r"
    and sel_distinct: "ok r \<Longrightarrow> distinct (map node_id (sel r key n))"
    and sel_length: "ok r \<Longrightarrow> length (sel r key n) = min n (card (owners r))"
begin

lemma live_after_add: "ok r \<Longrightarrow> owners r \<subseteq> live \<Longrightarrow> node_id b \<in> live \<Longrightarrow> owners (add b r) \<subseteq> live"
  using owners_after_add by blast

lemma live_after_rem: "ok r \<Longrightarrow> owners r \<subseteq> live \<Longrightarrow> owners (rem b r) \<subseteq> live - {node_id b}"
  using owners_after_rem by blast

lemma selected_live: "ok r \<Longrightarrow> owners r \<subseteq> live \<Longrightarrow> b \<in> set (sel r key n) \<Longrightarrow> node_id b \<in> live"
  using sel_owners by blast

lemma removed_not_selected: "ok r \<Longrightarrow> c \<in> set (sel (rem b r) key n) \<Longrightarrow> node_id c \<noteq> node_id b"
  using sel_owners[OF ok_rem] owners_after_rem by fastforce

end

lemma walk_owners: "node_id ` set (ring_walk hs r key) = ring_owners r"
  by (simp add: set_walk ring_owners_def)

interpretation hring: node_ring "add_node hs" "remove_node hs" "getNodes hs" "ring_ok hs" ring_owners
  for hs
proof (unfold_locales, goal_cases)
  case (6 r key n)
  then show ?case
    using walk_owners[of hs r key] set_take_subset[of n "ring_walk hs r key"]
    by (auto simp: getNodes_walk[OF ring_ok_sorted])
next
  case (7 r key n)
  then show ?case
    using distinct_walk[of hs r key] by (simp add: getNodes_walk[OF ring_ok_sorted] distinct_take flip: take_map)
next
  case (8 r key n)
  then show ?case
    by (simp add: getNodes_walk[OF ring_ok_sorted] length_walk n_unique_card ring_owners_def)
qed (simp_all add: ring_ok_add ring_ok_remove owners_add owners_remove)

subsection \<open>Removal and return of a node\<close>

text \<open>No other node's entry sits at a position of \<open>b\<close>.\<close>

definition own_positions :: "hasher \<Rightarrow> backend \<Rightarrow> hash_ring \<Rightarrow> bool" where
  "own_positions hs b r \<longleftrightarrow>
     (\<forall>p \<in> set (ring r). fst p \<in> vnode_hashes hs (num_vnodes r) b \<longrightarrow> node_id (snd p) = node_id b)"

lemma ring_remove_own:
  assumes "ring_ok hs r" "own_positions hs b r"
  shows "ring (remove_node hs b r) = filter (\<lambda>p. node_id (snd p) \<noteq> node_id b) (ring r)"
proof -
  have "fst p \<notin> vnode_hashes hs (num_vnodes r) b \<longleftrightarrow> node_id (snd p) \<noteq> node_id b" if "p \<in> set (ring r)" for p
    using assms that vnode_hashes_node_id[of "snd p" b hs "num_vnodes r"]
    by (auto simp: ring_ok_def own_positions_def)
  then show ?thesis
    by (simp add: ring_remove_node[OF ring_ok_sorted[OF assms(1)]] cong: filter_cong)
qed

lemma walk_remove:
  assumes "ring_ok hs r" "own_positions hs b r"
  shows "ring_walk hs (remove_node hs b r) key = filter (\<lambda>c. node_id c \<noteq> node_id b) (ring_walk hs r key)"
proof -
  let ?h = "hash_string hs key"
  have "map snd (filter (\<lambda>p. ?h \<le> fst p) (ring (remove_node hs b r)) @
                 filter (\<lambda>p. fst p < ?h) (ring (remove_node hs b r))) =
        filter (\<lambda>c. node_id c \<noteq> node_id b)
          (map snd (filter (\<lambda>p. ?h \<le> fst p) (ring r) @ filter (\<lambda>p. fst p < ?h) (ring r)))"
    by (simp add: ring_remove_own[OF assms] filter_map o_def conj_commute)
  then show ?thesis
    unfolding ring_walk_def Let_def by (simp only: dedup_by_filter)
qed

text \<open>The walk is determined by the positions and the identities of their owners.\<close>

definition ring_ids :: "hash_ring \<Rightarrow> (32 word \<times> string) list" where
  "ring_ids r = map (\<lambda>p. (fst p, node_id (snd p))) (ring r)"

lemma walk_ids:
  "map node_id (ring_walk hs r key) =
     (let h = hash_string hs key
      in dedup_by (\<lambda>x. x) [] (map snd (filter (\<lambda>p. h \<le> fst p) (ring_ids r) @ filter (\<lambda>p. fst p < h) (ring_ids r))))"
  by (simp add: ring_walk_def Let_def dedup_by_map ring_ids_def filter_map o_def)

text \<open>All positions of \<open>b\<close> are its own.\<close>

definition fully_on :: "hasher \<Rightarrow> backend \<Rightarrow> hash_ring \<Rightarrow> bool" where
  "fully_on hs b r \<longleftrightarrow>
     (\<forall>h \<in> vnode_hashes hs (num_vnodes r) b. \<exists>c. (h, c) \<in> set (ring r) \<and> node_id c = node_id b)"

lemma ring_ids_return:
  assumes ok: "ring_ok hs r" and on: "fully_on hs b r" and id: "node_id b' = node_id b"
  shows "ring_ids (add_node hs b' (remove_node hs b r)) = ring_ids r"
proof (rule map_sorted_unique)
  let ?V = "vnode_hashes hs (num_vnodes r) b"
  have V': "vnode_hashes hs (num_vnodes r) b' = ?V" by (rule vnode_hashes_node_id[OF id])
  have srt: "map_sorted (ring_ids s) \<longleftrightarrow> map_sorted (ring s)" for s
    by (simp add: map_sorted_def ring_ids_def o_def)
  show "map_sorted (ring_ids (add_node hs b' (remove_node hs b r)))" "map_sorted (ring_ids r)"
    using ring_ok_sorted[OF ok] by (simp_all add: srt map_sorted_add map_sorted_remove)
  have dist: "distinct (map fst (ring r))" by (rule map_sorted_distinct[OF ring_ok_sorted[OF ok]])
  have own: "node_id c = node_id b" if "(h, c) \<in> set (ring r)" "h \<in> ?V" for h c
    using on that distinct_fst_unique[OF dist] unfolding fully_on_def by metis
  have sr: "map_sorted (ring (remove_node hs b r))"
    by (rule map_sorted_remove[OF ring_ok_sorted[OF ok]])
  have "set (ring_ids (add_node hs b' (remove_node hs b r))) =
      (\<lambda>h. (h, node_id b)) ` ?V \<union> (\<lambda>p. (fst p, node_id (snd p))) ` {p \<in> set (ring r). fst p \<notin> ?V}"
    using id by (simp add: ring_ids_def set_add_node[OF sr] ring_remove_node[OF ring_ok_sorted[OF ok]]
        V' image_Un image_image conj_commute cong: conj_cong)
  also have "\<dots> = set (ring_ids r)"
    using on own unfolding ring_ids_def fully_on_def by (force simp: image_iff)
  finally show "set (ring_ids (add_node hs b' (remove_node hs b r))) = set (ring_ids r)" .
qed

subsection \<open>An instance\<close>

text \<open>A concrete hash and the three backends of the load balancer on a small ring.\<close>

definition demo_hash :: hasher where
  "demo_hash s =
     (if length s < 22 then 150
      else (if s ! 13 = CHR ''1'' then 100 else if s ! 13 = CHR ''2'' then 110 else 120) +
           (if last s = CHR ''0'' then 0 else if last s = CHR ''1'' then 37 else 61))"

definition demo_backend :: "int \<Rightarrow> backend_status \<Rightarrow> backend" where
  "demo_backend p st = \<lparr>ip = ''127.0.0.1'', port = p, status = st\<rparr>"

definition demo_ring :: hash_ring where
  "demo_ring = fold (\<lambda>p. add_node demo_hash (demo_backend p UP)) [9001, 9002, 9003] (HashRing 3)"

lemma ring_ok_HashRing: "0 < n \<Longrightarrow> ring_ok hs (HashRing n)"
  by (simp add: ring_ok_def HashRing_def)

lemma demo_numbers:
  "string_of_nat 9001 = ''9001''" "string_of_nat 9002 = ''9002''" "string_of_nat 9003 = ''9003''"
  "string_of_nat 0 = ''0''" "string_of_nat (Suc 0) = ''1''" "string_of_nat (Suc (Suc 0)) = ''2''"
  by code_simp+

lemma demo_vnode_hashes:
  "hash_string demo_hash (vnode_key (demo_backend 9001 s) 0) = 100"
  "hash_string demo_hash (vnode_key (demo_backend 9001 s) (Suc 0)) = 137"
  "hash_string demo_hash (vnode_key (demo_backend 9001 s) (Suc (Suc 0))) = 161"
  "hash_string demo_hash (vnode_key (demo_backend 9002 s) 0) = 110"
  "hash_string demo_hash (vnode_key (demo_backend 9002 s) (Suc 0)) = 147"
  "hash_string demo_hash (vnode_key (demo_backend 9002 s) (Suc (Suc 0))) = 171"
  "hash_string demo_hash (vnode_key (demo_backend 9003 s) 0) = 120"
  "hash_string demo_hash (vnode_key (demo_backend 9003 s) (Suc 0)) = 157"
  "hash_string demo_hash (vnode_key (demo_backend 9003 s) (Suc (Suc 0))) = 181"
  by (simp_all only: hash_string_def demo_hash_def vnode_key_def node_id_def demo_backend_def)
     (simp_all add: string_of_int_def demo_numbers)

lemma demo_ring_value:
  "ring demo_ring =
     [(100, demo_backend 9001 UP), (110, demo_backend 9002 UP), (120, demo_backend 9003 UP),
      (137, demo_backend 9001 UP), (147, demo_backend 9002 UP), (157, demo_backend 9003 UP),
      (161, demo_backend 9001 UP), (171, demo_backend 9002 UP), (181, demo_backend 9003 UP)]"
  by (simp add: demo_ring_def HashRing_def add_node_def numeral_3_eq_3 demo_vnode_hashes)

lemma demo_ring_ok: "ring_ok demo_hash demo_ring"
  by (simp add: demo_ring_def ring_ok_add ring_ok_HashRing)

lemma demo_positions: "vnode_hashes demo_hash (num_vnodes demo_ring) (demo_backend 9002 UP) = {110, 147, 171}"
proof -
  have "num_vnodes demo_ring = 3" by (simp add: demo_ring_def HashRing_def)
  moreover have "{..<3::nat} = {0, Suc 0, Suc (Suc 0)}" by auto
  ultimately show ?thesis
    unfolding vnode_hashes_def by (simp only: image_insert image_empty demo_vnode_hashes)
qed

lemma demo_own_positions: "own_positions demo_hash (demo_backend 9002 UP) demo_ring"
  by (auto simp: own_positions_def demo_positions demo_ring_value)

lemma demo_fully_on: "fully_on demo_hash (demo_backend 9002 UP) demo_ring"
  by (auto simp: fully_on_def demo_positions demo_ring_value)

subsection \<open>Properties\<close>

text \<open>
  C26. The lookup loop, with its wrap-around at the end of the map, its skipping of backends already
  selected and its exit once every backend has been seen, returns the first \<open>n\<close> backends of the
  clockwise walk from the key's hash.
\<close>

theorem getNodes_is_walk:
  assumes "map_sorted (ring r)"
  shows "getNodes hs r key n = take n (ring_walk hs r key)"
  by (rule getNodes_walk[OF assms])

lemma getNodes_is_walk_witness:
  "getNodes demo_hash demo_ring ''k_1'' 2 = take 2 (ring_walk demo_hash demo_ring ''k_1'')"
  by (rule getNodes_is_walk) (rule ring_ok_sorted[OF demo_ring_ok])

text \<open>
  A lookup on a well-formed ring selects pairwise distinct nodes that own ring positions, and
  as many as requested unless the ring has fewer.
\<close>

theorem getNodes_selection:
  assumes "ring_ok hs r"
  shows "distinct (map node_id (getNodes hs r key n)) \<and>
    node_id ` set (getNodes hs r key n) \<subseteq> ring_owners r \<and>
    length (getNodes hs r key n) = min n (card (ring_owners r))"
  using hring.sel_distinct[OF assms] hring.sel_owners[OF assms] hring.sel_length[OF assms] by blast

lemma getNodes_selection_witness:
  "distinct (map node_id (getNodes demo_hash demo_ring ''k_1'' 2)) \<and>
    node_id ` set (getNodes demo_hash demo_ring ''k_1'' 2) \<subseteq> ring_owners demo_ring \<and>
    length (getNodes demo_hash demo_ring ''k_1'' 2) = min 2 (card (ring_owners demo_ring))"
  by (rule getNodes_selection) (rule demo_ring_ok)

text \<open>
  C27. Consistent hashing: removing a node whose positions do not collide with another node's takes
  exactly that node out of every key's replica order; no other key moves.
\<close>

theorem remove_node_moves_nothing_else:
  assumes "ring_ok hs r" "own_positions hs b r"
  shows "getNodes hs (remove_node hs b r) key n =
    take n (filter (\<lambda>c. node_id c \<noteq> node_id b) (ring_walk hs r key))"
  using walk_remove[OF assms, of key] ring_ok_remove[OF assms(1), of b]
  by (simp add: getNodes_walk ring_ok_sorted)

lemma remove_node_moves_nothing_else_witness:
  "getNodes demo_hash (remove_node demo_hash (demo_backend 9002 UP) demo_ring) ''k_1'' 2 =
     take 2 (filter (\<lambda>c. node_id c \<noteq> node_id (demo_backend 9002 UP)) (ring_walk demo_hash demo_ring ''k_1''))"
  by (rule remove_node_moves_nothing_else[OF demo_ring_ok demo_own_positions])



end
