(* ===== verification/Router.thy ===== *)
theory Router
  imports HashRing
begin

text \<open>
  The router, Router.h and Router.cpp: the backends by port with their status, and the hash ring.
  \<open>std::unordered_map\<close> is an association list with distinct keys; its order stands for the
  container's unspecified iteration order and no lemma depends on it. The exceptions the code
  throws are \<open>Inl\<close>. The invariant \<open>router_inv\<close> ties the ring to the statuses: only nodes that are
  not DOWN own ring positions. The functions take \<open>std::hash\<close> as \<open>hs\<close>, like the ring's.
\<close>

datatype router_error = Invalid_router string | Runtime_error string

record router =
  router_ring :: hash_ring
  backends :: "(int \<times> backend) list"

definition no_backend_msg :: string where
  "no_backend_msg = ''Router requires at least one backend node!''"

definition empty_ring_msg :: string where
  "empty_ring_msg = ''No available backend servers in HashRing!''"

text \<open>The constructor's loop.\<close>

fun register_backends :: "hasher \<Rightarrow> backend list \<Rightarrow> router \<Rightarrow> router" where
  "register_backends hs [] rt = rt"
| "register_backends hs (b # bs) rt =
     register_backends hs bs
       (rt\<lparr>backends := AList.update (port b) b (backends rt), router_ring := add_node hs b (router_ring rt)\<rparr>)"

definition Router :: "hasher \<Rightarrow> backend list \<Rightarrow> nat \<Rightarrow> router_error + router" where
  "Router hs bs vnodes_per_backend =
     (if bs = [] then Inl (Invalid_router no_backend_msg)
      else Inr (register_backends hs bs \<lparr>router_ring = HashRing vnodes_per_backend, backends = []\<rparr>))"

definition removeBackend :: "hasher \<Rightarrow> backend \<Rightarrow> router \<Rightarrow> router" where
  "removeBackend hs b rt =
     rt\<lparr>router_ring := remove_node hs b (router_ring rt), backends := AList.delete (port b) (backends rt)\<rparr>"

text \<open>The loop of \<open>getReadBackendsForKey\<close> over the prospective nodes.\<close>

fun read_targets :: "(int \<times> backend) list \<Rightarrow> backend list \<Rightarrow> backend list" where
  "read_targets bs [] = []"
| "read_targets bs (n # ns) =
     (case map_of bs (port n) of
        Some b \<Rightarrow> if status b = UP then b # read_targets bs ns else read_targets bs ns
      | None \<Rightarrow> read_targets bs ns)"

definition getReadBackendsForKey :: "hasher \<Rightarrow> router \<Rightarrow> string \<Rightarrow> nat \<Rightarrow> router_error + backend list" where
  "getReadBackendsForKey hs rt key rf =
     (if ring_empty (router_ring rt) then Inl (Runtime_error empty_ring_msg)
      else Inr (read_targets (backends rt) (getNodes hs (router_ring rt) key rf)))"

fun write_targets :: "(int \<times> backend) list \<Rightarrow> backend list \<Rightarrow> backend list" where
  "write_targets bs [] = []"
| "write_targets bs (n # ns) =
     (case map_of bs (port n) of
        Some b \<Rightarrow> if status b = UP \<or> status b = RECOVERING then b # write_targets bs ns
                  else write_targets bs ns
      | None \<Rightarrow> write_targets bs ns)"

definition getWriteBackendsForKey :: "hasher \<Rightarrow> router \<Rightarrow> string \<Rightarrow> nat \<Rightarrow> router_error + backend list" where
  "getWriteBackendsForKey hs rt key rf =
     (if ring_empty (router_ring rt) then Inl (Runtime_error empty_ring_msg)
      else Inr (write_targets (backends rt) (getNodes hs (router_ring rt) key rf)))"

definition getBackendsForKey :: "hasher \<Rightarrow> router \<Rightarrow> string \<Rightarrow> nat \<Rightarrow> router_error + backend list" where
  "getBackendsForKey hs rt key rf =
     (if ring_empty (router_ring rt) then Inl (Runtime_error empty_ring_msg)
      else Inr (getNodes hs (router_ring rt) key rf))"

definition markBackendRecovering :: "hasher \<Rightarrow> int \<Rightarrow> router \<Rightarrow> router" where
  "markBackendRecovering hs p rt =
     (case map_of (backends rt) p of
        None \<Rightarrow> rt
      | Some b \<Rightarrow>
          (let b' = b\<lparr>status := RECOVERING\<rparr>
           in rt\<lparr>backends := AList.update p b' (backends rt), router_ring := add_node hs b' (router_ring rt)\<rparr>))"

definition markBackendUp :: "hasher \<Rightarrow> int \<Rightarrow> router \<Rightarrow> router" where
  "markBackendUp hs p rt =
     (case map_of (backends rt) p of
        None \<Rightarrow> rt
      | Some b \<Rightarrow>
          (let b' = b\<lparr>status := UP\<rparr>
           in rt\<lparr>backends := AList.update p b' (backends rt), router_ring := add_node hs b' (router_ring rt)\<rparr>))"

definition markBackendDown :: "hasher \<Rightarrow> int \<Rightarrow> router \<Rightarrow> router" where
  "markBackendDown hs p rt =
     (case map_of (backends rt) p of
        None \<Rightarrow> rt
      | Some b \<Rightarrow>
          (let b' = b\<lparr>status := DOWN\<rparr>
           in rt\<lparr>backends := AList.update p b' (backends rt), router_ring := remove_node hs b' (router_ring rt)\<rparr>))"

fun online_loop :: "(int \<times> backend) list \<Rightarrow> backend list" where
  "online_loop [] = []"
| "online_loop ((p, b) # bs) = (if status b = UP then b # online_loop bs else online_loop bs)"

definition getOnlineBackends :: "router \<Rightarrow> backend list" where
  "getOnlineBackends rt = online_loop (backends rt)"

definition getAllBackends :: "router \<Rightarrow> backend list" where
  "getAllBackends rt = map snd (backends rt)"

subsection \<open>The loops as filters\<close>

lemma read_targets_write: "read_targets bs ns = filter (\<lambda>b. status b = UP) (write_targets bs ns)"
  by (induction ns) (auto split: option.splits)

lemma set_write_targets:
  "set (write_targets bs ns) =
     {b. \<exists>n \<in> set ns. map_of bs (port n) = Some b \<and> status b \<in> {UP, RECOVERING}}"
  by (induction ns) (auto split: option.splits)

lemma length_write_targets: "length (write_targets bs ns) \<le> length ns"
  by (induction ns) (auto split: option.splits)

lemma set_online_loop: "set (online_loop bs) = {b \<in> snd ` set bs. status b = UP}"
  by (induction bs rule: online_loop.induct) auto

subsection \<open>The invariant\<close>

text \<open>The identities of the nodes that may own ring positions.\<close>

definition live_ids :: "router \<Rightarrow> string set" where
  "live_ids rt = {node_id b | p b. (p, b) \<in> set (backends rt) \<and> status b \<noteq> DOWN}"

definition router_inv :: "hasher \<Rightarrow> router \<Rightarrow> bool" where
  "router_inv hs rt \<longleftrightarrow>
     ring_ok hs (router_ring rt) \<and> distinct (map fst (backends rt)) \<and>
     (\<forall>(p, b) \<in> set (backends rt). port b = p) \<and>
     ring_owners (router_ring rt) \<subseteq> live_ids rt"

lemma router_inv_ring: "router_inv hs rt \<Longrightarrow> ring_ok hs (router_ring rt)"
  and router_inv_distinct: "router_inv hs rt \<Longrightarrow> distinct (map fst (backends rt))"
  and router_inv_owners: "router_inv hs rt \<Longrightarrow> ring_owners (router_ring rt) \<subseteq> live_ids rt"
  by (simp_all add: router_inv_def)

lemma router_inv_port: "router_inv hs rt \<Longrightarrow> map_of (backends rt) p = Some b \<Longrightarrow> port b = p"
  by (auto simp: router_inv_def dest!: map_of_SomeD)

lemma set_update_alist:
  "distinct (map fst xs) \<Longrightarrow> set (AList.update k v xs) = insert (k, v) {q \<in> set xs. fst q \<noteq> k}"
  by (induction xs) force+

text \<open>Changing a status: the live nodes afterwards.\<close>

lemma live_ids_update:
  assumes "router_inv hs rt" "map_of (backends rt) p = Some b" "ip c = ip b" "port c = port b"
  shows "live_ids (rt\<lparr>backends := AList.update p c (backends rt), router_ring := g\<rparr>) =
     (if status c = DOWN then live_ids rt - {node_id b} else insert (node_id b) (live_ids rt))"
proof -
  have id: "node_id c = node_id b" using assms(3,4) by (simp add: node_id_inject)
  have other: "node_id d \<noteq> node_id b" if "(q, d) \<in> set (backends rt)" "q \<noteq> p" for q d
    using assms(1) that router_inv_port[OF assms(1,2)] by (auto simp: router_inv_def node_id_inject)
  show ?thesis
    using id other map_of_set_conv[OF router_inv_distinct[OF assms(1)], of p b] assms(2)
    by (auto simp: live_ids_def set_update_alist[OF router_inv_distinct[OF assms(1)]])
       (metis (no_types, lifting) assms(1) distinct_fst_unique router_inv_distinct fst_conv)+
qed

lemma router_inv_update:
  assumes inv: "router_inv hs rt" and b: "map_of (backends rt) p = Some b"
    and c: "ip c = ip b" "port c = port b"
    and g: "ring_ok hs g"
    and owners: "ring_owners g \<subseteq>
      (if status c = DOWN then live_ids rt - {node_id b} else insert (node_id b) (live_ids rt))"
  shows "router_inv hs (rt\<lparr>backends := AList.update p c (backends rt), router_ring := g\<rparr>)"
  using inv g owners c router_inv_port[OF inv b]
  unfolding router_inv_def live_ids_update[OF inv b c]
  by (auto simp: distinct_update set_update_alist)

lemma router_inv_mark:
  assumes inv: "router_inv hs rt"
  shows "router_inv hs (markBackendRecovering hs p rt)"
    and "router_inv hs (markBackendUp hs p rt)"
    and "router_inv hs (markBackendDown hs p rt)"
proof -
  note ok = router_inv_ring[OF inv] and own = router_inv_owners[OF inv]
  have add: "router_inv hs (rt\<lparr>backends := AList.update p (b\<lparr>status := s\<rparr>) (backends rt),
      router_ring := add_node hs (b\<lparr>status := s\<rparr>) (router_ring rt)\<rparr>)"
    if "map_of (backends rt) p = Some b" "s \<noteq> DOWN" for b s
  proof (rule router_inv_update[OF inv that(1)])
    have "node_id (b\<lparr>status := s\<rparr>) = node_id b" by (simp add: node_id_inject)
    with own that(2) show "ring_owners (add_node hs (b\<lparr>status := s\<rparr>) (router_ring rt)) \<subseteq>
        (if status (b\<lparr>status := s\<rparr>) = DOWN then live_ids rt - {node_id b} else insert (node_id b) (live_ids rt))"
      using hring.live_after_add[OF ok, of "insert (node_id b) (live_ids rt)" "b\<lparr>status := s\<rparr>"] by auto
  qed (simp_all add: hring.ok_add[OF ok])
  show "router_inv hs (markBackendRecovering hs p rt)" "router_inv hs (markBackendUp hs p rt)"
    using inv add by (simp_all add: markBackendRecovering_def markBackendUp_def Let_def split: option.splits)
  show "router_inv hs (markBackendDown hs p rt)"
  proof (cases "map_of (backends rt) p")
    case (Some b)
    have "node_id (b\<lparr>status := DOWN\<rparr>) = node_id b" by (simp add: node_id_inject)
    then have "ring_owners (remove_node hs (b\<lparr>status := DOWN\<rparr>) (router_ring rt)) \<subseteq> live_ids rt - {node_id b}"
      using hring.live_after_rem[OF ok own, of "b\<lparr>status := DOWN\<rparr>"] by simp
    then show ?thesis
      using router_inv_update[OF inv Some, of "b\<lparr>status := DOWN\<rparr>"] Some
      by (simp add: markBackendDown_def Let_def hring.ok_rem[OF ok])
  qed (simp add: markBackendDown_def inv)
qed

lemma router_inv_register:
  assumes "router_inv hs rt" "distinct (map port bs)" "\<forall>b \<in> set bs. status b \<noteq> DOWN"
    and "port ` set bs \<inter> fst ` set (backends rt) = {}"
  shows "router_inv hs (register_backends hs bs rt)"
  using assms
proof (induction bs arbitrary: rt)
  case (Cons b bs)
  let ?rt = "rt\<lparr>backends := AList.update (port b) b (backends rt), router_ring := add_node hs b (router_ring rt)\<rparr>"
  note inv = Cons.prems(1)
  have new: "port b \<notin> fst ` set (backends rt)" using Cons.prems(4) by auto
  have st: "status b \<noteq> DOWN" using Cons.prems(3) by simp
  have set: "set (backends ?rt) = insert (port b, b) (set (backends rt))"
    by (simp add: set_update_alist[OF router_inv_distinct[OF inv]] absent_key[OF new])
  have live: "live_ids ?rt = insert (node_id b) (live_ids rt)"
    unfolding live_ids_def set using st by auto
  have "ring_owners (router_ring ?rt) \<subseteq> live_ids ?rt"
    using hring.live_after_add[OF router_inv_ring[OF inv], of "insert (node_id b) (live_ids rt)" b]
      router_inv_owners[OF inv] by (auto simp: live)
  then have "router_inv hs ?rt"
    using inv set by (auto simp: router_inv_def hring.ok_add distinct_update)
  moreover have "port ` set bs \<inter> fst ` set (backends ?rt) = {}"
    using Cons.prems(2,4) unfolding set by auto
  ultimately show ?case using Cons by simp
qed simp

lemma router_inv_Router:
  assumes "Router hs bs n = Inr rt" "0 < n" "distinct (map port bs)" "\<forall>b \<in> set bs. status b \<noteq> DOWN"
  shows "router_inv hs rt"
proof -
  have "router_inv hs \<lparr>router_ring = HashRing n, backends = []\<rparr>"
    using assms(2) by (simp add: router_inv_def ring_ok_def HashRing_def ring_owners_def)
  from router_inv_register[OF this assms(3,4)] assms(1) show ?thesis
    by (auto simp: Router_def split: if_splits)
qed

lemma router_inv_remove:
  assumes inv: "router_inv hs rt"
    and same: "\<And>c. map_of (backends rt) (port b) = Some c \<Longrightarrow> ip c = ip b"
  shows "router_inv hs (removeBackend hs b rt)"
proof -
  have "live_ids rt - {node_id b} \<subseteq> live_ids (removeBackend hs b rt)"
  proof
    fix s assume s: "s \<in> live_ids rt - {node_id b}"
    then obtain p c where c: "s = node_id c" "(p, c) \<in> set (backends rt)" "status c \<noteq> DOWN"
      by (auto simp: live_ids_def)
    have "p \<noteq> port b"
    proof
      assume p: "p = port b"
      then have "map_of (backends rt) (port b) = Some c"
        using c(2) map_of_set_conv[OF router_inv_distinct[OF inv]] by blast
      then have "node_id c = node_id b"
        using same router_inv_port[OF inv] by (simp add: node_id_inject)
      with s c(1) show False by simp
    qed
    with c show "s \<in> live_ids (removeBackend hs b rt)"
      by (auto simp: live_ids_def removeBackend_def set_delete_iff)
  qed
  moreover have "ring_owners (remove_node hs b (router_ring rt)) \<subseteq> live_ids rt - {node_id b}"
    by (rule hring.live_after_rem[OF router_inv_ring[OF inv] router_inv_owners[OF inv]])
  ultimately show ?thesis
    using inv hring.ok_rem[OF router_inv_ring[OF inv], of b]
    by (auto simp: router_inv_def removeBackend_def set_delete_iff distinct_delete)
qed

subsection \<open>What routing selects\<close>

lemma ring_empty_owners: "ring_empty r \<longleftrightarrow> ring_owners r = {}"
  by (simp add: ring_empty_def ring_owners_def)

lemma selected_backend:
  assumes inv: "router_inv hs rt" and n: "n \<in> set (getNodes hs (router_ring rt) key rf)"
  obtains b where "map_of (backends rt) (port n) = Some b" "node_id b = node_id n" "status b \<noteq> DOWN"
proof -
  have "node_id n \<in> live_ids rt"
    by (rule hring.selected_live[OF router_inv_ring[OF inv] router_inv_owners[OF inv] n])
  then obtain p b where "(p, b) \<in> set (backends rt)" "node_id b = node_id n" "status b \<noteq> DOWN"
    by (auto simp: live_ids_def)
  then show ?thesis
    using inv map_of_set_conv[OF router_inv_distinct[OF inv]] that
    by (auto simp: router_inv_def node_id_inject)
qed

text \<open>Under the invariant the status filter of the write path drops nothing.\<close>

lemma write_targets_all:
  assumes "\<And>n. n \<in> set ns \<Longrightarrow> \<exists>b. map_of bs (port n) = Some b \<and> node_id b = node_id n \<and> status b \<noteq> DOWN"
  shows "map node_id (write_targets bs ns) = map node_id ns"
  using assms
proof (induction ns)
  case (Cons n ns)
  then obtain b where b: "map_of bs (port n) = Some b" "node_id b = node_id n" "status b \<noteq> DOWN"
    by (meson list.set_intros(1))
  then have "status b = UP \<or> status b = RECOVERING" by (cases "status b") auto
  with b Cons show ?case by simp
qed simp

lemma write_backends_nodes:
  assumes "router_inv hs rt" "getWriteBackendsForKey hs rt key n = Inr bs"
  shows "map node_id bs = map node_id (getNodes hs (router_ring rt) key n)"
proof -
  have "bs = write_targets (backends rt) (getNodes hs (router_ring rt) key n)"
    using assms(2) by (simp add: getWriteBackendsForKey_def split: if_splits)
  then show ?thesis using write_targets_all selected_backend[OF assms(1)] by metis
qed

lemma read_write_backends:
  "getReadBackendsForKey hs rt key n = map_sum id (filter (\<lambda>b. status b = UP)) (getWriteBackendsForKey hs rt key n)"
  by (simp add: getReadBackendsForKey_def getWriteBackendsForKey_def read_targets_write)

lemma write_backend_known:
  assumes inv: "router_inv hs rt" and bs: "getWriteBackendsForKey hs rt key n = Inr bs" and b: "b \<in> set bs"
  shows "map_of (backends rt) (port b) = Some b \<and> status b \<in> {UP, RECOVERING}"
proof -
  have "b \<in> set (write_targets (backends rt) (getNodes hs (router_ring rt) key n))"
    using bs b by (simp add: getWriteBackendsForKey_def split: if_splits)
  then obtain m :: backend where "map_of (backends rt) (port m) = Some b" "status b \<in> {UP, RECOVERING}"
    unfolding set_write_targets by blast
  then show ?thesis using router_inv_port[OF inv, of "port m" b] by simp
qed

lemma write_backends_exist:
  assumes inv: "router_inv hs rt" and ne: "\<not> ring_empty (router_ring rt)" and n: "0 < n"
  obtains bs where "getWriteBackendsForKey hs rt key n = Inr bs" "bs \<noteq> []"
proof -
  obtain bs where bs: "getWriteBackendsForKey hs rt key n = Inr bs"
    using ne by (auto simp: getWriteBackendsForKey_def)
  have "finite (ring_owners (router_ring rt))" by (simp add: ring_owners_def)
  then have "0 < card (ring_owners (router_ring rt))" using ne by (simp add: ring_empty_owners card_gt_0_iff)
  then have "getNodes hs (router_ring rt) key n \<noteq> []"
    using hring.sel_length[OF router_inv_ring[OF inv], of key n] n by auto
  then have "bs \<noteq> []" using write_backends_nodes[OF inv bs] by auto
  with bs that show ?thesis by blast
qed

text \<open>The statuses a mark can set, as one operation.\<close>

datatype router_mark = Mark_down int | Mark_recovering int | Mark_up int

fun run_mark :: "hasher \<Rightarrow> router_mark \<Rightarrow> router \<Rightarrow> router" where
  "run_mark hs (Mark_down p) rt = markBackendDown hs p rt"
| "run_mark hs (Mark_recovering p) rt = markBackendRecovering hs p rt"
| "run_mark hs (Mark_up p) rt = markBackendUp hs p rt"

lemma router_inv_run: "router_inv hs rt \<Longrightarrow> router_inv hs (fold (run_mark hs) ms rt)"
proof (induction ms arbitrary: rt)
  case (Cons m ms)
  have "router_inv hs (run_mark hs m rt)"
    using Cons.prems by (cases m) (simp_all add: router_inv_mark)
  with Cons.IH show ?case by simp
qed simp

text \<open>What a mark does to the statuses.\<close>

lemma map_of_mark:
  "map_of (backends (markBackendDown hs p rt)) q =
     (if q = p then map_option (status_update (\<lambda>_. DOWN)) (map_of (backends rt) p) else map_of (backends rt) q)"
  "map_of (backends (markBackendRecovering hs p rt)) q =
     (if q = p then map_option (status_update (\<lambda>_. RECOVERING)) (map_of (backends rt) p) else map_of (backends rt) q)"
  "map_of (backends (markBackendUp hs p rt)) q =
     (if q = p then map_option (status_update (\<lambda>_. UP)) (map_of (backends rt) p) else map_of (backends rt) q)"
  by (auto simp: markBackendDown_def markBackendRecovering_def markBackendUp_def Let_def update_conv'
      split: option.split)

subsection \<open>An instance\<close>

definition demo_router :: router where
  "demo_router = register_backends demo_hash (map (\<lambda>p. demo_backend p UP) [9001, 9002, 9003])
     \<lparr>router_ring = HashRing 3, backends = []\<rparr>"

lemma demo_Router: "Router demo_hash (map (\<lambda>p. demo_backend p UP) [9001, 9002, 9003]) 3 = Inr demo_router"
  by (simp add: Router_def demo_router_def)

lemma demo_router_inv: "router_inv demo_hash demo_router"
  by (rule router_inv_Router[OF demo_Router]) (simp_all add: demo_backend_def)

lemma demo_router_ring: "router_ring demo_router = demo_ring"
  by (simp add: demo_router_def demo_ring_def)

lemma demo_read_backends:
  obtains bs where "getReadBackendsForKey demo_hash demo_router key 2 = Inr bs" "bs \<noteq> []"
proof -
  have ne: "\<not> ring_empty (router_ring demo_router)"
    by (simp add: demo_router_ring ring_empty_def demo_ring_value)
  obtain bs where bs: "getWriteBackendsForKey demo_hash demo_router key 2 = Inr bs" "bs \<noteq> []"
    by (rule write_backends_exist[OF demo_router_inv ne, of 2 key]) simp_all
  have "status b = UP" if "b \<in> set bs" for b
  proof -
    have "b \<in> snd ` set (backends demo_router)"
      using write_backend_known[OF demo_router_inv bs(1) that] map_of_SomeD by force
    then show ?thesis by (auto simp: demo_router_def demo_backend_def)
  qed
  then have "filter (\<lambda>b. status b = UP) bs = bs" by (simp add: filter_id_conv)
  with bs that show ?thesis by (simp add: read_write_backends)
qed

subsection \<open>Properties\<close>

text \<open>
  C29. From the constructor on, with distinct ports and no backend DOWN at first, any sequence of
  status changes keeps the router well-formed: the ring is sorted and every position is owned by
  the backend it was computed from, ports are unique, and no backend that is DOWN owns a position.
\<close>

theorem router_stays_wellformed:
  assumes "Router hs bs n = Inr rt" "0 < n" "distinct (map port bs)" "\<forall>b \<in> set bs. status b \<noteq> DOWN"
  shows "router_inv hs (fold (run_mark hs) ms rt)"
  by (rule router_inv_run) (rule router_inv_Router[OF assms])

lemma router_stays_wellformed_witness:
  "router_inv demo_hash (fold (run_mark demo_hash) [Mark_down 9002, Mark_recovering 9002, Mark_up 9002] demo_router)"
  by (rule router_stays_wellformed[OF demo_Router]) (simp_all add: demo_backend_def)

text \<open>
  C30. A write goes to every node the ring selects for the key: the status filter drops none of them.
  The backends are known to the router, distinct, UP or RECOVERING, and as many as the replication
  factor unless fewer nodes are on the ring.
\<close>

theorem writes_reach_all_replicas:
  assumes "router_inv hs rt" "getWriteBackendsForKey hs rt key n = Inr bs"
  shows "map node_id bs = map node_id (getNodes hs (router_ring rt) key n) \<and> distinct (map node_id bs) \<and>
    length bs = min n (card (ring_owners (router_ring rt))) \<and>
    (\<forall>b \<in> set bs. map_of (backends rt) (port b) = Some b \<and> status b \<in> {UP, RECOVERING})"
proof -
  note nodes = write_backends_nodes[OF assms]
  note ok = router_inv_ring[OF assms(1)]
  have "length bs = length (getNodes hs (router_ring rt) key n)" using nodes by (metis length_map)
  with nodes hring.sel_distinct[OF ok] hring.sel_length[OF ok] write_backend_known[OF assms]
  show ?thesis by metis
qed

lemma writes_reach_all_replicas_witness:
  "\<exists>bs. getWriteBackendsForKey demo_hash demo_router ''k_1'' 2 = Inr bs \<and>
     length bs = min 2 (card (ring_owners demo_ring))"
proof -
  have "\<not> ring_empty (router_ring demo_router)"
    by (simp add: demo_router_ring ring_empty_def demo_ring_value)
  then have "getWriteBackendsForKey demo_hash demo_router ''k_1'' 2 =
      Inr (write_targets (backends demo_router) (getNodes demo_hash (router_ring demo_router) ''k_1'' 2))"
    by (simp add: getWriteBackendsForKey_def)
  with writes_reach_all_replicas[OF demo_router_inv this] show ?thesis by (simp add: demo_router_ring)
qed

text \<open>
  Reads go to the UP backends among those a write of the key goes to, in the same order, so a
  read never goes to a RECOVERING backend; both fail with the same exception on an empty ring.
\<close>

theorem reads_are_up_writes:
  "getReadBackendsForKey hs rt key n =
     map_sum id (filter (\<lambda>b. status b = UP)) (getWriteBackendsForKey hs rt key n)"
  by (rule read_write_backends)

text \<open>
  After a backend is marked DOWN no write, read or ownership lookup selects it, whatever the
  key and the replication factor.
\<close>

theorem down_is_never_selected:
  assumes "router_inv hs rt"
  shows "p \<notin> port ` set (getNodes hs (router_ring (markBackendDown hs p rt)) key n) \<and>
    (case getWriteBackendsForKey hs (markBackendDown hs p rt) key n of Inr bs \<Rightarrow> p \<notin> port ` set bs | Inl _ \<Rightarrow> True)"
proof -
  note inv = router_inv_mark(3)[OF assms, of p]
  have "port b \<noteq> p" if b: "b \<in> set (getNodes hs (router_ring (markBackendDown hs p rt)) key n)" for b
  proof
    assume p: "port b = p"
    obtain c where "map_of (backends (markBackendDown hs p rt)) (port b) = Some c" "status c \<noteq> DOWN"
      by (rule selected_backend[OF inv b])
    with p show False by (auto simp: map_of_mark)
  qed
  moreover have "port b \<noteq> p"
    if "getWriteBackendsForKey hs (markBackendDown hs p rt) key n = Inr bs" "b \<in> set bs" for bs b
    using write_backend_known[OF inv that] by (auto simp: map_of_mark)
  ultimately show ?thesis by (auto split: sum.split)
qed

lemma down_is_never_selected_witness:
  "9002 \<notin> port ` set (getNodes demo_hash (router_ring (markBackendDown demo_hash 9002 demo_router)) ''k_1'' 2)"
  using down_is_never_selected[OF demo_router_inv] by blast

end
