(* ===== verification/RecoveryManager.thy ===== *)
theory RecoveryManager
  imports Router KvServer "HOL-Library.List_Lexorder" "HOL-Library.Char_ord"
begin

text \<open>
  The recovery of a backend that has come back, RecoveryManager.h and RecoveryManager.cpp: the keys
  of all online peers are collected, and those the backend should own are copied to it. The HTTP
  client is a parameter: the record \<open>http\<close> gives the reply to a request and what it does to the
  world \<open>'w\<close>, that is to the servers; \<open>None\<close> is a request that failed. The router is read only.
  \<open>std::set<std::string>\<close> is a sorted list of strings with unit values (\<open>CppMap\<close>). The locale
  \<open>kv_nodes\<close> states what the recovery relies on from the servers; its lemmas describe the tables
  after a recovery. Messages are left out.
\<close>

subsection \<open>HTTP calls\<close>

record 'w http =
  http_get :: "backend \<Rightarrow> string \<Rightarrow> 'w \<Rightarrow> (int \<times> string) option \<times> 'w"
  http_post :: "backend \<Rightarrow> string \<Rightarrow> string \<Rightarrow> 'w \<Rightarrow> (int \<times> string) option \<times> 'w"

text \<open>\<open>c_str()\<close> turned back into a string.\<close>

definition c_str :: "string \<Rightarrow> string" where
  "c_str = takeWhile (\<lambda>c. c \<noteq> CHR 0x00)"

definition fetchAllKeysFromNode :: "'w http \<Rightarrow> backend \<Rightarrow> 'w \<Rightarrow> string list \<times> 'w" where
  "fetchAllKeysFromNode http b w =
     (case http_get http b ''/kvstore/allkeys'' w of
        (None, w') \<Rightarrow> ([], w')
      | (Some (code, body), w') \<Rightarrow>
          (if code = 200 then filter (\<lambda>key. key \<noteq> []) (lines body) else [], w'))"

definition fetchValueFromPeer :: "'w http \<Rightarrow> backend \<Rightarrow> string \<Rightarrow> 'w \<Rightarrow> string \<times> 'w" where
  "fetchValueFromPeer http peer key w =
     (case http_get http peer (c_str (''/kvstore/'' @ key)) w of
        (Some (code, body), w') \<Rightarrow> (if code = 200 then body else [], w')
      | (None, w') \<Rightarrow> ([], w'))"

definition writeValueToRecoveredNode :: "'w http \<Rightarrow> backend \<Rightarrow> string \<Rightarrow> string \<Rightarrow> 'w \<Rightarrow> bool \<times> 'w" where
  "writeValueToRecoveredNode http b key val w =
     (case http_post http b (c_str (''/kvstore/sync/'' @ key)) val w of
        (Some (code, body), w') \<Rightarrow> (code = 200 \<or> code = 201, w')
      | (None, w') \<Rightarrow> (False, w'))"

subsection \<open>Recovery\<close>

text \<open>The loop over the online backends that fills \<open>global_keyspace\<close>.\<close>

fun collect_keys :: "'w http \<Rightarrow> backend \<Rightarrow> backend list \<Rightarrow> (string, unit) cpp_map \<Rightarrow> 'w \<Rightarrow> (string, unit) cpp_map \<times> 'w" where
  "collect_keys http b [] keyspace w = (keyspace, w)"
| "collect_keys http b (n # ns) keyspace w =
     (if port n = port b then collect_keys http b ns keyspace w
      else (let (keys, w1) = fetchAllKeysFromNode http n w
            in collect_keys http b ns (fold (\<lambda>k. map_set k ()) keys keyspace) w1))"

text \<open>The first non-empty value a peer replica has.\<close>

fun find_source :: "'w http \<Rightarrow> backend \<Rightarrow> string \<Rightarrow> backend list \<Rightarrow> 'w \<Rightarrow> string \<times> 'w" where
  "find_source http b key [] w = ([], w)"
| "find_source http b key (r # rs) w =
     (if port r \<noteq> port b
      then (let (val, w1) = fetchValueFromPeer http r key w
            in if val \<noteq> [] then (val, w1) else find_source http b key rs w1)
      else find_source http b key rs w)"

fun copy_keys :: "hasher \<Rightarrow> 'w http \<Rightarrow> router \<Rightarrow> backend \<Rightarrow> string list \<Rightarrow> 'w \<Rightarrow> router_error + 'w" where
  "copy_keys hs http rt b [] w = Inr w"
| "copy_keys hs http rt b (key # keys) w =
     (case getBackendsForKey hs rt key 2 of
        Inl e \<Rightarrow> Inl e
      | Inr replicas \<Rightarrow>
          if list_ex (\<lambda>r. port r = port b) replicas
          then (let (val, w1) = find_source http b key replicas w
                in if val \<noteq> []
                   then (let (r, w2) = writeValueToRecoveredNode http b key val w1
                         in copy_keys hs http rt b keys w2)
                   else copy_keys hs http rt b keys w1)
          else copy_keys hs http rt b keys w)"

definition recover :: "hasher \<Rightarrow> 'w http \<Rightarrow> router \<Rightarrow> backend \<Rightarrow> 'w \<Rightarrow> router_error + 'w" where
  "recover hs http rt b w =
     (let (keyspace, w1) = collect_keys http b (getOnlineBackends rt) [] w
      in if keyspace = [] then Inr w1 else copy_keys hs http rt b (map fst keyspace) w1)"

subsection \<open>What the recovery relies on\<close>

text \<open>The keys the servers' routes can address.\<close>

definition route_key :: "string \<Rightarrow> bool" where
  "route_key k \<longleftrightarrow> k \<noteq> [] \<and> list_all is_word k \<and> k \<noteq> ''allkeys''"

lemma not_word [simp]: "\<not> is_word (CHR 0x00)" "\<not> is_word (CHR 0x0A)" "\<not> is_word (CHR ''/'')" "\<not> is_word (CHR '' '')"
  by (simp_all add: is_word_def)

lemma route_key_chars: "route_key k \<Longrightarrow> \<not> is_word c \<Longrightarrow> c \<notin> set k"
  by (auto simp: route_key_def list_all_iff)

lemma route_key_cstr:
  assumes "route_key k" "CHR 0x00 \<notin> set p"
  shows "c_str (p @ k) = p @ k"
  using assms route_key_chars[OF assms(1), of "CHR 0x00"] unfolding c_str_def takeWhile_eq_all_conv by auto

text \<open>
  Servers that hold tables \<open>tbl w p\<close> by port: a server in \<open>up\<close> lists its keys, reads a key and
  stores a key, and only the last changes a table.
\<close>

locale kv_nodes =
  fixes http :: "'w http"
    and tbl :: "'w \<Rightarrow> int \<Rightarrow> string \<rightharpoonup> string"
    and ok :: "'w \<Rightarrow> bool"
    and up :: "int \<Rightarrow> bool"
  assumes get_keys: "ok w \<Longrightarrow> up (port b) \<Longrightarrow>
      \<exists>ks w'. http_get http b ''/kvstore/allkeys'' w = (Some (200, key_lines ks), w') \<and>
        set ks = dom (tbl w (port b)) \<and> ok w' \<and> tbl w' = tbl w"
    and get_key: "ok w \<Longrightarrow> up (port b) \<Longrightarrow> route_key k \<Longrightarrow>
      \<exists>w' msg. http_get http b (''/kvstore/'' @ k) w =
        (Some (case tbl w (port b) k of Some v \<Rightarrow> (200, v) | None \<Rightarrow> (404, msg)), w') \<and> ok w' \<and> tbl w' = tbl w"
    and post_sync: "ok w \<Longrightarrow> up (port b) \<Longrightarrow> route_key k \<Longrightarrow>
      \<exists>w' msg. http_post http b (''/kvstore/sync/'' @ k) v w = (Some (201, msg), w') \<and> ok w' \<and>
        tbl w' = (tbl w)(port b := (tbl w (port b))(k \<mapsto> v))"
begin

lemma fetch_keys:
  assumes "ok w" "up (port b)" "\<forall>k \<in> dom (tbl w (port b)). route_key k"
  obtains ks w' where "fetchAllKeysFromNode http b w = (ks, w')" "set ks = dom (tbl w (port b))" "ok w'" "tbl w' = tbl w"
proof -
  obtain ks w' where k: "http_get http b ''/kvstore/allkeys'' w = (Some (200, key_lines ks), w')"
    "set ks = dom (tbl w (port b))" "ok w'" "tbl w' = tbl w"
    using get_keys[OF assms(1,2)] by blast
  have "key_lines ks = concat (map (\<lambda>l. l @ [CHR 0x0A]) ks)" by (induction ks) simp_all
  moreover have "CHR 0x0A \<notin> set l \<and> l \<noteq> []" if "l \<in> set ks" for l
  proof -
    have "route_key l" using that assms(3) k(2) by simp
    then show ?thesis using route_key_chars[of l "CHR 0x0A"] by (auto simp: route_key_def)
  qed
  ultimately have "filter (\<lambda>key. key \<noteq> []) (lines (key_lines ks)) = ks"
    using lines_concat[of ks] by (auto simp: filter_id_conv)
  with k that show ?thesis by (simp add: fetchAllKeysFromNode_def)
qed

lemma fetch_value:
  assumes "ok w" "up (port b)" "route_key k"
  obtains w' where "fetchValueFromPeer http b k w = (case tbl w (port b) k of Some v \<Rightarrow> v | None \<Rightarrow> [], w')"
    "ok w'" "tbl w' = tbl w"
proof -
  have "c_str (''/kvstore/'' @ k) = ''/kvstore/'' @ k"
    by (rule route_key_cstr[OF assms(3)]) simp
  with get_key[OF assms] that show ?thesis
    by (auto simp: fetchValueFromPeer_def split: option.splits)
qed

lemma write_value:
  assumes "ok w" "up (port b)" "route_key k"
  obtains w' where "writeValueToRecoveredNode http b k v w = (True, w')" "ok w'"
    "tbl w' = (tbl w)(port b := (tbl w (port b))(k \<mapsto> v))"
proof -
  have "c_str (''/kvstore/sync/'' @ k) = ''/kvstore/sync/'' @ k"
    by (rule route_key_cstr[OF assms(3)]) simp
  with post_sync[OF assms, of v] that show ?thesis
    by (auto simp: writeValueToRecoveredNode_def)
qed

end

subsection \<open>What a recovery does to the tables\<close>

text \<open>The keys of the online peers, the value the first replica other than \<open>b\<close> has, whether \<open>b\<close> should
  own a key, and the table of \<open>b\<close> afterwards.\<close>

definition peer_keys :: "router \<Rightarrow> backend \<Rightarrow> (int \<Rightarrow> string \<rightharpoonup> string) \<Rightarrow> string set" where
  "peer_keys rt b T = (\<Union>n \<in> {n \<in> set (getOnlineBackends rt). port n \<noteq> port b}. dom (T (port n)))"

fun first_value :: "(int \<Rightarrow> string \<rightharpoonup> string) \<Rightarrow> backend \<Rightarrow> string \<Rightarrow> backend list \<Rightarrow> string" where
  "first_value T b k [] = []"
| "first_value T b k (r # rs) =
     (case (if port r \<noteq> port b then T (port r) k else None) of
        Some v \<Rightarrow> if v \<noteq> [] then v else first_value T b k rs
      | None \<Rightarrow> first_value T b k rs)"

definition owns_key :: "hasher \<Rightarrow> router \<Rightarrow> backend \<Rightarrow> string \<Rightarrow> bool" where
  "owns_key hs rt b k \<longleftrightarrow> port b \<in> port ` set (getNodes hs (router_ring rt) k 2)"

definition recovered_table ::
  "hasher \<Rightarrow> router \<Rightarrow> backend \<Rightarrow> string set \<Rightarrow> (int \<Rightarrow> string \<rightharpoonup> string) \<Rightarrow> string \<rightharpoonup> string" where
  "recovered_table hs rt b K T =
     (\<lambda>k. let v = first_value T b k (getNodes hs (router_ring rt) k 2)
          in if k \<in> K \<and> owns_key hs rt b k \<and> v \<noteq> [] then Some v else T (port b) k)"

text \<open>Changing the table of \<open>b\<close> does not change what its peers offer.\<close>

lemma first_value_other: "first_value (T(port b := m)) b k rs = first_value T b k rs"
  by (induction rs) (auto split: option.split)

lemma recovered_table_step:
  assumes "k \<notin> K"
  shows "recovered_table hs rt b K (T(port b :=
      (if owns_key hs rt b k \<and> first_value T b k (getNodes hs (router_ring rt) k 2) \<noteq> []
       then (T (port b))(k \<mapsto> first_value T b k (getNodes hs (router_ring rt) k 2)) else T (port b)))) =
    recovered_table hs rt b (insert k K) T"
  using assms by (auto simp: recovered_table_def fun_eq_iff first_value_other Let_def)

lemma fold_map_set:
  "map_sorted m \<Longrightarrow> map_sorted (fold (\<lambda>k. map_set k ()) ks m) \<and>
     fst ` set (fold (\<lambda>k. map_set k ()) ks m) = set ks \<union> fst ` set m"
proof (induction ks arbitrary: m)
  case (Cons k ks)
  have "fst ` set (map_set k () m) = insert k (fst ` set m)"
    using set_map_set[OF Cons.prems, of k "()"] by force
  with Cons.IH[OF map_sorted_set[OF Cons.prems, of k "()"]] show ?case by auto
qed simp

context kv_nodes
begin

lemma collect_keys_ok:
  assumes "ok w" "map_sorted ks" "\<forall>n \<in> set ns. port n \<noteq> port b \<longrightarrow> up (port n)"
    and "\<forall>n \<in> set ns. port n \<noteq> port b \<longrightarrow> (\<forall>k \<in> dom (tbl w (port n)). route_key k)"
  shows "\<exists>ks' w'. collect_keys http b ns ks w = (ks', w') \<and> map_sorted ks' \<and> ok w' \<and> tbl w' = tbl w \<and>
    fst ` set ks' = fst ` set ks \<union> (\<Union>n \<in> {n \<in> set ns. port n \<noteq> port b}. dom (tbl w (port n)))"
  using assms
proof (induction ns arbitrary: ks w)
  case (Cons n ns)
  show ?case
  proof (cases "port n = port b")
    case True
    then have "{n' \<in> set (n # ns). port n' \<noteq> port b} = {n' \<in> set ns. port n' \<noteq> port b}" by auto
    with True Cons.IH[of w ks] Cons.prems show ?thesis by simp
  next
    case False
    with Cons.prems have "up (port n)" "\<forall>k \<in> dom (tbl w (port n)). route_key k" by simp_all
    then obtain l w1 where f: "fetchAllKeysFromNode http n w = (l, w1)" "set l = dom (tbl w (port n))"
      "ok w1" "tbl w1 = tbl w"
      by (rule fetch_keys[OF Cons.prems(1)])
    note m = fold_map_set[OF Cons.prems(2), of l]
    have "\<forall>n \<in> set ns. port n \<noteq> port b \<longrightarrow> up (port n)"
      "\<forall>n \<in> set ns. port n \<noteq> port b \<longrightarrow> (\<forall>k \<in> dom (tbl w1 (port n)). route_key k)"
      using Cons.prems(3,4) f(4) by auto
    from Cons.IH[OF f(3) conjunct1[OF m] this] obtain ks' w' where
      r: "collect_keys http b ns (fold (\<lambda>k. map_set k ()) l ks) w1 = (ks', w')" "map_sorted ks'" "ok w'" "tbl w' = tbl w1"
      "fst ` set ks' = fst ` set (fold (\<lambda>k. map_set k ()) l ks) \<union> (\<Union>n \<in> {n \<in> set ns. port n \<noteq> port b}. dom (tbl w1 (port n)))"
      by blast
    have "(\<Union>n \<in> {n' \<in> set (n # ns). port n' \<noteq> port b}. dom (tbl w (port n))) =
        dom (tbl w (port n)) \<union> (\<Union>n \<in> {n' \<in> set ns. port n' \<noteq> port b}. dom (tbl w (port n)))"
      using False by auto
    with r f m False show ?thesis by auto
  qed
qed simp

lemma find_source_ok:
  assumes "ok w" "route_key k" "\<forall>r \<in> set rs. port r \<noteq> port b \<longrightarrow> up (port r)"
  shows "\<exists>w'. find_source http b k rs w = (first_value (tbl w) b k rs, w') \<and> ok w' \<and> tbl w' = tbl w"
  using assms
proof (induction rs arbitrary: w)
  case (Cons r rs)
  show ?case
  proof (cases "port r = port b")
    case True
    with Cons show ?thesis by simp
  next
    case False
    with Cons.prems have "up (port r)" by simp
    then obtain w1 where f: "fetchValueFromPeer http r k w = (case tbl w (port r) k of Some v \<Rightarrow> v | None \<Rightarrow> [], w1)"
      "ok w1" "tbl w1 = tbl w" by (rule fetch_value[OF Cons.prems(1) _ Cons.prems(2)])
    from Cons.IH[OF f(2)] Cons.prems False f show ?thesis
      by (cases "tbl w (port r) k") auto
  qed
qed simp

lemma copy_keys_ok:
  assumes "ok w" "distinct keys" "\<forall>k \<in> set keys. route_key k" "\<not> ring_empty (router_ring rt)" "up (port b)"
    and "\<forall>k. \<forall>r \<in> set (getNodes hs (router_ring rt) k 2). up (port r)"
  shows "\<exists>w'. copy_keys hs http rt b keys w = Inr w' \<and> ok w' \<and>
    tbl w' = (tbl w)(port b := recovered_table hs rt b (set keys) (tbl w))"
  using assms(1-3)
proof (induction keys arbitrary: w)
  case Nil
  then show ?case by (simp add: recovered_table_def)
next
  case (Cons k keys)
  let ?reps = "getNodes hs (router_ring rt) k 2"
  let ?v = "first_value (tbl w) b k ?reps"
  have reps: "getBackendsForKey hs rt k 2 = Inr ?reps" using assms(4) by (simp add: getBackendsForKey_def)
  have own: "list_ex (\<lambda>r. port r = port b) ?reps \<longleftrightarrow> owns_key hs rt b k"
    by (auto simp: owns_key_def list_ex_iff image_iff eq_commute)
  have rk: "route_key k" using Cons.prems by simp
  obtain w1 where src: "find_source http b k ?reps w = (?v, w1)" "ok w1" "tbl w1 = tbl w"
    using find_source_ok[OF Cons.prems(1) rk, of ?reps b] assms(6) by blast
  define w2 where "w2 = (if owns_key hs rt b k
     then (if ?v \<noteq> [] then snd (writeValueToRecoveredNode http b k ?v w1) else w1) else w)"
  have step: "copy_keys hs http rt b (k # keys) w = copy_keys hs http rt b keys w2"
    by (simp add: reps own src w2_def case_prod_beta' Let_def)
  have "ok w2 \<and> tbl w2 = (tbl w)(port b :=
      (if owns_key hs rt b k \<and> ?v \<noteq> [] then (tbl w (port b))(k \<mapsto> ?v) else tbl w (port b)))"
  proof -
    obtain w3 where "writeValueToRecoveredNode http b k ?v w1 = (True, w3)" "ok w3"
      "tbl w3 = (tbl w1)(port b := (tbl w1 (port b))(k \<mapsto> ?v))"
      by (rule write_value[OF src(2) assms(5) rk])
    then show ?thesis using src(2,3) Cons.prems(1) by (simp add: w2_def)
  qed
  then have w2: "ok w2" "tbl w2 = (tbl w)(port b :=
      (if owns_key hs rt b k \<and> ?v \<noteq> [] then (tbl w (port b))(k \<mapsto> ?v) else tbl w (port b)))" by blast+
  have k: "k \<notin> set keys" "distinct keys" "\<forall>k \<in> set keys. route_key k" using Cons.prems by simp_all
  obtain w' where w': "copy_keys hs http rt b keys w2 = Inr w'" "ok w'"
    "tbl w' = (tbl w2)(port b := recovered_table hs rt b (set keys) (tbl w2))"
    using Cons.IH[OF w2(1) k(2,3)] by blast
  have eq: "recovered_table hs rt b (set keys) (tbl w2) = recovered_table hs rt b (insert k (set keys)) (tbl w)"
    unfolding w2(2) by (rule recovered_table_step[OF k(1)])
  have "tbl w' = (tbl w)(port b := recovered_table hs rt b (insert k (set keys)) (tbl w))"
    by (subst w'(3), subst eq, subst w2(2), rule fun_upd_upd)
  with w'(1,2) show ?case unfolding step list.set(2) by blast
qed

lemma recover_ok:
  assumes "ok w" "up (port b)" "\<not> ring_empty (router_ring rt)"
    and "\<forall>k. \<forall>r \<in> set (getNodes hs (router_ring rt) k 2). up (port r)"
    and "\<forall>n \<in> set (getOnlineBackends rt). port n \<noteq> port b \<longrightarrow> up (port n)"
    and "\<forall>k \<in> peer_keys rt b (tbl w). route_key k"
  shows "\<exists>w'. recover hs http rt b w = Inr w' \<and> ok w' \<and>
    tbl w' = (tbl w)(port b := recovered_table hs rt b (peer_keys rt b (tbl w)) (tbl w))"
proof -
  have "\<forall>n \<in> set (getOnlineBackends rt). port n \<noteq> port b \<longrightarrow> (\<forall>k \<in> dom (tbl w (port n)). route_key k)"
    using assms(6) by (auto simp: peer_keys_def)
  with collect_keys_ok[of w "[]" "getOnlineBackends rt" b] assms(1,5) obtain ks w1 where
    c: "collect_keys http b (getOnlineBackends rt) [] w = (ks, w1)" "map_sorted ks" "ok w1" "tbl w1 = tbl w"
    "fst ` set ks = peer_keys rt b (tbl w)"
    by (auto simp: peer_keys_def)
  show ?thesis
  proof (cases "ks = []")
    case True
    with c have "peer_keys rt b (tbl w) = {}" by simp
    then have "recovered_table hs rt b (peer_keys rt b (tbl w)) (tbl w) = tbl w (port b)"
      by (simp add: recovered_table_def)
    with True c show ?thesis by (simp add: recover_def)
  next
    case False
    have "distinct (map fst ks)" by (rule map_sorted_distinct[OF c(2)])
    moreover have "\<forall>k \<in> set (map fst ks). route_key k" using assms(6) c(5) by auto
    ultimately obtain w' where "copy_keys hs http rt b (map fst ks) w1 = Inr w'" "ok w'"
      "tbl w' = (tbl w1)(port b := recovered_table hs rt b (set (map fst ks)) (tbl w1))"
      using copy_keys_ok[OF c(3) _ _ assms(3,2,4)] by blast
    with c False show ?thesis by (simp add: recover_def)
  qed
qed

end

end
