(* ===== verification/HealthChecker.thy ===== *)
theory HealthChecker
  imports RecoveryManager
begin

text \<open>
  The health checker, HealthChecker.h and HealthChecker.cpp: the thread that pings every backend,
  marks it DOWN when it does not answer and brings it back over RECOVERING when it does. The HTTP
  client is the parameter \<open>http\<close>, as in the recovery; an exception that leaves the thread is \<open>Inl\<close>.
  A pass works on the copy of the backends it took at its start, as the code does. The lemmas show
  that a pass keeps the router well-formed, never throws and moves every backend along the state
  machine. The sleeps are left out.
\<close>

subsection \<open>Start and stop\<close>

record checker =
  running :: bool
  worker_joinable :: bool

definition HealthChecker :: checker where
  "HealthChecker = \<lparr>running = False, worker_joinable = False\<rparr>"

text \<open>Assigning to a thread that is joinable terminates the process: \<open>None\<close>.\<close>

definition start_checker :: "checker \<Rightarrow> checker option" where
  "start_checker c =
     (if running c then Some c
      else if worker_joinable c then None
      else Some \<lparr>running = True, worker_joinable = True\<rparr>)"

definition stop_checker :: "checker \<Rightarrow> checker" where
  "stop_checker c =
     (let c1 = c\<lparr>running := False\<rparr>
      in if worker_joinable c1 then c1\<lparr>worker_joinable := False\<rparr> else c1)"

subsection \<open>The loop\<close>

definition pingBackend :: "'w http \<Rightarrow> backend \<Rightarrow> 'w \<Rightarrow> bool \<times> 'w" where
  "pingBackend http b w =
     (case http_get http b ''/health'' w of
        (None, w') \<Rightarrow> (False, w')
      | (Some (code, body), w') \<Rightarrow> (code = 200, w'))"

text \<open>The loop of \<open>run\<close> over the backends.\<close>

fun check_backends :: "hasher \<Rightarrow> 'w http \<Rightarrow> backend list \<Rightarrow> router \<Rightarrow> 'w \<Rightarrow> router_error + (router \<times> 'w)" where
  "check_backends hs http [] rt w = Inr (rt, w)"
| "check_backends hs http (b # bs) rt w =
     (let (alive, w1) = pingBackend http b w
      in if alive
         then if status b = DOWN
              then (let rt1 = markBackendRecovering hs (port b) rt
                    in case recover hs http rt1 b w1 of
                         Inl e \<Rightarrow> Inl e
                       | Inr w2 \<Rightarrow> check_backends hs http bs (markBackendUp hs (port b) rt1) w2)
              else check_backends hs http bs rt w1
         else if status b = UP \<or> status b = RECOVERING
              then check_backends hs http bs (markBackendDown hs (port b) rt) w1
              else check_backends hs http bs rt w1)"

definition health_pass :: "hasher \<Rightarrow> 'w http \<Rightarrow> router \<Rightarrow> 'w \<Rightarrow> router_error + (router \<times> 'w)" where
  "health_pass hs http rt w = check_backends hs http (getAllBackends rt) rt w"

text \<open>The \<open>while\<close> loop of \<open>run\<close>, over the values \<open>running_\<close> has at its successive tests.\<close>

fun run_checker :: "hasher \<Rightarrow> 'w http \<Rightarrow> bool list \<Rightarrow> router \<Rightarrow> 'w \<Rightarrow> router_error + (router \<times> 'w)" where
  "run_checker hs http [] rt w = Inr (rt, w)"
| "run_checker hs http (r # rs) rt w =
     (if r then (case health_pass hs http rt w of
                   Inl e \<Rightarrow> Inl e
                 | Inr (rt1, w1) \<Rightarrow> run_checker hs http rs rt1 w1)
      else Inr (rt, w))"

subsection \<open>A recovery does not throw\<close>

lemma copy_keys_no_throw:
  "\<not> ring_empty (router_ring rt) \<Longrightarrow> \<exists>w'. copy_keys hs http rt b keys w = Inr w'"
  by (induction keys arbitrary: w) (simp_all add: getBackendsForKey_def Let_def case_prod_beta')

lemma recover_no_throw: "\<not> ring_empty (router_ring rt) \<Longrightarrow> \<exists>w'. recover hs http rt b w = Inr w'"
  using copy_keys_no_throw[of rt hs http b] by (simp add: recover_def Let_def case_prod_beta')

lemma recovering_ring:
  assumes "router_inv hs rt" "map_of (backends rt) p = Some b"
  shows "\<not> ring_empty (router_ring (markBackendRecovering hs p rt))"
  using hring.owner_after_add[OF router_inv_ring[OF assms(1)], of "b\<lparr>status := RECOVERING\<rparr>"] assms(2)
  by (auto simp: ring_empty_owners markBackendRecovering_def Let_def)

subsection \<open>A pass\<close>

text \<open>What a pass makes of a backend's status.\<close>

definition next_status :: "bool \<Rightarrow> backend_status \<Rightarrow> backend_status" where
  "next_status alive st = (if \<not> alive then DOWN else if st = DOWN then UP else st)"

text \<open>Whether the backends answer a ping does not change during the pass.\<close>

definition stable_pings :: "'w http \<Rightarrow> (int \<Rightarrow> bool) \<Rightarrow> bool" where
  "stable_pings http alive \<longleftrightarrow> (\<forall>b w. fst (pingBackend http b w) = alive (port b))"

lemma check_backends_ok:
  assumes "stable_pings http alive" "router_inv hs rt" "distinct (map port bs)"
    and "\<forall>b \<in> set bs. map_of (backends rt) (port b) = Some b"
  shows "\<exists>rt' w'. check_backends hs http bs rt w = Inr (rt', w') \<and> router_inv hs rt' \<and>
    (\<forall>p. map_of (backends rt') p =
      (if p \<in> port ` set bs
       then map_option (\<lambda>b. b\<lparr>status := next_status (alive p) (status b)\<rparr>) (map_of (backends rt) p)
       else map_of (backends rt) p))"
  using assms(2-4)
proof (induction bs arbitrary: rt w)
  case (Cons b bs)
  have "fst (pingBackend http b w) = alive (port b)" using assms(1) by (simp add: stable_pings_def)
  then obtain w1 where ping: "pingBackend http b w = (alive (port b), w1)"
    by (cases "pingBackend http b w") simp
  have b: "map_of (backends rt) (port b) = Some b" using Cons.prems(3) by simp
  define rt1 where "rt1 = (if alive (port b)
     then if status b = DOWN then markBackendUp hs (port b) (markBackendRecovering hs (port b) rt) else rt
     else if status b = DOWN then rt else markBackendDown hs (port b) rt)"
  obtain w2 where step: "check_backends hs http (b # bs) rt w = check_backends hs http bs rt1 w2"
  proof -
    obtain w2 where w2: "recover hs http (markBackendRecovering hs (port b) rt) b w1 = Inr w2"
      using recover_no_throw[OF recovering_ring[OF Cons.prems(1) b], of hs http b w1] by auto
    show ?thesis
    proof (cases "alive (port b) \<and> status b = DOWN")
      case True
      with ping w2 that[of w2] show ?thesis by (simp add: rt1_def Let_def)
    next
      case False
      with ping that[of w1] show ?thesis by (cases "status b") (simp_all add: rt1_def Let_def)
    qed
  qed
  have inv: "router_inv hs rt1" using Cons.prems(1) by (simp add: rt1_def router_inv_mark)
  have st: "map_of (backends rt1) p = (if p = port b
      then Some (b\<lparr>status := next_status (alive p) (status b)\<rparr>) else map_of (backends rt) p)" for p
  proof (cases "p = port b")
    case True
    have "b\<lparr>status := status b\<rparr> = b" by simp
    with True b show ?thesis by (cases "status b"; cases "alive (port b)") (simp_all add: rt1_def map_of_mark next_status_def)
  next
    case False
    then show ?thesis by (simp add: rt1_def map_of_mark)
  qed
  have fresh: "port b \<notin> port ` set bs" and dist: "distinct (map port bs)" using Cons.prems(2) by simp_all
  have "map_of (backends rt1) (port c) = Some c" if "c \<in> set bs" for c
  proof -
    have "port c \<in> port ` set bs" using that by (rule imageI)
    with fresh have "port c \<noteq> port b" by metis
    then show ?thesis using st[of "port c"] Cons.prems(3) that by simp
  qed
  then obtain rt' w' where
    r: "check_backends hs http bs rt1 w2 = Inr (rt', w')" "router_inv hs rt'"
    "\<forall>p. map_of (backends rt') p =
      (if p \<in> port ` set bs
       then map_option (\<lambda>b. b\<lparr>status := next_status (alive p) (status b)\<rparr>) (map_of (backends rt1) p)
       else map_of (backends rt1) p)" using Cons.IH[OF inv dist, of w2] by blast
  from fresh have "map_of (backends rt') p =
      (if p \<in> port ` set (b # bs)
       then map_option (\<lambda>b. b\<lparr>status := next_status (alive p) (status b)\<rparr>) (map_of (backends rt) p)
       else map_of (backends rt) p)" for p
    using r(3) b st[of p] by (cases "p = port b") simp_all
  with step r(1,2) show ?case by simp
qed simp

lemma router_inv_backends:
  assumes "router_inv hs rt"
  shows "distinct (map port (getAllBackends rt))" "\<forall>b \<in> set (getAllBackends rt). map_of (backends rt) (port b) = Some b"
    "port ` set (getAllBackends rt) = dom (map_of (backends rt))"
proof -
  have p: "port b = p" if "(p, b) \<in> set (backends rt)" for p b
    using assms that by (auto simp: router_inv_def)
  then have "map port (getAllBackends rt) = map fst (backends rt)"
    by (auto simp: getAllBackends_def)
  then show "distinct (map port (getAllBackends rt))"
    and "port ` set (getAllBackends rt) = dom (map_of (backends rt))"
    using router_inv_distinct[OF assms] by (simp_all add: dom_map_of_conv_image_fst flip: set_map)
  show "\<forall>b \<in> set (getAllBackends rt). map_of (backends rt) (port b) = Some b"
    using p map_of_set_conv[OF router_inv_distinct[OF assms]] by (auto simp: getAllBackends_def)
qed

lemma health_pass_ok:
  assumes "stable_pings http alive" "router_inv hs rt"
  shows "\<exists>rt' w'. health_pass hs http rt w = Inr (rt', w') \<and> router_inv hs rt' \<and>
    (\<forall>p. map_of (backends rt') p =
      map_option (\<lambda>b. b\<lparr>status := next_status (alive p) (status b)\<rparr>) (map_of (backends rt) p))"
proof -
  note r = router_inv_backends[OF assms(2)]
  obtain rt' w' where h: "health_pass hs http rt w = Inr (rt', w')" "router_inv hs rt'"
    "\<forall>p. map_of (backends rt') p =
      (if p \<in> port ` set (getAllBackends rt)
       then map_option (\<lambda>b. b\<lparr>status := next_status (alive p) (status b)\<rparr>) (map_of (backends rt) p)
       else map_of (backends rt) p)"
    using check_backends_ok[OF assms r(1,2), of w] unfolding health_pass_def by blast
  then show ?thesis unfolding r(3) by (auto simp: domIff)
qed

subsection \<open>Start and stop in any order\<close>

text \<open>\<open>True\<close> starts, \<open>False\<close> stops.\<close>

fun control :: "checker \<Rightarrow> bool list \<Rightarrow> checker option" where
  "control c [] = Some c"
| "control c (go # rest) =
     (if go then (case start_checker c of None \<Rightarrow> None | Some c1 \<Rightarrow> control c1 rest)
      else control (stop_checker c) rest)"

lemma control_ok:
  "worker_joinable c = running c \<Longrightarrow> \<exists>c'. control c ops = Some c' \<and> worker_joinable c' = running c'"
  by (induction ops arbitrary: c) (auto simp: start_checker_def stop_checker_def Let_def)

subsection \<open>Properties\<close>


definition dead_http :: "unit http" where
  "dead_http = \<lparr>http_get = (\<lambda>_ _ w. (None, w)), http_post = (\<lambda>_ _ _ w. (None, w))\<rparr>"

lemma dead_pings: "stable_pings dead_http (\<lambda>p. False)"
  by (simp add: stable_pings_def pingBackend_def dead_http_def)


text \<open>
  The health checker's thread: in any order of calls of start and stop, start never assigns to a
  thread that is still joinable, and a worker is joinable exactly while the checker runs.
\<close>

theorem start_stop_safe:
  "\<exists>c. control HealthChecker ops = Some c \<and> worker_joinable c = running c"
  by (rule control_ok) (simp add: HealthChecker_def)

end
