(* ===== verification/ProxySession.thy ===== *)
theory ProxySession
  imports Router HttpParser
begin

text \<open>
  A proxy session, ProxySession.h and ProxySession.cpp: one client connection, its requests parsed
  from a byte buffer, each routed by its key, replicated or retried over the backends, and
  answered. The sockets are the system's: a record \<open>net\<close> says what each connection attempt and
  each \<open>send\<close> of the session meets. The session's state is the shared router, the descriptor of
  the backend connection, the descriptors open, and logs of the bytes delivered to each side. The
  lemmas show that no backend connection is reused or leaked, that the result does not depend on
  how TCP cuts the client's bytes into reads, what a write delivers to every replica and which
  reply the client gets. Messages to \<open>std::cerr\<close> are left out.
\<close>

subsection \<open>The network\<close>

text \<open>
  One attempt to reach a backend: what \<open>socket\<close> and \<open>connect\<close> return, what \<open>send\<close> returns when so
  many bytes are left, and what the successive \<open>recv\<close>s return after the backend has received a
  string: a chunk, or \<open>[]\<close> for a result that is not positive, as is the end of the list.
\<close>

record conn =
  sock_result :: int
  connect_result :: int
  backend_send :: "nat \<Rightarrow> int"
  backend_recv :: "string \<Rightarrow> string list"

text \<open>The attempts are numbered in the order of the session; so are its sends to the client.\<close>

record net =
  conns :: "nat \<Rightarrow> backend \<Rightarrow> conn"
  client_send :: "nat \<Rightarrow> nat \<Rightarrow> int"

record session =
  sess_router :: router
  backendSocket :: int
  open_fds :: "int list"
  attempts :: nat
  peer :: conn
  peer_sent :: string
  backend_log :: "(int \<times> string) list"
  client_log :: string
  client_sends :: nat

definition no_conn :: conn where
  "no_conn = \<lparr>sock_result = -1, connect_result = -1, backend_send = (\<lambda>_. 0), backend_recv = (\<lambda>_. [])\<rparr>"

definition ProxySession :: "router \<Rightarrow> session" where
  "ProxySession rt = \<lparr>sess_router = rt, backendSocket = -1, open_fds = [], attempts = 0, peer = no_conn,
     peer_sent = [], backend_log = [], client_log = [], client_sends = 0\<rparr>"

subsection \<open>Sending\<close>

text \<open>The loop of \<open>sendAll\<close>: its result and the bytes the socket took.\<close>

function sendAll :: "(nat \<Rightarrow> int) \<Rightarrow> string \<Rightarrow> nat \<Rightarrow> bool \<times> string" where
  "sendAll tx data totalSent =
     (if totalSent < length data
      then (let sent = tx (length data - totalSent)
            in if sent \<le> 0 then (False, [])
               else (let (r, out) = sendAll tx data (totalSent + nat sent)
                     in (r, take (nat sent) (drop totalSent data) @ out)))
      else (True, []))"
  by pat_completeness auto
termination
  by (relation "measure (\<lambda>(tx, data, totalSent). length data - totalSent)") auto

declare sendAll.simps [simp del]

definition send_client :: "net \<Rightarrow> string \<Rightarrow> session \<Rightarrow> session" where
  "send_client net data s =
     (let (_, out) = sendAll (client_send net (client_sends s)) data 0
      in s\<lparr>client_log := client_log s @ out, client_sends := Suc (client_sends s)\<rparr>)"

definition send_backend :: "int \<Rightarrow> string \<Rightarrow> session \<Rightarrow> session" where
  "send_backend p data s =
     (let (_, out) = sendAll (backend_send (peer s)) data 0
      in s\<lparr>peer_sent := peer_sent s @ out, backend_log := backend_log s @ [(p, out)]\<rparr>)"

subsection \<open>Backend connections\<close>

definition closeBackend :: "session \<Rightarrow> session" where
  "closeBackend s =
     (if backendSocket s \<noteq> -1
      then s\<lparr>backendSocket := -1, open_fds := remove1 (backendSocket s) (open_fds s)\<rparr>
      else s)"

definition connectToBackend :: "net \<Rightarrow> backend \<Rightarrow> session \<Rightarrow> bool \<times> session" where
  "connectToBackend net b s =
     (if backendSocket s \<noteq> -1 then (True, s)
      else
        (let c = conns net (attempts s) b;
             s1 = s\<lparr>attempts := Suc (attempts s), backendSocket := sock_result c\<rparr>
         in if sock_result c < 0 then (False, s1)
            else
              (let s2 = s1\<lparr>open_fds := sock_result c # open_fds s1, peer := c, peer_sent := []\<rparr>
               in if connect_result c < 0
                  then (False, s2\<lparr>backendSocket := -1, open_fds := remove1 (sock_result c) (open_fds s2)\<rparr>)
                  else (True, s2))))"

definition closed_msg :: string where
  "closed_msg = ''Backend connection closed or error''"

text \<open>The loop of \<open>readBackendResponse\<close>, with the buffer so far and the chunks still to come.\<close>

fun read_response :: "string \<Rightarrow> string list \<Rightarrow> HttpResponseParseResult" where
  "read_response buffer [] =
     (let r = parseHTTPResponse buffer
      in if rparse_status r = COMPLETE then r
         else if rparse_status r = ERROR then r
         else r\<lparr>rparse_status := ERROR, rparse_error := closed_msg\<rparr>)"
| "read_response buffer (c # cs) =
     (let r = parseHTTPResponse buffer
      in if rparse_status r = COMPLETE then r
         else if rparse_status r = ERROR then r
         else if c = [] then r\<lparr>rparse_status := ERROR, rparse_error := closed_msg\<rparr>
         else read_response (buffer @ c) cs)"

definition readBackendResponse :: "session \<Rightarrow> HttpResponseParseResult" where
  "readBackendResponse s = read_response [] (backend_recv (peer s) (peer_sent s))"

definition mark_down :: "hasher \<Rightarrow> backend \<Rightarrow> session \<Rightarrow> session" where
  "mark_down hs b s = s\<lparr>sess_router := markBackendDown hs (port b) (sess_router s)\<rparr>"

subsection \<open>Handling one request\<close>

definition err_resp :: string where
  "err_resp = ''HTTP/1.1 503 Service Unavailable'' @ CRLF @ ''Content-Length: 21'' @ CRLF @ CRLF @
     ''503 Service Unavailable''"

definition replication_header :: string where
  "replication_header = ''X-Internal-Replication: true'' @ CRLF"

definition is_write :: "HttpRequest \<Rightarrow> bool" where
  "is_write r \<longleftrightarrow> req_method r = ''POST'' \<or> req_method r = ''PUT'' \<or> req_method r = ''DELETE''"

definition request_payload :: "HttpRequest \<Rightarrow> string" where
  "request_payload r =
     (if req_method r = ''PUT''
      then (case str_find CRLF (rawRequest r) of
              Some pos \<Rightarrow> take (pos + 2) (rawRequest r) @ replication_header @ drop (pos + 2) (rawRequest r)
            | None \<Rightarrow> rawRequest r)
      else rawRequest r)"

text \<open>The replication loop; it carries \<open>primaryResponse\<close> and \<open>atLeastOneSuccess\<close>.\<close>

fun write_loop :: "hasher \<Rightarrow> net \<Rightarrow> string \<Rightarrow> backend list \<Rightarrow> string \<Rightarrow> bool \<Rightarrow> session \<Rightarrow> string \<times> bool \<times> session" where
  "write_loop hs net payload [] primary success s = (primary, success, s)"
| "write_loop hs net payload (b # bs) primary success s =
     (let (connected, s1) = connectToBackend net b s
      in if connected
         then
           (let s2 = send_backend (port b) payload s1;
                r = readBackendResponse s2;
                code = statusCode (response r);
                complete = (rparse_status r = COMPLETE);
                primary' = (if complete \<and> (primary = [] \<or> code = 200 \<or> code = 201)
                            then rawResponse (response r) else primary)
            in write_loop hs net payload bs primary' (success \<or> complete) (closeBackend s2))
         else write_loop hs net payload bs primary success (mark_down hs b s1))"

text \<open>The failover loop of a read; its result says whether a backend answered.\<close>

fun read_loop :: "hasher \<Rightarrow> net \<Rightarrow> string \<Rightarrow> backend list \<Rightarrow> session \<Rightarrow> bool \<times> session" where
  "read_loop hs net payload [] s = (False, s)"
| "read_loop hs net payload (b # bs) s =
     (let (connected, s1) = connectToBackend net b s
      in if connected
         then
           (let s2 = send_backend (port b) payload s1;
                r = readBackendResponse s2
            in if rparse_status r = COMPLETE
               then (True, closeBackend (send_client net (rawResponse (response r)) s2))
               else read_loop hs net payload bs (mark_down hs b (closeBackend s2)))
         else read_loop hs net payload bs (mark_down hs b s1))"

text \<open>What one request makes of the session: it goes on, it returns, or an exception leaves it.\<close>

datatype verdict = Goes_on | Returns | Throws router_error

definition handle_write :: "hasher \<Rightarrow> net \<Rightarrow> HttpRequest \<Rightarrow> backend list \<Rightarrow> session \<Rightarrow> verdict \<times> session" where
  "handle_write hs net r candidates s =
     (let (primary, success, s1) = write_loop hs net (request_payload r) candidates [] False s
      in (Goes_on, send_client net (if success then primary else err_resp) s1))"

definition handle_fetch :: "hasher \<Rightarrow> net \<Rightarrow> HttpRequest \<Rightarrow> backend list \<Rightarrow> session \<Rightarrow> verdict \<times> session" where
  "handle_fetch hs net r candidates s =
     (let (connected, s1) = read_loop hs net (rawRequest r) candidates s
      in if connected then (Goes_on, s1) else (Returns, send_client net err_resp s1))"

definition handle_request :: "hasher \<Rightarrow> net \<Rightarrow> HttpRequest \<Rightarrow> session \<Rightarrow> verdict \<times> session" where
  "handle_request hs net r s =
     (case (if is_write r then getWriteBackendsForKey hs (sess_router s) (getKey r) 2
            else getReadBackendsForKey hs (sess_router s) (getKey r) 2) of
        Inl e \<Rightarrow> (Throws e, s)
      | Inr candidates \<Rightarrow>
          if candidates = [] then (Returns, send_client net err_resp s)
          else if is_write r then handle_write hs net r candidates s
          else handle_fetch hs net r candidates s)"

subsection \<open>The session\<close>

text \<open>The inner loop: every complete request of the buffer, and the bytes left over.\<close>

function serve_buffer :: "hasher \<Rightarrow> net \<Rightarrow> string \<Rightarrow> session \<Rightarrow> verdict \<times> session \<times> string" where
  "serve_buffer hs net buffer s =
     (if buffer = [] then (Goes_on, s, [])
      else
        (let result = parseHTTPRequest buffer
         in case parse_status result of
              INCOMPLETE \<Rightarrow> (Goes_on, s, buffer)
            | ERROR \<Rightarrow> (Returns, s, buffer)
            | COMPLETE \<Rightarrow>
                (case handle_request hs net (request result) s of
                   (Goes_on, s1) \<Rightarrow> serve_buffer hs net (drop (consumed result) buffer) s1
                 | (v, s1) \<Rightarrow> (v, s1, buffer))))"
  by pat_completeness auto
termination
  by (relation "measure (\<lambda>(hs, net, buffer, s). length buffer)")
     (auto dest: parse_complete_bounds)

declare serve_buffer.simps [simp del]

text \<open>The outer loop over the reads from the client; \<open>[]\<close> is a result that is not positive.\<close>

fun serve_chunks :: "hasher \<Rightarrow> net \<Rightarrow> string list \<Rightarrow> string \<Rightarrow> session \<Rightarrow> verdict \<times> session" where
  "serve_chunks hs net [] buffer s = (Goes_on, s)"
| "serve_chunks hs net (c # cs) buffer s =
     (if c = [] then (Goes_on, s)
      else
        (case serve_buffer hs net (buffer @ c) s of
           (Goes_on, s1, buffer') \<Rightarrow> serve_chunks hs net cs buffer' s1
         | (v, s1, _) \<Rightarrow> (v, s1)))"

text \<open>\<open>start\<close>: \<open>Goes_on\<close> is now the normal end after the client has disconnected.\<close>

definition forwardTraffic :: "hasher \<Rightarrow> net \<Rightarrow> string list \<Rightarrow> session \<Rightarrow> verdict \<times> session" where
  "forwardTraffic hs net chunks s = serve_chunks hs net chunks [] s"

subsection \<open>What a send delivers\<close>

lemma sendAll_prefix:
  "sendAll tx data n = (r, out) \<Longrightarrow> prefix out (drop n data) \<and> (r \<longrightarrow> out = drop n data)"
proof (induction tx data n arbitrary: r out rule: sendAll.induct)
  case (1 tx data n)
  show ?case
  proof (cases "n < length data \<and> 0 < tx (length data - n)")
    case True
    let ?k = "nat (tx (length data - n))"
    obtain r' out' where rec: "sendAll tx data (n + ?k) = (r', out')" by (rule prod.exhaust)
    have split: "drop n data = take ?k (drop n data) @ drop (n + ?k) data"
      by (metis add.commute append_take_drop_id drop_drop)
    have ih: "prefix out' (drop (n + ?k) data) \<and> (r' \<longrightarrow> out' = drop (n + ?k) data)"
      using 1(1)[OF _ refl _ rec] True by simp
    have "r = r' \<and> out = take ?k (drop n data) @ out'"
      using 1(2) rec True by (simp add: sendAll.simps[of tx data n] Let_def)
    with split ih show ?thesis by (metis same_prefix_prefix)
  next
    case False
    with 1(2) show ?thesis by (auto simp: sendAll.simps[of tx data n] split: if_splits)
  qed
qed

lemma sendAll_complete:
  assumes "\<And>k. 0 < k \<Longrightarrow> 0 < tx k"
  shows "sendAll tx data n = (True, drop n data)"
proof -
  have "fst (sendAll tx data n)"
    using assms
  proof (induction tx data n rule: sendAll.induct)
    case (1 tx data n)
    show ?case
    proof (cases "n < length data")
      case True
      then have "\<not> tx (length data - n) \<le> 0" using 1(2)[of "length data - n"] by simp
      with True 1 show ?thesis by (subst sendAll.simps) (simp add: Let_def case_prod_beta')
    qed (simp add: sendAll.simps[of tx data n])
  qed
  with sendAll_prefix[of tx data n True "snd (sendAll tx data n)"] show ?thesis
    by (metis prod.collapse)
qed

subsection \<open>One backend\<close>

text \<open>No backend connection is open, and the other descriptors are \<open>fds\<close>.\<close>

definition idle :: "int list \<Rightarrow> session \<Rightarrow> bool" where
  "idle fds s \<longleftrightarrow> backendSocket s = -1 \<and> open_fds s = fds"

text \<open>\<open>socket\<close> returns \<open>-1\<close> when it fails.\<close>

definition posix_net :: "net \<Rightarrow> bool" where
  "posix_net net \<longleftrightarrow> (\<forall>n b. -1 \<le> sock_result (conns net n b))"

definition reachable :: "conn \<Rightarrow> bool" where
  "reachable c \<longleftrightarrow> 0 \<le> sock_result c \<and> 0 \<le> connect_result c"

text \<open>What a connection takes of a payload, and the complete response it gives to it, if any.\<close>

definition taken :: "conn \<Rightarrow> string \<Rightarrow> string" where
  "taken c payload = snd (sendAll (backend_send c) payload 0)"

definition answer :: "conn \<Rightarrow> string \<Rightarrow> HttpResponse option" where
  "answer c payload =
     (let r = read_response [] (backend_recv c (taken c payload))
      in if reachable c \<and> rparse_status r = COMPLETE then Some (response r) else None)"

lemma idle_fields [simp]:
  "idle fds (s\<lparr>sess_router := rt\<rparr>) = idle fds s" "idle fds (s\<lparr>client_log := l\<rparr>) = idle fds s"
  "idle fds (s\<lparr>client_sends := k\<rparr>) = idle fds s" "idle fds (mark_down hs b s) = idle fds s"
  "idle fds (send_client net d s) = idle fds s" "idle fds (ProxySession rt) \<longleftrightarrow> fds = []"
  by (auto simp: idle_def mark_down_def send_client_def ProxySession_def split: prod.split)

text \<open>
  From an idle session: one attempt that fails, or a conversation over a connection of its own that
  is closed again.
\<close>

lemma connect_fails:
  assumes "idle fds s" "posix_net net" "\<not> reachable (conns net (attempts s) b)"
  obtains s1 where "connectToBackend net b s = (False, s1)" "idle fds s1" "attempts s1 = Suc (attempts s)"
    "sess_router s1 = sess_router s" "backend_log s1 = backend_log s" "client_log s1 = client_log s"
    "client_sends s1 = client_sends s"
proof -
  have "-1 \<le> sock_result (conns net (attempts s) b)" using assms(2) by (simp add: posix_net_def)
  then have "sock_result (conns net (attempts s) b) = -1 \<or> 0 \<le> sock_result (conns net (attempts s) b)" by arith
  then show ?thesis
    using assms that by (auto simp: connectToBackend_def idle_def reachable_def Let_def not_le)
qed

lemma connect_succeeds:
  assumes "idle fds s" "reachable (conns net (attempts s) b)"
  obtains s1 where "connectToBackend net b s = (True, s1)" "attempts s1 = Suc (attempts s)"
    "sess_router s1 = sess_router s" "backend_log s1 = backend_log s" "client_log s1 = client_log s"
    "client_sends s1 = client_sends s" "peer s1 = conns net (attempts s) b" "peer_sent s1 = []"
    "backendSocket s1 \<noteq> -1" "open_fds s1 = backendSocket s1 # fds"
  using assms that by (auto simp: connectToBackend_def idle_def reachable_def Let_def)

lemma conversation:
  assumes "idle fds s" "reachable (conns net (attempts s) b)"
  defines "c \<equiv> conns net (attempts s) b"
  obtains s1 s2 where "connectToBackend net b s = (True, s1)" "send_backend (port b) payload s1 = s2"
    "(if rparse_status (readBackendResponse s2) = COMPLETE then Some (response (readBackendResponse s2)) else None)
      = answer c payload"
    "idle fds (closeBackend s2)" "attempts (closeBackend s2) = Suc (attempts s)"
    "sess_router (closeBackend s2) = sess_router s"
    "backend_log (closeBackend s2) = backend_log s @ [(port b, taken c payload)]"
    "client_log (closeBackend s2) = client_log s" "client_sends (closeBackend s2) = client_sends s"
    "\<And>d. closeBackend (send_client net d s2) = send_client net d (closeBackend s2)"
proof -
  obtain s1 where s1: "connectToBackend net b s = (True, s1)" "attempts s1 = Suc (attempts s)"
    "sess_router s1 = sess_router s" "backend_log s1 = backend_log s" "client_log s1 = client_log s"
    "client_sends s1 = client_sends s" "peer s1 = c" "peer_sent s1 = []"
    "backendSocket s1 \<noteq> -1" "open_fds s1 = backendSocket s1 # fds"
    using connect_succeeds[OF assms(1,2)] unfolding c_def by blast
  let ?s2 = "send_backend (port b) payload s1"
  have "?s2 = s1\<lparr>peer_sent := taken c payload, backend_log := backend_log s @ [(port b, taken c payload)]\<rparr>"
    using s1 by (simp add: send_backend_def taken_def case_prod_beta' Let_def)
  with s1 assms(2) show ?thesis
    by (intro that[OF s1(1) refl])
       (auto simp: readBackendResponse_def answer_def Let_def c_def closeBackend_def idle_def send_client_def
         split: prod.split)
qed

subsection \<open>Writes\<close>

text \<open>What the attempts \<open>n, n + 1, ...\<close> make of a list of backends: the replies, the router, the log.\<close>

fun replies :: "net \<Rightarrow> string \<Rightarrow> nat \<Rightarrow> backend list \<Rightarrow> HttpResponse list" where
  "replies net payload n [] = []"
| "replies net payload n (b # bs) =
     (case answer (conns net n b) payload of
        Some r \<Rightarrow> r # replies net payload (Suc n) bs
      | None \<Rightarrow> replies net payload (Suc n) bs)"

fun routers :: "hasher \<Rightarrow> net \<Rightarrow> nat \<Rightarrow> backend list \<Rightarrow> router \<Rightarrow> router" where
  "routers hs net n [] rt = rt"
| "routers hs net n (b # bs) rt =
     routers hs net (Suc n) bs
       (if reachable (conns net n b) then rt else markBackendDown hs (port b) rt)"

fun deliveries :: "net \<Rightarrow> string \<Rightarrow> nat \<Rightarrow> backend list \<Rightarrow> (int \<times> string) list" where
  "deliveries net payload n [] = []"
| "deliveries net payload n (b # bs) =
     (if reachable (conns net n b) then [(port b, taken (conns net n b) payload)] else []) @
     deliveries net payload (Suc n) bs"

text \<open>Which reply the client gets: the last successful one, or the first that is not empty.\<close>

definition is_success :: "HttpResponse \<Rightarrow> bool" where
  "is_success r \<longleftrightarrow> statusCode r = 200 \<or> statusCode r = 201"

fun pick :: "string \<Rightarrow> HttpResponse list \<Rightarrow> string" where
  "pick primary [] = primary"
| "pick primary (r # rs) = pick (if primary = [] \<or> is_success r then rawResponse r else primary) rs"

lemma pick_keep: "p \<noteq> [] \<Longrightarrow> \<forall>r \<in> set rs. \<not> is_success r \<Longrightarrow> pick p rs = p"
  by (induction rs) auto

lemma pick_success:
  assumes "\<exists>r \<in> set rs. is_success r" "\<forall>r \<in> set rs. rawResponse r \<noteq> []"
  shows "pick p rs = rawResponse (last (filter is_success rs))"
  using assms
proof (induction rs arbitrary: p)
  case (Cons r rs)
  show ?case
  proof (cases "\<exists>r \<in> set rs. is_success r")
    case True
    then have "filter is_success rs \<noteq> []" by (simp add: filter_empty_conv)
    with Cons.IH[OF True] Cons.prems(2) show ?thesis by simp
  next
    case False
    with Cons.prems have "is_success r" "filter is_success rs = []" "rawResponse r \<noteq> []"
      by (auto simp: filter_empty_conv)
    with pick_keep[of "rawResponse r" rs] False show ?thesis by simp
  qed
qed simp

lemma pick_failure:
  assumes "\<forall>r \<in> set rs. \<not> is_success r" "rs \<noteq> []" "rawResponse (hd rs) \<noteq> []"
  shows "pick [] rs = rawResponse (hd rs)"
  using assms pick_keep by (cases rs) auto

lemma write_loop_result:
  assumes "idle fds s" "posix_net net"
  shows "\<exists>s'. write_loop hs net payload bs p ok s =
      (pick p (replies net payload (attempts s) bs), ok \<or> replies net payload (attempts s) bs \<noteq> [], s') \<and>
      idle fds s' \<and> attempts s' = attempts s + length bs \<and>
      sess_router s' = routers hs net (attempts s) bs (sess_router s) \<and>
      backend_log s' = backend_log s @ deliveries net payload (attempts s) bs \<and>
      client_log s' = client_log s \<and> client_sends s' = client_sends s"
  using assms(1)
proof (induction bs arbitrary: p ok s)
  case (Cons b bs)
  let ?c = "conns net (attempts s) b"
  show ?case
  proof (cases "reachable ?c")
    case True
    obtain s1 s2 where c: "connectToBackend net b s = (True, s1)" "send_backend (port b) payload s1 = s2"
      "(if rparse_status (readBackendResponse s2) = COMPLETE then Some (response (readBackendResponse s2)) else None)
        = answer ?c payload"
      "idle fds (closeBackend s2)" "attempts (closeBackend s2) = Suc (attempts s)"
      "sess_router (closeBackend s2) = sess_router s"
      "backend_log (closeBackend s2) = backend_log s @ [(port b, taken ?c payload)]"
      "client_log (closeBackend s2) = client_log s" "client_sends (closeBackend s2) = client_sends s"
      using conversation[OF Cons.prems True, of payload] by blast
    show ?thesis
    proof (cases "rparse_status (readBackendResponse s2) = COMPLETE")
      case complete: True
      let ?r = "response (readBackendResponse s2)"
      let ?p = "if p = [] \<or> is_success ?r then rawResponse ?r else p"
      from complete c(3) have a: "answer ?c payload = Some ?r" by simp
      have "write_loop hs net payload (b # bs) p ok s = write_loop hs net payload bs ?p True (closeBackend s2)"
        using c complete by (simp add: Let_def is_success_def)
      with Cons.IH[OF c(4), of ?p True] c(5-9) a True show ?thesis by auto
    next
      case incomplete: False
      with c(3) have a: "answer ?c payload = None" by simp
      have "write_loop hs net payload (b # bs) p ok s = write_loop hs net payload bs p ok (closeBackend s2)"
        using c incomplete by (simp add: Let_def)
      with Cons.IH[OF c(4), of p ok] c(5-9) a True show ?thesis by auto
    qed
  next
    case False
    obtain s1 where c: "connectToBackend net b s = (False, s1)" "idle fds s1" "attempts s1 = Suc (attempts s)"
      "sess_router s1 = sess_router s" "backend_log s1 = backend_log s" "client_log s1 = client_log s"
      "client_sends s1 = client_sends s"
      using connect_fails[OF Cons.prems assms(2) False] by blast
    have "idle fds (mark_down hs b s1)" using c(2) by simp
    from Cons.IH[OF this, of p ok] c False show ?thesis
      by (auto simp: mark_down_def answer_def)
  qed
qed simp

subsection \<open>Reads\<close>

text \<open>The first backend with a complete response: its place and the response.\<close>

fun first_answer :: "net \<Rightarrow> string \<Rightarrow> nat \<Rightarrow> backend list \<Rightarrow> (nat \<times> HttpResponse) option" where
  "first_answer net payload n [] = None"
| "first_answer net payload n (b # bs) =
     (case answer (conns net n b) payload of
        Some r \<Rightarrow> Some (0, r)
      | None \<Rightarrow> map_option (\<lambda>(i, r). (Suc i, r)) (first_answer net payload (Suc n) bs))"

definition mark_all_down :: "hasher \<Rightarrow> backend list \<Rightarrow> router \<Rightarrow> router" where
  "mark_all_down hs bs rt = fold (\<lambda>b. markBackendDown hs (port b)) bs rt"

lemma mark_all_down_simps [simp]:
  "mark_all_down hs [] rt = rt"
  "mark_all_down hs (b # bs) rt = mark_all_down hs bs (markBackendDown hs (port b) rt)"
  by (simp_all add: mark_all_down_def)

lemma send_client_fields [simp]:
  "sess_router (send_client net d s) = sess_router s" "attempts (send_client net d s) = attempts s"
  "client_log (send_client net d s) = client_log s @ snd (sendAll (client_send net (client_sends s)) d 0)"
  "client_sends (send_client net d s) = Suc (client_sends s)"
  "backend_log (send_client net d s) = backend_log s"
  by (simp_all add: send_client_def case_prod_beta' Let_def)

lemma read_loop_result:
  assumes "idle fds s" "posix_net net"
  shows "\<exists>s'. idle fds s' \<and> client_sends s' = client_sends s \<and> client_log s' = client_log s \<and>
     (case first_answer net payload (attempts s) bs of
        None \<Rightarrow> read_loop hs net payload bs s = (False, s') \<and>
          sess_router s' = mark_all_down hs bs (sess_router s)
      | Some (i, r) \<Rightarrow> read_loop hs net payload bs s = (True, send_client net (rawResponse r) s') \<and>
          sess_router s' = mark_all_down hs (take i bs) (sess_router s))"
  using assms(1)
proof (induction bs arbitrary: s)
  case (Cons b bs)
  let ?c = "conns net (attempts s) b"
  show ?case
  proof (cases "reachable ?c")
    case True
    obtain s1 s2 where c: "connectToBackend net b s = (True, s1)" "send_backend (port b) payload s1 = s2"
      "(if rparse_status (readBackendResponse s2) = COMPLETE then Some (response (readBackendResponse s2)) else None)
        = answer ?c payload"
      "idle fds (closeBackend s2)" "attempts (closeBackend s2) = Suc (attempts s)"
      "sess_router (closeBackend s2) = sess_router s"
      "client_log (closeBackend s2) = client_log s" "client_sends (closeBackend s2) = client_sends s"
      "\<And>d. closeBackend (send_client net d s2) = send_client net d (closeBackend s2)"
      using conversation[OF Cons.prems True, of payload] by blast
    show ?thesis
    proof (cases "rparse_status (readBackendResponse s2) = COMPLETE")
      case complete: True
      with c(3) have "answer ?c payload = Some (response (readBackendResponse s2))" by simp
      with c complete show ?thesis by (intro exI[of _ "closeBackend s2"]) (simp add: Let_def)
    next
      case incomplete: False
      with c(3) have none: "answer ?c payload = None" by simp
      have "idle fds (mark_down hs b (closeBackend s2))" using c(4) by simp
      from Cons.IH[OF this] c incomplete none show ?thesis
        by (fastforce simp: Let_def mark_down_def split: option.splits)
    qed
  next
    case False
    obtain s1 where c: "connectToBackend net b s = (False, s1)" "idle fds s1" "attempts s1 = Suc (attempts s)"
      "sess_router s1 = sess_router s" "client_log s1 = client_log s" "client_sends s1 = client_sends s"
      using connect_fails[OF Cons.prems assms(2) False] by blast
    have "idle fds (mark_down hs b s1)" using c(2) by simp
    from Cons.IH[OF this] c False show ?thesis
      by (fastforce simp: mark_down_def answer_def split: option.splits)
  qed
qed simp

subsection \<open>Invariants of a session\<close>

lemma router_inv_routers: "router_inv hs rt \<Longrightarrow> router_inv hs (routers hs net n bs rt)"
  by (induction bs arbitrary: n rt) (simp_all add: router_inv_mark)

lemma router_inv_mark_all: "router_inv hs rt \<Longrightarrow> router_inv hs (mark_all_down hs bs rt)"
  by (induction bs arbitrary: rt) (simp_all add: router_inv_mark)

text \<open>Between requests no backend connection is open and the router is well-formed.\<close>

definition sess_inv :: "hasher \<Rightarrow> int list \<Rightarrow> session \<Rightarrow> bool" where
  "sess_inv hs fds s \<longleftrightarrow> idle fds s \<and> router_inv hs (sess_router s)"

lemma sess_inv_write:
  assumes "sess_inv hs fds s" "posix_net net"
  shows "sess_inv hs fds (snd (handle_write hs net r bs s))"
  using write_loop_result[of fds s net hs "request_payload r" bs "[]" False] assms
  by (auto simp: handle_write_def sess_inv_def router_inv_routers)

lemma sess_inv_fetch:
  assumes "sess_inv hs fds s" "posix_net net"
  shows "sess_inv hs fds (snd (handle_fetch hs net r bs s))"
  using read_loop_result[OF _ assms(2), where hs = hs and payload = "rawRequest r" and bs = bs and s = s and fds = fds] assms
  by (auto simp: handle_fetch_def sess_inv_def router_inv_mark_all split: option.splits)

lemma sess_inv_request:
  assumes "sess_inv hs fds s" "posix_net net"
  shows "sess_inv hs fds (snd (handle_request hs net r s))"
  using assms sess_inv_write sess_inv_fetch
  by (auto simp: handle_request_def sess_inv_def split: sum.split)

lemma serve_buffer_cases:
  obtains (empty) "buffer = []" "serve_buffer hs net buffer s = (Goes_on, s, [])"
  | (incomplete) "buffer \<noteq> []" "parse_status (parseHTTPRequest buffer) = INCOMPLETE"
      "serve_buffer hs net buffer s = (Goes_on, s, buffer)"
  | (error) "buffer \<noteq> []" "parse_status (parseHTTPRequest buffer) = ERROR"
      "serve_buffer hs net buffer s = (Returns, s, buffer)"
  | (stop) v s1 where "buffer \<noteq> []" "parse_status (parseHTTPRequest buffer) = COMPLETE" "v \<noteq> Goes_on"
      "handle_request hs net (request (parseHTTPRequest buffer)) s = (v, s1)"
      "serve_buffer hs net buffer s = (v, s1, buffer)"
  | (loop) s1 where "buffer \<noteq> []" "parse_status (parseHTTPRequest buffer) = COMPLETE"
      "handle_request hs net (request (parseHTTPRequest buffer)) s = (Goes_on, s1)"
      "serve_buffer hs net buffer s =
         serve_buffer hs net (drop (consumed (parseHTTPRequest buffer)) buffer) s1"
proof -
  obtain v s1 where h: "handle_request hs net (request (parseHTTPRequest buffer)) s = (v, s1)"
    by (rule prod.exhaust)
  note eq = serve_buffer.simps[of hs net buffer s, unfolded Let_def h]
  show ?thesis
  proof (cases "buffer = []")
    case True
    then show ?thesis using eq empty by simp
  next
    case False
    then show ?thesis
      using eq incomplete error stop[OF _ _ _ h] loop h
      by (cases "parse_status (parseHTTPRequest buffer)"; cases v) simp_all
  qed
qed

text \<open>Any property a request preserves, a session preserves.\<close>

lemma serve_buffer_invariant:
  assumes step: "\<And>r s. P s \<Longrightarrow> P (snd (handle_request hs net r s))"
  shows "P s \<Longrightarrow> P (fst (snd (serve_buffer hs net buffer s)))"
proof (induction "length buffer" arbitrary: buffer s rule: less_induct)
  case less
  show ?case
  proof (cases hs net buffer s rule: serve_buffer_cases)
    case (stop v s1)
    with step[OF less.prems] show ?thesis by (metis fst_conv snd_conv)
  next
    case (loop s1)
    have "length (drop (consumed (parseHTTPRequest buffer)) buffer) < length buffer"
      using loop(1) parse_complete_bounds(1)[OF loop(2)] by (cases buffer) auto
    moreover have "P s1" using step[OF less.prems] loop(3) by (metis snd_conv)
    ultimately show ?thesis using less.hyps loop(4) by simp
  qed (use less.prems in simp_all)
qed

lemma serve_chunks_invariant:
  assumes step: "\<And>r s. P s \<Longrightarrow> P (snd (handle_request hs net r s))"
  shows "P s \<Longrightarrow> P (snd (serve_chunks hs net chunks buffer s))"
proof (induction chunks arbitrary: buffer s)
  case (Cons c cs)
  obtain v s1 b where sb: "serve_buffer hs net (buffer @ c) s = (v, s1, b)" by (metis prod_cases3)
  have "P s1" using serve_buffer_invariant[of P, OF step Cons.prems] sb by (metis fst_conv snd_conv)
  with Cons.IH Cons.prems sb show ?case by (cases v) auto
qed simp

lemma forward_invariant:
  assumes "sess_inv hs fds s" "posix_net net"
  shows "sess_inv hs fds (snd (forwardTraffic hs net chunks s))"
  unfolding forwardTraffic_def
  by (rule serve_chunks_invariant[of "sess_inv hs fds"]) (use assms sess_inv_request in blast)+

subsection \<open>How the client's bytes are cut\<close>

text \<open>What the buffer loop does with more bytes is what it does with the rest after the loop.\<close>

lemma serve_buffer_append:
  "serve_buffer hs net (buffer @ rest) s =
     (case serve_buffer hs net buffer s of
        (Goes_on, s1, b) \<Rightarrow> serve_buffer hs net (b @ rest) s1
      | (v, s1, b) \<Rightarrow> (v, s1, b @ rest))"
proof (induction "length buffer" arbitrary: buffer s rule: less_induct)
  case less
  show ?case
  proof (cases hs net buffer s rule: serve_buffer_cases)
    case error
    have "parseHTTPRequest (buffer @ rest) = parseHTTPRequest buffer" by (rule parse_append) (use error in simp)
    with error show ?thesis by (simp add: serve_buffer.simps[of hs net "buffer @ rest"])
  next
    case (stop v s1)
    have "parseHTTPRequest (buffer @ rest) = parseHTTPRequest buffer" by (rule parse_append) (use stop in simp)
    with stop show ?thesis by (cases v) (simp_all add: serve_buffer.simps[of hs net "buffer @ rest"])
  next
    case (loop s1)
    let ?n = "consumed (parseHTTPRequest buffer)"
    have p: "parseHTTPRequest (buffer @ rest) = parseHTTPRequest buffer" by (rule parse_append) (use loop in simp)
    have n: "4 \<le> ?n" "?n \<le> length buffer" using parse_complete_bounds[OF loop(2)] by simp_all
    have "serve_buffer hs net (buffer @ rest) s = serve_buffer hs net (drop ?n buffer @ rest) s1"
      using loop p n by (simp add: serve_buffer.simps[of hs net "buffer @ rest"])
    also have "\<dots> = (case serve_buffer hs net (drop ?n buffer) s1 of
        (Goes_on, s1, b) \<Rightarrow> serve_buffer hs net (b @ rest) s1
      | (v, s1, b) \<Rightarrow> (v, s1, b @ rest))"
      by (rule less.hyps) (use n loop(1) in \<open>cases buffer; simp\<close>)
    finally show ?thesis using loop(4) by simp
  qed simp_all
qed

text \<open>A buffer without a complete request.\<close>

definition waiting :: "string \<Rightarrow> bool" where
  "waiting buffer \<longleftrightarrow> buffer = [] \<or> parse_status (parseHTTPRequest buffer) = INCOMPLETE"

lemma waiting_Nil [simp]: "waiting []"
  by (simp add: waiting_def)

lemma serve_waiting: "waiting buffer \<Longrightarrow> serve_buffer hs net buffer s = (Goes_on, s, buffer)"
  by (auto simp: waiting_def serve_buffer.simps[of hs net buffer s])

lemma serve_buffer_waits: "serve_buffer hs net buffer s = (Goes_on, s1, b) \<Longrightarrow> waiting b"
proof (induction "length buffer" arbitrary: buffer s rule: less_induct)
  case less
  show ?case
  proof (cases hs net buffer s rule: serve_buffer_cases)
    case (loop s2)
    have "length (drop (consumed (parseHTTPRequest buffer)) buffer) < length buffer"
      using loop(1) parse_complete_bounds(1)[OF loop(2)] by (cases buffer) auto
    from less.hyps[OF this] loop(4) less.prems show ?thesis by metis
  qed (use less.prems in \<open>auto simp: waiting_def\<close>)
qed

lemma serve_chunks_flat:
  assumes "[] \<notin> set chunks" "waiting buffer"
  shows "serve_chunks hs net chunks buffer s =
    (case serve_buffer hs net (buffer @ concat chunks) s of (v, s1, b) \<Rightarrow> (v, s1))"
  using assms
proof (induction chunks arbitrary: buffer s)
  case Nil
  then show ?case by (simp add: serve_waiting)
next
  case (Cons c cs)
  obtain v s1 b where sb: "serve_buffer hs net (buffer @ c) s = (v, s1, b)" by (metis prod_cases3)
  have "serve_buffer hs net (buffer @ concat (c # cs)) s =
     (case v of Goes_on \<Rightarrow> serve_buffer hs net (b @ concat cs) s1 | _ \<Rightarrow> (v, s1, b @ concat cs))"
    using serve_buffer_append[of hs net "buffer @ c" "concat cs" s] sb by (cases v) simp_all
  with Cons.IH[of b s1] Cons.prems sb serve_buffer_waits[of hs net "buffer @ c" s s1 b]
  show ?case by (cases v) auto
qed

text \<open>A request that is alone in what the client sends.\<close>

lemma forward_single:
  assumes "parseHTTPRequest raw = makeComplete r (length raw)" "raw \<noteq> []"
  shows "forwardTraffic hs net [raw] s = handle_request hs net r s"
  using assms
  by (auto simp: forwardTraffic_def serve_buffer.simps[of hs net raw] serve_waiting
      split: prod.split verdict.splits)

subsection \<open>The payload of a write\<close>

lemma replication_header_line:
  "number_after ''Content-Length:'' ''X-Internal-Replication: true'' = None"
  "number_after ''content-length:'' ''X-Internal-Replication: true'' = None"
  by (simp_all add: number_after_None)

lemma put_payload:
  assumes "parseHTTPRequest raw = makeComplete r (length raw)" "req_method r = ''PUT''"
  obtains line rest where "rawRequest r = line @ CRLF @ rest"
    "request_payload r = line @ CRLF @ replication_header @ rest"
    "parseHTTPRequest (request_payload r) =
       makeComplete (r\<lparr>rawRequest := request_payload r\<rparr>) (length (request_payload r))"
proof -
  have c: "parse_status (parseHTTPRequest raw) = COMPLETE" using assms(1) by simp
  have raw: "rawRequest r = raw" using parse_complete_bounds(3)[OF c] assms(1) by simp
  obtain he where "str_find (CRLF @ CRLF) raw = Some he" "parse_head (take he raw) \<noteq> Inl ''Malformed HTTP Request Line''"
    using assms(1) by (cases raw rule: parse_cases) (auto simp: makeComplete_def makeIncomplete_def makeError_def)
  then obtain le where "str_find CRLF (take he raw) = Some le"
    by (auto simp: parse_head_def split: option.splits)
  then have le: "str_find CRLF raw = Some le"
    using str_find_append[of CRLF "take he raw" le "drop he raw"] by simp
  let ?x = "''X-Internal-Replication: true''"
  have p: "request_payload r = take (le + 2) raw @ ?x @ CRLF @ drop (le + 2) raw"
    using assms(2) le raw by (simp add: request_payload_def replication_header_def)
  show ?thesis
  proof (rule that[of "take le raw" "drop (le + 2) raw"])
    show eq: "rawRequest r = take le raw @ CRLF @ drop (le + 2) raw"
      using str_find_split[OF le] raw by simp
    have "take (le + 2) raw = take le raw @ CRLF"
      using str_find_split[OF le] str_find_bound[OF le] raw
      by (metis add_diff_cancel_left' append_eq_conv_conj append_take_drop_id diff_add_inverse2 length_Cons list.size(3) numeral_2_eq_2 take_add take_drop eq)
    then show "request_payload r = take le raw @ CRLF @ replication_header @ drop (le + 2) raw"
      by (simp add: p replication_header_def)
    show "parseHTTPRequest (request_payload r) =
       makeComplete (r\<lparr>rawRequest := request_payload r\<rparr>) (length (request_payload r))"
      unfolding p by (rule parse_insert_line[OF assms(1) le]) (simp_all add: number_after_None)
  qed
qed

subsection \<open>Reading a response\<close>

lemma read_response_sized:
  assumes "[] \<notin> set cs" "sized_response (buffer @ concat cs)"
  shows "read_response buffer cs =
    (let r = parseHTTPResponse (buffer @ concat cs)
     in if rparse_status r = COMPLETE then r else r\<lparr>rparse_status := ERROR, rparse_error := closed_msg\<rparr>)"
  using assms
proof (induction cs arbitrary: buffer)
  case Nil
  have "rparse_status (parseHTTPResponse buffer) \<noteq> ERROR"
    by (auto simp: parse_response_by_head Let_def split: option.split prod.split)
  then show ?case by (simp add: Let_def)
next
  case (Cons c cs)
  have "rparse_status (parseHTTPResponse buffer) \<noteq> ERROR"
    by (auto simp: parse_response_by_head Let_def split: option.split prod.split)
  moreover have "c \<noteq> []" using Cons.prems(1) by auto
  ultimately show ?case
    using Cons parse_response_append[of buffer "concat (c # cs)"] by (simp add: Let_def)
qed

subsection \<open>No backend left\<close>

lemma all_down_ring_empty:
  assumes "router_inv hs rt" "\<forall>(p, b) \<in> set (backends rt). status b = DOWN"
  shows "ring_empty (router_ring rt)"
proof -
  have "live_ids rt = {}" using assms(2) by (auto simp: live_ids_def)
  then show ?thesis using router_inv_owners[OF assms(1)] by (simp add: ring_empty_owners)
qed

lemma ring_empty_throws:
  "ring_empty (router_ring (sess_router s)) \<Longrightarrow>
   handle_request hs net r s = (Throws (Runtime_error empty_ring_msg), s)"
  by (simp add: handle_request_def getWriteBackendsForKey_def getReadBackendsForKey_def)

lemma parse_err_resp:
  obtains r where "statusCode r = 503"
    "parseHTTPResponse (err_resp @ rest) = full_response (err_resp @ rest) 52 r 21 77"
proof -
  let ?h = "''HTTP/1.1 503 Service Unavailable'' @ CRLF @ ''Content-Length: 21''"
  have "str_find (CRLF @ CRLF) err_resp = Some 52" by (simp add: err_resp_def)
  then have f: "str_find (CRLF @ CRLF) (err_resp @ rest) = Some 52" by (rule str_find_append)
  have t: "take 52 (err_resp @ rest) = ?h" and len: "length err_resp = 79"
    by (simp_all add: err_resp_def)
  have h: "snd (response_head ?h) = (21, True)" and code: "statusCode (fst (response_head ?h)) = 503"
    by code_simp+
  from h have p: "response_head ?h = (fst (response_head ?h), 21, True)" by (metis prod.collapse)
  have "parseHTTPResponse (err_resp @ rest) = full_response (err_resp @ rest) 52 (fst (response_head ?h)) 21 77"
    unfolding parse_response_by_head f option.case t by (subst p) (simp add: Let_def len)
  with code that show ?thesis by blast
qed

subsection \<open>An instance\<close>

text \<open>A network on which 9002 cannot be reached and every other backend answers at once.\<close>

definition demo_net :: net where
  "demo_net =
     \<lparr>conns = (\<lambda>n b. \<lparr>sock_result = 5, connect_result = (if port b = 9002 then -1 else 0),
                     backend_send = int, backend_recv = (\<lambda>_. [demo_response])\<rparr>),
      client_send = (\<lambda>_. int)\<rparr>"

definition demo_session :: session where
  "demo_session = ProxySession demo_router"

lemma demo_posix: "posix_net demo_net"
  by (simp add: posix_net_def demo_net_def)

lemma demo_sess_inv: "sess_inv demo_hash [] demo_session"
  by (simp add: sess_inv_def demo_session_def demo_router_inv) (simp add: ProxySession_def demo_router_inv)

lemma demo_sess_router [simp]: "sess_router demo_session = demo_router"
  by (simp add: demo_session_def ProxySession_def)

definition demo_put_raw :: string where
  "demo_put_raw = ''PUT /kvstore/k_1 HTTP/1.1'' @ CRLF @ ''Host: lb'' @ CRLF @ CRLF"

definition demo_write :: HttpRequest where
  "demo_write = \<lparr>req_method = ''PUT'', req_path = ''/kvstore/k_1'', req_version = ''HTTP/1.1'',
     req_headers = Map.empty, req_body = [], rawRequest = demo_put_raw\<rparr>"

lemma demo_write_fields:
  "req_method demo_write = ''PUT''"
  "parseHTTPRequest demo_put_raw = makeComplete demo_write (length demo_put_raw)"
proof -
  have f: "str_find (CRLF @ CRLF) demo_put_raw = Some 35" by (simp add: demo_put_raw_def)
  have h: "parse_head (take 35 demo_put_raw) = Inr (''PUT'', ''/kvstore/k_1'', ''HTTP/1.1'', 0)"
    by code_simp
  have n: "length demo_put_raw = 39" by (simp add: demo_put_raw_def)
  show "parseHTTPRequest demo_put_raw = makeComplete demo_write (length demo_put_raw)"
    unfolding parse_by_head f option.case h by (simp add: n demo_write_def)
qed (simp add: demo_write_def)

subsection \<open>Properties\<close>

text \<open>
  C3. What a session does depends on the bytes the client sends, not on how TCP cuts them into
  reads: two ways of cutting the same bytes give the same verdict, the same bytes to the backends
  and to the client, and the same router. Pipelined requests are covered.
\<close>

theorem segmentation_independent:
  assumes "[] \<notin> set xs" "[] \<notin> set ys" "concat xs = concat ys"
  shows "forwardTraffic hs net xs s = forwardTraffic hs net ys s"
  using serve_chunks_flat[OF assms(1) waiting_Nil] serve_chunks_flat[OF assms(2) waiting_Nil] assms(3)
  by (simp add: forwardTraffic_def)

lemma segmentation_independent_witness:
  "forwardTraffic demo_hash demo_net [''GET /k'', '' HTTP/1.1''] demo_session =
   forwardTraffic demo_hash demo_net [''G'', ''ET /k HTTP/1.1''] demo_session"
  by (rule segmentation_independent) simp_all

text \<open>
  After any client traffic, including failures of every kind, no backend connection is left
  open and no descriptor leaked, so no connection to one backend is ever reused for another, and
  the router is still well-formed.
\<close>

theorem session_keeps_invariant:
  assumes "router_inv hs rt" "posix_net net"
  shows "backendSocket (snd (forwardTraffic hs net chunks (ProxySession rt))) = -1 \<and>
    open_fds (snd (forwardTraffic hs net chunks (ProxySession rt))) = [] \<and>
    router_inv hs (sess_router (snd (forwardTraffic hs net chunks (ProxySession rt))))"
proof -
  have "sess_inv hs [] (ProxySession rt)"
    using assms(1) by (simp add: sess_inv_def) (simp add: ProxySession_def)
  from forward_invariant[OF this assms(2), of chunks] show ?thesis by (simp add: sess_inv_def idle_def)
qed

lemma session_keeps_invariant_witness:
  "open_fds (snd (forwardTraffic demo_hash demo_net [demo_request, demo_request] (ProxySession demo_router))) = []"
  using session_keeps_invariant[OF demo_router_inv demo_posix] by blast

text \<open>
  C4. A write with at least one candidate: the payload goes to every candidate that can be reached,
  in ring order; every candidate that cannot be reached is marked DOWN, and no other; the client
  gets the chosen reply, or the 503 if no backend gave a complete one; the session goes on.
\<close>

theorem write_is_replicated:
  assumes "sess_inv hs fds s" "posix_net net" "is_write r"
    and "getWriteBackendsForKey hs (sess_router s) (getKey r) 2 = Inr bs" "bs \<noteq> []"
  shows "\<exists>s'. handle_request hs net r s = (Goes_on, s') \<and>
    backend_log s' = backend_log s @ deliveries net (request_payload r) (attempts s) bs \<and>
    sess_router s' = routers hs net (attempts s) bs (sess_router s) \<and>
    client_log s' = client_log s @ snd (sendAll (client_send net (client_sends s))
      (let rs = replies net (request_payload r) (attempts s) bs in if rs = [] then err_resp else pick [] rs) 0)"
proof -
  have "idle fds s" using assms(1) by (simp add: sess_inv_def)
  from write_loop_result[OF this assms(2), of hs "request_payload r" bs "[]" False] assms(3-5) show ?thesis
    by (auto simp: handle_request_def handle_write_def Let_def)
qed

lemma write_is_replicated_witness:
  "\<exists>bs s'. bs \<noteq> [] \<and> handle_request demo_hash demo_net demo_write demo_session = (Goes_on, s') \<and>
     backend_log s' = backend_log demo_session @ deliveries demo_net (request_payload demo_write) (attempts demo_session) bs"
proof -
  have "\<not> ring_empty (router_ring (sess_router demo_session))"
    by (simp add: demo_router_ring ring_empty_def demo_ring_value)
  then obtain bs where "getWriteBackendsForKey demo_hash (sess_router demo_session) (getKey demo_write) 2 = Inr bs" "bs \<noteq> []"
    using write_backends_exist[OF demo_router_inv, of 2 "getKey demo_write"] by auto
  from write_is_replicated[OF demo_sess_inv demo_posix _ this] this(2) demo_write_fields(1) show ?thesis
    by (auto simp: is_write_def)
qed

text \<open>
  The reply to a write: if some replica answered 200 or 201, the last such answer; otherwise the
  first complete answer. So a client is told of success even if the other replica refused.
\<close>

theorem write_reply_choice:
  assumes "rs \<noteq> []" "\<forall>r \<in> set rs. rawResponse r \<noteq> []"
  shows "pick [] rs = rawResponse (if \<exists>r \<in> set rs. is_success r then last (filter is_success rs) else hd rs)"
  using pick_success[of rs "[]"] pick_failure[of rs] assms by auto

lemma write_reply_choice_witness:
  "pick [] [empty_response\<lparr>statusCode := 201, rawResponse := ''ok''\<rparr>, empty_response\<lparr>statusCode := 500, rawResponse := ''no''\<rparr>] = ''ok''"
  using write_reply_choice[of "[empty_response\<lparr>statusCode := 201, rawResponse := ''ok''\<rparr>, empty_response\<lparr>statusCode := 500, rawResponse := ''no''\<rparr>]"]
  by (simp add: is_success_def)

text \<open>
  The payload of a PUT is the client's request with the replication header inserted after the
  request line; it parses to the same request, so the replicas see the same method, path and body.
\<close>

theorem put_carries_replication_header:
  assumes "parseHTTPRequest raw = makeComplete r (length raw)" "req_method r = ''PUT''"
  shows "\<exists>line rest. rawRequest r = line @ CRLF @ rest \<and>
    request_payload r = line @ CRLF @ replication_header @ rest \<and>
    parseHTTPRequest (request_payload r) =
      makeComplete (r\<lparr>rawRequest := request_payload r\<rparr>) (length (request_payload r))"
  using put_payload[OF assms] by metis

lemma put_carries_replication_header_witness:
  "parseHTTPRequest (request_payload demo_write) =
     makeComplete (demo_write\<lparr>rawRequest := request_payload demo_write\<rparr>) (length (request_payload demo_write))"
  using put_carries_replication_header[OF demo_write_fields(2,1)] by blast

text \<open>
  C32. A read tries its candidates in ring order: the client gets the first complete response, and
  exactly the candidates before it are marked DOWN; if there is none, all of them are marked DOWN,
  the client gets the 503 and the session ends.
\<close>

theorem read_fails_over:
  assumes "sess_inv hs fds s" "posix_net net" "\<not> is_write r"
    and "getReadBackendsForKey hs (sess_router s) (getKey r) 2 = Inr bs" "bs \<noteq> []"
  shows "\<exists>s'. (case first_answer net (rawRequest r) (attempts s) bs of
      Some (i, resp) \<Rightarrow> handle_request hs net r s = (Goes_on, s') \<and>
        sess_router s' = mark_all_down hs (take i bs) (sess_router s) \<and>
        client_log s' = client_log s @ snd (sendAll (client_send net (client_sends s)) (rawResponse resp) 0)
    | None \<Rightarrow> handle_request hs net r s = (Returns, s') \<and>
        sess_router s' = mark_all_down hs bs (sess_router s) \<and>
        client_log s' = client_log s @ snd (sendAll (client_send net (client_sends s)) err_resp 0))"
proof -
  have "idle fds s" using assms(1) by (simp add: sess_inv_def)
  from read_loop_result[OF this assms(2), where hs = hs and payload = "rawRequest r" and bs = bs]
  obtain s' where s': "client_sends s' = client_sends s" "client_log s' = client_log s"
    "case first_answer net (rawRequest r) (attempts s) bs of
        None \<Rightarrow> read_loop hs net (rawRequest r) bs s = (False, s') \<and>
          sess_router s' = mark_all_down hs bs (sess_router s)
      | Some (i, resp) \<Rightarrow> read_loop hs net (rawRequest r) bs s = (True, send_client net (rawResponse resp) s') \<and>
          sess_router s' = mark_all_down hs (take i bs) (sess_router s)"
    by blast
  have h: "handle_request hs net r s = handle_fetch hs net r bs s"
    using assms(3-5) by (simp add: handle_request_def)
  show ?thesis
  proof (cases "first_answer net (rawRequest r) (attempts s) bs")
    case None
    with s' show ?thesis
      by (intro exI[of _ "send_client net err_resp s'"]) (simp add: h handle_fetch_def)
  next
    case (Some p)
    with s' show ?thesis
      by (cases p, intro exI[of _ "send_client net (rawResponse (snd p)) s'"]) (simp add: h handle_fetch_def)
  qed
qed

lemma read_fails_over_witness:
  "\<exists>v s'. handle_request demo_hash demo_net (request (parseHTTPRequest demo_request)) demo_session = (v, s') \<and> v \<in> {Goes_on, Returns}"
proof -
  have "\<not> is_write (request (parseHTTPRequest demo_request))" by code_simp
  moreover obtain bs where "getReadBackendsForKey demo_hash (sess_router demo_session) (getKey (request (parseHTTPRequest demo_request))) 2 = Inr bs" "bs \<noteq> []"
    unfolding demo_sess_router by (rule demo_read_backends)
  ultimately show ?thesis
    using read_fails_over[OF demo_sess_inv demo_posix] by (fastforce split: option.splits prod.splits)
qed

text \<open>
  Reading a backend's response does not depend on how it is cut into reads, if its head declares
  a length: the result is the parse of all the bytes, an error if they end too early.
\<close>

theorem response_segmentation_independent:
  assumes "[] \<notin> set cs" "sized_response (concat cs)"
  shows "read_response [] cs =
    (let r = parseHTTPResponse (concat cs)
     in if rparse_status r = COMPLETE then r else r\<lparr>rparse_status := ERROR, rparse_error := closed_msg\<rparr>)"
  using read_response_sized[OF assms(1), of "[]"] assms(2) by simp

lemma response_segmentation_independent_witness:
  "read_response [] [take 40 demo_response, drop 40 demo_response] = parseHTTPResponse demo_response"
proof -
  have c: "concat [take 40 demo_response, drop 40 demo_response] = demo_response" by simp
  have ne: "[] \<notin> set [take 40 demo_response, drop 40 demo_response]" by (simp add: demo_response_def)
  have "rparse_status (parseHTTPResponse demo_response) = COMPLETE" by code_simp
  with response_segmentation_independent[OF ne] show ?thesis by (simp only: c demo_response_sized Let_def if_True simp_thms)
qed

text \<open>
  When every backend is DOWN no request is answered: the lookup throws, nothing in the session
  catches the exception, and the process is terminated, although the client should get a 503.
\<close>

theorem all_down_throws:
  assumes "router_inv hs (sess_router s)" "\<forall>(p, b) \<in> set (backends (sess_router s)). status b = DOWN"
  shows "handle_request hs net r s = (Throws (Runtime_error empty_ring_msg), s)"
  by (rule ring_empty_throws) (rule all_down_ring_empty[OF assms])

lemma all_down_throws_witness:
  "handle_request demo_hash demo_net demo_write
     (ProxySession (fold (run_mark demo_hash) [Mark_down 9001, Mark_down 9002, Mark_down 9003] demo_router)) =
   (Throws (Runtime_error empty_ring_msg),
    ProxySession (fold (run_mark demo_hash) [Mark_down 9001, Mark_down 9002, Mark_down 9003] demo_router))"
proof (rule all_down_throws)
  let ?rt = "fold (run_mark demo_hash) [Mark_down 9001, Mark_down 9002, Mark_down 9003] demo_router"
  show inv: "router_inv demo_hash (sess_router (ProxySession ?rt))"
    unfolding ProxySession_def session.simps by (rule router_inv_run[OF demo_router_inv])
  have "\<forall>(p, b) \<in> set (backends ?rt). status b = DOWN"
    by (simp add: demo_router_def markBackendDown_def Let_def demo_backend_def)
  then show "\<forall>(p, b) \<in> set (backends (sess_router (ProxySession ?rt))). status b = DOWN"
    unfolding ProxySession_def session.simps .
qed

text \<open>
  C33. The 503 the proxy sends is framed wrongly: it declares 21 bytes but its body has 23, so the
  last two bytes stay in the client's buffer in front of the next response on the connection.
\<close>

theorem err_resp_misframed:
  "\<exists>r. parseHTTPResponse (err_resp @ next_response) = full_response (err_resp @ next_response) 52 r 21 77 \<and>
     statusCode r = 503 \<and> drop 77 (err_resp @ next_response) = ''le'' @ next_response"
proof -
  have "drop 77 (err_resp @ next_response) = ''le'' @ next_response" by (simp add: err_resp_def)
  with parse_err_resp[of next_response] show ?thesis by metis
qed

text \<open>
  Sending: what a socket has taken is always a prefix of the data, all of it if \<open>sendAll\<close>
  returns true, and that it does if every \<open>send\<close> takes at least one byte.
\<close>

theorem sendAll_delivers:
  "prefix (snd (sendAll tx data 0)) data \<and> (fst (sendAll tx data 0) \<longrightarrow> snd (sendAll tx data 0) = data) \<and>
   ((\<forall>k > 0. 0 < tx k) \<longrightarrow> sendAll tx data 0 = (True, data))"
  using sendAll_prefix[of tx data 0] sendAll_complete[of tx data 0] by (metis drop0 prod.collapse)

lemma sendAll_delivers_witness: "sendAll (\<lambda>k. 1) ''abc'' 0 = (True, ''abc'')"
  using sendAll_delivers[of "\<lambda>k. 1" "''abc''"] by simp

end
