(* ===== verification/Cluster.thy ===== *)
theory Cluster
  imports HealthChecker ProxySession
begin

text \<open>
  The key-value servers behind the load balancer as one world: a server per port, reached by the
  HTTP calls of the recovery and the health checker, and a set of ports whose server runs. The
  servers satisfy the contract \<open>kv_nodes\<close> of the recovery, so the recovery's lemmas describe the
  tables of real servers. The last part connects the key the load balancer routes by with the key
  the server stores under.
\<close>

subsection \<open>The servers as the world of the HTTP client\<close>

definition client_request :: "string \<Rightarrow> string \<Rightarrow> string \<Rightarrow> Request" where
  "client_request m path body =
     new_request\<lparr>rq_method := m, rq_path := path, rq_body := body\<rparr>"

definition cluster_call ::
  "'db server_env \<Rightarrow> int set \<Rightarrow> backend \<Rightarrow> Request \<Rightarrow> (int \<Rightarrow> 'db server) \<Rightarrow> (int \<times> string) option \<times> (int \<Rightarrow> 'db server)" where
  "cluster_call env alive b req w =
     (if port b \<in> alive
      then (case serve env (w (port b)) req of
              None \<Rightarrow> (None, w)
            | Some (s, res) \<Rightarrow> (Some (res_status res, res_body res), w(port b := s)))
      else (None, w))"

definition cluster_http :: "'db server_env \<Rightarrow> int set \<Rightarrow> (int \<Rightarrow> 'db server) http" where
  "cluster_http env alive =
     \<lparr>http_get = (\<lambda>b path. cluster_call env alive b (client_request ''GET'' path [])),
      http_post = (\<lambda>b path body. cluster_call env alive b (client_request ''POST'' path body))\<rparr>"

definition tables :: "('db \<Rightarrow> string \<rightharpoonup> string) \<Rightarrow> (int \<Rightarrow> 'db server) \<Rightarrow> int \<Rightarrow> string \<rightharpoonup> string" where
  "tables rows w p = rows (srv_db (w p))"

definition cluster_ok :: "('db \<Rightarrow> string \<rightharpoonup> string) \<Rightarrow> (int \<Rightarrow> 'db server) \<Rightarrow> bool" where
  "cluster_ok rows w \<longleftrightarrow> (\<forall>p. server_ok rows (w p))"

lemma tables_upd: "tables rows (w(p := s)) = (tables rows w)(p := rows (srv_db s))"
  by (auto simp: tables_def)

lemma cluster_ok_upd: "cluster_ok rows w \<Longrightarrow> server_ok rows s \<Longrightarrow> cluster_ok rows (w(p := s))"
  by (simp add: cluster_ok_def)

text \<open>A call of a running server whose database is up has the effect of the abstract store.\<close>

lemma cluster_call_spec:
  assumes "pg_table env rows" "pg_up env" "cluster_ok rows w" "port b \<in> alive"
    and "find_route routes (rq_method req) (rq_path req) = Some (h, ms)"
  obtains w' code body where "cluster_call env alive b req w = (Some (code, body), w')" "cluster_ok rows w'"
    "kv_spec h (req\<lparr>rq_matches := ms\<rparr>) (tables rows w (port b)) (tables rows w' (port b)) code body"
    "tables rows w' = (tables rows w)(port b := tables rows w' (port b))"
proof -
  have "server_ok rows (w (port b))" using assms(3) by (simp add: cluster_ok_def)
  from run_handler_ok[OF assms(1) this, of h "req\<lparr>rq_matches := ms\<rparr>"] assms(2) obtain s res where
    "run_handler h env (w (port b)) (req\<lparr>rq_matches := ms\<rparr>) = Some (s, res)" "server_ok rows s"
    "kv_spec h (req\<lparr>rq_matches := ms\<rparr>) (rows (srv_db (w (port b)))) (rows (srv_db s)) (res_status res) (res_body res)"
    by (auto simp: handled_def split: option.splits)
  with that assms(3-5) show ?thesis
    by (auto simp: cluster_call_def serve_def tables_upd tables_def[of rows w "port b"] cluster_ok_upd)
qed

lemma client_request_simps [simp]:
  "rq_method (client_request m p b) = m" "rq_path (client_request m p b) = p"
  "rq_body (client_request m p b\<lparr>rq_matches := ms\<rparr>) = b"
  by (simp_all add: client_request_def)

lemma cluster_nodes:
  assumes pg: "pg_table env rows" and up: "pg_up env"
  shows "kv_nodes (cluster_http env alive) (tables rows) (cluster_ok rows) (\<lambda>p. p \<in> alive)"
proof (unfold_locales, goal_cases)
  case (1 w b)
  let ?r = "client_request ''GET'' ''/kvstore/allkeys'' []"
  have "find_route routes (rq_method ?r) (rq_path ?r) = Some (All_keys, [''/kvstore/allkeys''])"
    using find_route_word(4)[of "''k''"] by (simp add: is_word_def)
  then obtain w' code body where c: "cluster_call env alive b ?r w = (Some (code, body), w')" "cluster_ok rows w'"
    "kv_spec All_keys (?r\<lparr>rq_matches := [''/kvstore/allkeys'']\<rparr>)
       (tables rows w (port b)) (tables rows w' (port b)) code body"
    "tables rows w' = (tables rows w)(port b := tables rows w' (port b))"
    by (rule cluster_call_spec[OF pg up 1])
  then have "tables rows w' = tables rows w" by simp
  with c show ?case by (auto simp: cluster_http_def)
next
  case (2 w b k)
  let ?r = "client_request ''GET'' (''/kvstore/'' @ k) []"
  have "find_route routes (rq_method ?r) (rq_path ?r) = Some (Read, [''/kvstore/'' @ k, k])"
    using 2(3) find_route_word(3)[of k] by (simp add: route_key_def)
  then obtain w' code body where c: "cluster_call env alive b ?r w = (Some (code, body), w')" "cluster_ok rows w'"
    "kv_spec Read (?r\<lparr>rq_matches := [''/kvstore/'' @ k, k]\<rparr>) (tables rows w (port b)) (tables rows w' (port b)) code body"
    "tables rows w' = (tables rows w)(port b := tables rows w' (port b))"
    by (rule cluster_call_spec[OF pg up 2(1,2)])
  then have "tables rows w' = tables rows w" by simp
  with c show ?case by (auto simp: cluster_http_def split: option.splits)
next
  case (3 w b k v)
  let ?r = "client_request ''POST'' (''/kvstore/sync/'' @ k) v"
  have "find_route routes (rq_method ?r) (rq_path ?r) = Some (Sync, [''/kvstore/sync/'' @ k, k])"
    using 3(3) find_route_word(5)[of k] by (simp add: route_key_def)
  then obtain w' code body where c: "cluster_call env alive b ?r w = (Some (code, body), w')" "cluster_ok rows w'"
    "kv_spec Sync (?r\<lparr>rq_matches := [''/kvstore/sync/'' @ k, k]\<rparr>) (tables rows w (port b)) (tables rows w' (port b)) code body"
    "tables rows w' = (tables rows w)(port b := tables rows w' (port b))"
    by (rule cluster_call_spec[OF pg up 3(1,2)])
  then show ?case by (auto simp: cluster_http_def)
qed

interpretation mem: kv_nodes "cluster_http mem_pg alive" "tables map_of" "cluster_ok map_of" "\<lambda>p. p \<in> alive"
  for alive
  by (rule cluster_nodes[OF mem_pg_table mem_pg_up])

lemmas cluster_recover_ok = kv_nodes.recover_ok[OF cluster_nodes]

subsection \<open>Recovery of a server\<close>

text \<open>Every backend that is not DOWN has a running server.\<close>

definition live_run :: "router \<Rightarrow> int set \<Rightarrow> bool" where
  "live_run rt alive \<longleftrightarrow> (\<forall>p b. map_of (backends rt) p = Some b \<and> status b \<noteq> DOWN \<longrightarrow> p \<in> alive)"

lemma selected_alive:
  assumes "router_inv hs rt" "live_run rt alive" "r \<in> set (getNodes hs (router_ring rt) k n)"
  shows "port r \<in> alive"
proof -
  obtain b where "map_of (backends rt) (port r) = Some b" "status b \<noteq> DOWN"
    by (rule selected_backend[OF assms(1,3)])
  with assms(2) show ?thesis by (simp add: live_run_def)
qed

lemma online_alive:
  assumes "router_inv hs rt" "live_run rt alive" "n \<in> set (getOnlineBackends rt)"
  shows "port n \<in> alive"
proof -
  obtain p where p: "(p, n) \<in> set (backends rt)" "status n = UP"
    using assms(3) set_online_loop[of "backends rt"] by (auto simp: getOnlineBackends_def)
  then have "map_of (backends rt) p = Some n"
    using map_of_set_conv[OF router_inv_distinct[OF assms(1)]] by blast
  with p assms(2) router_inv_port[OF assms(1)] show ?thesis by (auto simp: live_run_def)
qed

lemma recovery_tables:
  assumes "pg_table env rows" "pg_up env" "cluster_ok rows w"
    and "router_inv hs rt" "live_run rt alive" "map_of (backends rt) (port b) = Some c" "status c = RECOVERING"
    and "\<not> ring_empty (router_ring rt)" "\<forall>k \<in> peer_keys rt b (tables rows w). route_key k"
  shows "\<exists>w'. recover hs (cluster_http env alive) rt b w = Inr w' \<and> cluster_ok rows w' \<and>
    tables rows w' = (tables rows w)(port b := recovered_table hs rt b (peer_keys rt b (tables rows w)) (tables rows w))"
proof (rule cluster_recover_ok[OF assms(1-3)])
  show "port b \<in> alive" using assms(5-7) by (auto simp: live_run_def)
  show "\<forall>k. \<forall>r \<in> set (getNodes hs (router_ring rt) k 2). port r \<in> alive"
    using selected_alive[OF assms(4,5)] by blast
  show "\<forall>n \<in> set (getOnlineBackends rt). port n \<noteq> port b \<longrightarrow> port n \<in> alive"
    using online_alive[OF assms(4,5)] by blast
qed (use assms(8,9) in simp_all)

text \<open>The first value of a list of replicas of which only one, other than \<open>b\<close>, has one.\<close>

lemma first_value_only:
  assumes only: "\<forall>q \<in> set rs. port q = port b \<or> port q = p"
    and p: "p \<in> port ` set rs" "p \<noteq> port b" "T p k = Some v" "v \<noteq> []"
  shows "first_value T b k rs = v"
  using only p(1)
proof (induction rs)
  case (Cons q rs)
  show ?case
  proof (cases "port q = port b")
    case True
    with Cons p(2) show ?thesis by simp
  next
    case False
    with Cons.prems(1) have "port q = p" by simp
    with False p(3,4) show ?thesis by simp
  qed
qed simp

lemma two_ports:
  assumes "length rs \<le> 2" "r \<in> set rs" "q \<in> set rs" "b \<in> port ` set rs" "port r \<noteq> b" "port q \<noteq> b"
  shows "port q = port r"
  using assms by (cases rs; cases "tl rs") (auto simp: Suc_le_eq)

subsection \<open>The recovery during a pass of the health checker\<close>

definition demo_servers :: "int \<Rightarrow> (string \<times> string) list server" where
  "demo_servers p = start_server [] (if p = 9001 then [(''k_1'', ''v'')] else [])"

lemma demo_cluster_ok: "cluster_ok map_of demo_servers"
  by (simp add: cluster_ok_def demo_servers_def server_ok_start)

definition demo_recovering :: router where
  "demo_recovering = markBackendRecovering demo_hash 9003 (markBackendDown demo_hash 9003 demo_router)"

lemma demo_recovering_inv: "router_inv demo_hash demo_recovering"
  by (simp add: demo_recovering_def router_inv_mark demo_router_inv)

lemma demo_router_backends:
  "backends demo_router = [(9001, demo_backend 9001 UP), (9002, demo_backend 9002 UP), (9003, demo_backend 9003 UP)]"
  by (simp add: demo_router_def demo_backend_def)

lemma demo_recovering_backends:
  "backends demo_recovering =
     [(9001, demo_backend 9001 UP), (9002, demo_backend 9002 UP), (9003, demo_backend 9003 RECOVERING)]"
  by (simp add: demo_recovering_def markBackendRecovering_def markBackendDown_def Let_def demo_router_backends)
     (simp add: demo_backend_def)

lemma demo_recovering_live: "live_run demo_recovering {9001, 9002, 9003}"
  by (auto simp: live_run_def demo_recovering_backends split: if_splits)

lemma demo_recovering_ring:
  "ring (router_ring demo_recovering) =
     [(100, demo_backend 9001 UP), (110, demo_backend 9002 UP), (120, demo_backend 9003 RECOVERING),
      (137, demo_backend 9001 UP), (147, demo_backend 9002 UP), (157, demo_backend 9003 RECOVERING),
      (161, demo_backend 9001 UP), (171, demo_backend 9002 UP), (181, demo_backend 9003 RECOVERING)]"
proof -
  have b: "(demo_backend 9003 UP)\<lparr>status := s\<rparr> = demo_backend 9003 s" for s
    by (simp add: demo_backend_def)
  have r: "demo_ring = \<lparr>num_vnodes = Suc (Suc (Suc 0)), ring = ring demo_ring\<rparr>"
    by (simp add: demo_ring_def HashRing_def add_node_def)
  have "(demo_backend 9003 s)\<lparr>status := s'\<rparr> = demo_backend 9003 s'" for s s'
    by (simp add: demo_backend_def)
  then have "router_ring demo_recovering =
      add_node demo_hash (demo_backend 9003 RECOVERING) (remove_node demo_hash (demo_backend 9003 DOWN) demo_ring)"
    by (simp add: demo_recovering_def markBackendRecovering_def markBackendDown_def Let_def demo_router_backends
        demo_router_ring b)
  then show ?thesis
    by (subst (asm) r) (simp add: add_node_def remove_node_def demo_vnode_hashes demo_ring_value map_erase_def)
qed

lemma demo_recovering_nodes:
  "getNodes demo_hash (router_ring demo_recovering) ''k_1'' 2 = [demo_backend 9003 RECOVERING, demo_backend 9001 UP]"
proof -
  have "hash_string demo_hash ''k_1'' = 150" by (simp add: hash_string_def demo_hash_def)
  moreover have "node_id (demo_backend p s) = node_id (demo_backend q s') \<longleftrightarrow> p = q" for p q s s'
    by (simp add: node_id_inject demo_backend_def)
  moreover have "getNodes demo_hash (router_ring demo_recovering) ''k_1'' 2 =
      take 2 (ring_walk demo_hash (router_ring demo_recovering) ''k_1'')"
    by (rule getNodes_walk[OF ring_ok_sorted[OF router_inv_ring[OF demo_recovering_inv]]])
  ultimately show ?thesis
    by (simp add: ring_walk_def demo_recovering_ring)
qed

lemma demo_not_empty: "\<not> ring_empty (router_ring demo_recovering)"
  by (simp add: ring_empty_def demo_recovering_ring)

lemma demo_ports [simp]: "port (demo_backend p s) = p" "status (demo_backend p s) = s"
  by (simp_all add: demo_backend_def)

lemma demo_peer_keys: "\<forall>k \<in> peer_keys demo_recovering b (tables map_of demo_servers). route_key k"
  by (auto simp: peer_keys_def tables_def demo_servers_def start_server_def route_key_def is_word_def split: if_splits)

subsection \<open>Properties\<close>



text \<open>
  The purpose of the recovery: a key the ring assigns to the recovering server and to another
  replica that is online and has a non-empty value for it is on the recovering server afterwards,
  with that value.
\<close>

theorem recovery_restores_owned_key:
  assumes "pg_table env rows" "pg_up env" "cluster_ok rows w"
    and "router_inv hs rt" "live_run rt alive" "map_of (backends rt) (port b) = Some c" "status c = RECOVERING"
    and "\<not> ring_empty (router_ring rt)" "\<forall>k \<in> peer_keys rt b (tables rows w). route_key k"
    and "owns_key hs rt b k" "r \<in> set (getNodes hs (router_ring rt) k 2)" "port r \<noteq> port b"
    and "\<exists>n \<in> set (getOnlineBackends rt). port n = port r" "tables rows w (port r) k = Some v" "v \<noteq> []"
  shows "\<exists>w'. recover hs (cluster_http env alive) rt b w = Inr w' \<and> tables rows w' (port b) k = Some v"
proof -
  let ?rs = "getNodes hs (router_ring rt) k 2"
  have "length ?rs \<le> 2" using hring.sel_length[OF router_inv_ring[OF assms(4)]] by simp
  then have "\<forall>q \<in> set ?rs. port q = port b \<or> port q = port r"
    using two_ports[of ?rs r _ "port b"] assms(10-12) unfolding owns_key_def by blast
  moreover have "port r \<in> port ` set ?rs" using assms(11) by (rule imageI)
  ultimately have v: "first_value (tables rows w) b k ?rs = v"
    by (rule first_value_only) (use assms(12,14,15) in simp_all)
  have "k \<in> peer_keys rt b (tables rows w)"
    using assms(12-14) by (auto simp: peer_keys_def)
  with v assms(10,15) have "recovered_table hs rt b (peer_keys rt b (tables rows w)) (tables rows w) k = Some v"
    by (simp add: recovered_table_def)
  with recovery_tables[OF assms(1-9)] show ?thesis by auto
qed

lemma recovery_restores_owned_key_witness:
  "\<exists>w'. recover demo_hash (cluster_http mem_pg {9001, 9002, 9003}) demo_recovering (demo_backend 9003 DOWN) demo_servers = Inr w' \<and>
     tables map_of w' 9003 ''k_1'' = Some ''v''"
  using recovery_restores_owned_key[OF mem_pg_table mem_pg_up demo_cluster_ok demo_recovering_inv demo_recovering_live,
      of "demo_backend 9003 DOWN" "demo_backend 9003 RECOVERING" "''k_1''" "demo_backend 9001 UP" "''v''",
      OF _ _ demo_not_empty demo_peer_keys]
  by (simp add: demo_recovering_backends owns_key_def demo_recovering_nodes getOnlineBackends_def
      tables_def demo_servers_def start_server_def)

text \<open>
  C34. A deletion the server missed is not replayed: a key that no online peer has, because it was
  deleted while the server was down, keeps its old value on the recovered server.
\<close>

theorem deleted_key_survives_recovery:
  assumes "pg_table env rows" "pg_up env" "cluster_ok rows w"
    and "router_inv hs rt" "live_run rt alive" "map_of (backends rt) (port b) = Some c" "status c = RECOVERING"
    and "\<not> ring_empty (router_ring rt)" "\<forall>k \<in> peer_keys rt b (tables rows w). route_key k"
    and "\<forall>n \<in> set (getOnlineBackends rt). port n \<noteq> port b \<longrightarrow> tables rows w (port n) k = None"
  shows "\<exists>w'. recover hs (cluster_http env alive) rt b w = Inr w' \<and>
    tables rows w' (port b) k = tables rows w (port b) k"
proof -
  have "k \<notin> peer_keys rt b (tables rows w)" using assms(10) by (auto simp: peer_keys_def)
  with recovery_tables[OF assms(1-9)] show ?thesis by (auto simp: recovered_table_def)
qed

definition demo_old_servers :: "int \<Rightarrow> (string \<times> string) list server" where
  "demo_old_servers p = start_server [] (if p = 9003 then [(''gone'', ''old'')] else [])"

lemma deleted_key_survives_recovery_witness:
  "\<exists>w'. recover demo_hash (cluster_http mem_pg {9001, 9002, 9003}) demo_recovering (demo_backend 9003 DOWN) demo_old_servers = Inr w' \<and>
     tables map_of w' 9003 ''gone'' = Some ''old''"
proof -
  have ok: "cluster_ok map_of demo_old_servers"
    by (simp add: cluster_ok_def demo_old_servers_def server_ok_start)
  have none: "\<forall>n \<in> set (getOnlineBackends demo_recovering). port n \<noteq> port (demo_backend 9003 DOWN) \<longrightarrow>
      tables map_of demo_old_servers (port n) k = None" for k
    by (simp add: getOnlineBackends_def demo_recovering_backends tables_def demo_old_servers_def start_server_def)
  then have "\<forall>k \<in> peer_keys demo_recovering (demo_backend 9003 DOWN) (tables map_of demo_old_servers). route_key k"
    by (auto simp: peer_keys_def domIff)
  from deleted_key_survives_recovery[OF mem_pg_table mem_pg_up ok demo_recovering_inv demo_recovering_live
      _ _ demo_not_empty this none, of "demo_backend 9003 RECOVERING" "''gone''"]
  show ?thesis by (simp add: demo_recovering_backends tables_def demo_old_servers_def start_server_def)
qed

text \<open>
  The load balancer and the servers agree on the key: a create request is stored under the key it
  was routed by, whatever its body, and so is every request whose path ends in a key of word
  characters.
\<close>

theorem routed_and_stored_under_same_key:
  "(req_path r = ''/kvstore/create'' \<and> req_body r \<noteq> [] \<longrightarrow> getKey r = fst (split_create (req_body r))) \<and>
   (route_key k \<and> req_path r = ''/kvstore/'' @ k \<and> k \<noteq> ''create'' \<longrightarrow>
      getKey r = k \<and>
      (\<forall>m \<in> {''GET'', ''PUT'', ''DELETE''}. \<exists>h. find_route routes m (req_path r) = Some (h, [req_path r, k])))"
proof (intro conjI impI)
  assume r: "req_path r = ''/kvstore/create'' \<and> req_body r \<noteq> []"
  let ?b = "req_body r"
  show "getKey r = fst (split_create ?b)"
    using r take_str_find[where c = "CHR '' ''" and s = ?b]
    by (simp add: getKey_def substr_def split_create_def getline_def split: option.splits)
next
  assume a: "route_key k \<and> req_path r = ''/kvstore/'' @ k \<and> k \<noteq> ''create''"
  then have "CHR ''/'' \<notin> set k" "k \<noteq> []" "list_all is_word k" "k \<noteq> ''allkeys''"
    using route_key_chars[of k "CHR ''/''"] by (auto simp: route_key_def)
  with a show "getKey r = k" by (intro getKey_path) auto
  have p: "req_path r = ''/kvstore/'' @ k" using a by blast
  note fr = find_route_word(1,2,3)[OF \<open>k \<noteq> []\<close> \<open>list_all is_word k\<close>] \<open>k \<noteq> ''allkeys''\<close>
  show "\<forall>m \<in> {''GET'', ''PUT'', ''DELETE''}. \<exists>h. find_route routes m (req_path r) = Some (h, [req_path r, k])"
    unfolding p using fr by blast
qed

lemma routed_and_stored_under_same_key_witness:
  "getKey (empty_request\<lparr>req_path := ''/kvstore/create'', req_body := ''k v''\<rparr>) = fst (split_create ''k v'') \<and>
   getKey (empty_request\<lparr>req_path := ''/kvstore/'' @ ''k_1''\<rparr>) = ''k_1''"
  using routed_and_stored_under_same_key[of "empty_request\<lparr>req_path := ''/kvstore/create'', req_body := ''k v''\<rparr>" "[]"]
    routed_and_stored_under_same_key[of "empty_request\<lparr>req_path := ''/kvstore/'' @ ''k_1''\<rparr>" "''k_1''"]
  by (simp add: route_key_def is_word_def)

end
