(* ===== verification/ClientWire.thy ===== *)
theory ClientWire
  imports HttpClient KvWire Cluster
begin

text \<open>
  The library's client against the key-value server: the requests the program's clients send
  (the recovery manager, the health checker, the command-line client and the load generator) pass
  through both ends of the library as bytes. The lemmas show that such a call gives the status and
  the body \<open>serve\<close> gives, so that \<open>cluster_call\<close>, the call the other theories use, is exact.
\<close>

subsection \<open>The requests of the program\<close>

definition plain_host :: "string \<Rightarrow> bool" where
  "plain_host h \<longleftrightarrow> length h \<le> 255 \<and> list_all (\<lambda>c. is_alnum c \<or> c = CHR ''.'' \<or> c = CHR ''-'') h"

definition plain_path :: "string \<Rightarrow> bool" where
  "plain_path p \<longleftrightarrow> p \<noteq> [] \<and> length p \<le> REQUEST_URI_MAX_LENGTH \<and> list_all regex_char p"

text \<open>A GET or DELETE request, or a POST or PUT request with a plain text.\<close>

definition program_request :: "Request \<Rightarrow> bool" where
  "program_request req \<longleftrightarrow> (\<exists>p body. plain_path p \<and> length body < 2 ^ 62 \<and>
     (req = client_Get p \<or> req = client_Delete p \<or>
      req = client_Post p body ''text/plain'' \<or> req = client_Put p body ''text/plain''))"

lemma regex_char_not:
  "\<not> regex_char (CHR ''?'')" "\<not> regex_char (CHR 0x00)" "\<not> regex_char (CHR '' '')" "\<not> regex_char (CHR 0x09)"
  "\<not> regex_char (CHR 0x0D)" "\<not> regex_char (CHR 0x0A)" "\<not> regex_char (CHR ''#'')" "\<not> regex_char (CHR 0x25)"
  "\<not> regex_char (CHR ''+'')" "\<not> regex_char (CHR 0x27)" "\<not> regex_char (CHR '','')" "\<not> regex_char (CHR '';'')"
  by (simp_all add: regex_char_def is_word_def)

lemma regex_char_encode: "regex_char c \<Longrightarrow> encode_path_char c = [c]"
proof -
  assume c: "regex_char c"
  then have "\<not> 128 \<le> (of_char c :: nat)" by (auto simp: regex_char_def is_word_def)
  moreover have "c \<noteq> d" if "\<not> regex_char d" for d using c that by metis
  note this[OF regex_char_not(3)] this[OF regex_char_not(5)] this[OF regex_char_not(6)] this[OF regex_char_not(9)]
    this[OF regex_char_not(10)] this[OF regex_char_not(11)] this[OF regex_char_not(12)]
  ultimately show ?thesis by (simp only: encode_path_char_def if_False)
qed

lemma plain_path_chars:
  assumes "plain_path p"
  shows "CHR ''?'' \<notin> set p" "encode_path p = p" "target_ok p"
proof -
  have p: "regex_char c" if "c \<in> set p" for c using assms that by (simp add: plain_path_def list_all_iff)
  then have no: "d \<notin> set p" if "\<not> regex_char d" for d using that by blast
  show "CHR ''?'' \<notin> set p" by (rule no[OF regex_char_not(1)])
  have "list_all regex_char q \<Longrightarrow> concat (map encode_path_char q) = q" for q
    by (induction q) (simp_all add: regex_char_encode)
  then have "concat (map encode_path_char p) = p" using assms by (simp add: plain_path_def)
  moreover have "takeWhile (\<lambda>c. c \<noteq> CHR 0x00) p = p"
    using no[OF regex_char_not(2)] by (auto simp: takeWhile_eq_all_conv)
  ultimately show "encode_path p = p" by (simp only: encode_path_def)
  have "c \<notin> {CHR '' '', CHR 0x09, CHR 0x0D, CHR 0x0A, CHR 0x00, CHR ''#'', CHR ''?'', CHR 0x25}" if "c \<in> set p" for c
    using that no[OF regex_char_not(1)] no[OF regex_char_not(2)] no[OF regex_char_not(3)] no[OF regex_char_not(4)]
      no[OF regex_char_not(5)] no[OF regex_char_not(6)] no[OF regex_char_not(7)] no[OF regex_char_not(8)] by blast
  with assms show "target_ok p" by (simp add: target_ok_def plain_path_def)
qed

subsection \<open>Their bytes\<close>

definition client_ok :: "ClientImpl \<Rightarrow> bool" where
  "client_ok c \<longleftrightarrow> plain_host (cl_host c) \<and> 0 \<le> cl_port c \<and> cl_port c < 65536 \<and> cl_path_encode c"

definition host_text :: "ClientImpl \<Rightarrow> string" where
  "host_text c = (if cl_port c = 80 then cl_host c else host_and_port c)"

definition program_headers :: "ClientImpl \<Rightarrow> bool \<Rightarrow> string \<Rightarrow> string \<Rightarrow> headers" where
  "program_headers c cc m body =
     (if m \<in> {''POST'', ''PUT''} then [(''Content-Type'', ''text/plain'')] else []) @
     (if cc then [(''Connection'', ''close'')] else []) @
     [(''Host'', host_text c), (''Accept'', ''*/*''), (''Accept-Encoding'', []), (''User-Agent'', ''cpp-httplib/0.26.0'')] @
     (if m \<in> {''POST'', ''PUT''} then [(''Content-Length'', string_of_nat (length body))] else [])"

lemma host_text_chars:
  assumes "client_ok c"
  shows "is_field_value (host_text c)" "CHR 0x25 \<notin> set (host_text c)" "length (host_text c) \<le> 261"
proof -
  have port: "length (string_of_int (cl_port c)) \<le> 5" "\<forall>d \<in> set (string_of_int (cl_port c)). is_digit d"
    using assms string_of_nat_bound[of 5 "nat (cl_port c)"] string_of_nat_digits
    by (auto simp: client_ok_def string_of_int_def)
  have h: "is_alnum d \<or> d = CHR ''.'' \<or> d = CHR ''-''" if "d \<in> set (cl_host c)" for d
    using assms that by (auto simp: client_ok_def plain_host_def list_all_iff)
  then have "CHR '':'' \<notin> set (cl_host c)" by (force simp: is_alnum_def)
  then have t: "host_text c = (if cl_port c = 80 then cl_host c else cl_host c @ '':'' @ string_of_int (cl_port c))"
    by (simp add: host_text_def host_and_port_def adjust_host_string_def str_find_single_None[THEN iffD2])
  then have v: "is_field_vchar d \<and> d \<noteq> CHR 0x25" if "d \<in> set (host_text c)" for d
    using that h[of d] port(2)
    by (auto simp: is_field_vchar_def is_vchar_def is_alnum_def is_digit_def Let_def split: if_splits)
  then show "CHR 0x25 \<notin> set (host_text c)" by blast
  show "is_field_value (host_text c)"
    using v by (cases "host_text c = []") (simp_all add: is_field_value_iff)
  show "length (host_text c) \<le> 261" using t port(1) assms by (simp add: client_ok_def plain_host_def)
qed

lemma program_header_values:
  assumes "client_ok c" "x \<in> set (program_headers c cc m body)"
  shows "is_field_value (snd x)" "CHR 0x25 \<notin> set (snd x)"
proof -
  have "CHR 0x25 \<notin> set (string_of_nat n)" for n using string_of_nat_digits[of "CHR 0x25" n] by (auto simp: is_digit_def)
  moreover have "is_field_value ''text/plain'' \<and> is_field_value ''close'' \<and> is_field_value ''*/*'' \<and> is_field_value [] \<and>
      is_field_value ''cpp-httplib/0.26.0''"
    by (simp add: field_value)
  ultimately show "is_field_value (snd x)" "CHR 0x25 \<notin> set (snd x)"
    using assms host_text_chars[OF assms(1)] digits_field_value
    by (auto simp: program_headers_def split: if_splits)
qed

text \<open>The headers the client writes.\<close>

lemma default_header_new:
  "\<not> headers_has (rq_headers r) k \<Longrightarrow> is_field_name k \<Longrightarrow> is_field_value v \<Longrightarrow>
   default_header k v r = r\<lparr>rq_headers := rq_headers r @ [(k, v)]\<rparr>"
  by (simp add: default_header_def has_header_def request_set_header_def emplace_header_def)

lemma headers_has_simps:
  "\<not> headers_has [] k" "headers_has (x # hs) k \<longleftrightarrow> case_equal (fst x) k \<or> headers_has hs k"
  "headers_has (hs @ hs') k \<longleftrightarrow> headers_has hs k \<or> headers_has hs' k"
  by (auto simp: headers_has_def split: prod.split)

lemma program_names:
  "is_field_name ''Content-Type''" "is_field_name ''Connection''" "is_field_name ''Host''" "is_field_name ''Accept''"
  "is_field_name ''Accept-Encoding''" "is_field_name ''User-Agent''" "is_field_name ''Content-Length''"
  by (simp_all add: field_name)

lemma common_headers:
  assumes "client_ok c" "rq_headers req = hs" "\<forall>k \<in> {''Connection'', ''Host'', ''Accept'', ''Accept-Encoding'', ''User-Agent''}. \<not> headers_has hs k"
  shows "request_headers c cc req = body_headers (req\<lparr>rq_headers := hs @ (if cc then [(''Connection'', ''close'')] else []) @
     [(''Host'', host_text c), (''Accept'', ''*/*''), (''Accept-Encoding'', []), (''User-Agent'', ''cpp-httplib/0.26.0'')]\<rparr>)"
proof -
  have val: "is_field_value ''close''" "is_field_value ''*/*''" "is_field_value []" "is_field_value ''cpp-httplib/0.26.0''"
    by (simp_all add: field_value)
  have ne: "\<not> case_equal ''Connection'' ''Host''" "\<not> case_equal ''Connection'' ''Accept''" "\<not> case_equal ''Connection'' ''Accept-Encoding''"
    "\<not> case_equal ''Connection'' ''User-Agent''" "\<not> case_equal ''Host'' ''Accept''" "\<not> case_equal ''Host'' ''Accept-Encoding''"
    "\<not> case_equal ''Host'' ''User-Agent''" "\<not> case_equal ''Accept'' ''Accept-Encoding''" "\<not> case_equal ''Accept'' ''User-Agent''"
    "\<not> case_equal ''Accept-Encoding'' ''User-Agent''"
    by (simp_all add: case_equal_def case_lower_conv)
  have no: "\<not> headers_has hs ''Connection''" "\<not> headers_has hs ''Host''" "\<not> headers_has hs ''Accept''"
    "\<not> headers_has hs ''Accept-Encoding''" "\<not> headers_has hs ''User-Agent''"
    using assms(3) by simp_all
  show ?thesis
    unfolding request_headers_def host_text_def[symmetric]
    using assms(2) no host_text_chars(1)[OF assms(1)]
    by (cases cc) (simp_all add: default_header_new program_names val headers_has_simps ne)
qed

lemma body_headers_text:
  assumes "rq_method req \<in> {''POST'', ''PUT''}" "headers_has (rq_headers req) ''Content-Type''"
    "\<not> headers_has (rq_headers req) ''Content-Length''"
  shows "rq_headers (body_headers req) = rq_headers req @ [(''Content-Length'', string_of_nat (length (rq_body req)))]"
proof -
  have "string_of_nat 0 = ''0''" by code_simp
  moreover have "is_field_value ''0''" by (simp add: field_value)
  moreover have "default_header ''Content-Type'' v req = req" for v
    using assms(2) by (simp add: default_header_def has_header_def)
  ultimately show ?thesis
    using assms default_header_new[OF assms(3) program_names(7) digits_field_value]
    by (auto simp: body_headers_def request_set_header_def emplace_header_def program_names)
qed

lemma written_headers:
  assumes "client_ok c" "program_request req"
  shows "rq_headers (request_headers c cc req) = program_headers c cc (rq_method req) (rq_body req)"
proof -
  have tp: "is_field_value ''text/plain''" by (simp add: field_value)
  define hs :: headers where "hs = (if rq_method req \<in> {''POST'', ''PUT''} then [(''Content-Type'', ''text/plain'')] else [])"
  have r: "rq_headers req = hs" "rq_method req \<in> {''GET'', ''DELETE'', ''POST'', ''PUT''}"
    "rq_method req \<notin> {''POST'', ''PUT''} \<Longrightarrow> rq_body req = []"
    using assms(2)
    by (auto simp: hs_def program_request_def client_Get_def client_Delete_def client_Post_def client_Put_def send_with_body_def
        new_request_def request_set_header_def emplace_header_def program_names tp)
  have ne: "\<not> case_equal ''Content-Type'' k" if "k \<in> {''Connection'', ''Host'', ''Accept'', ''Accept-Encoding'', ''User-Agent'', ''Content-Length''}" for k
    using that by (auto simp: case_equal_def case_lower_conv)
  have cl: "\<not> case_equal k ''Content-Length''" if "k \<in> {''Connection'', ''Host'', ''Accept'', ''Accept-Encoding'', ''User-Agent''}" for k
    using that by (auto simp: case_equal_def case_lower_conv)
  have no: "\<forall>k \<in> {''Connection'', ''Host'', ''Accept'', ''Accept-Encoding'', ''User-Agent''}. \<not> headers_has hs k"
    using ne by (simp add: hs_def headers_has_simps)
  note common = common_headers[OF assms(1) r(1) no, of cc]
  show ?thesis
  proof (cases "rq_method req \<in> {''POST'', ''PUT''}")
    case False
    with r(2,3) have "rq_body req = []" "rq_method req \<noteq> ''POST''" "rq_method req \<noteq> ''PUT''" "rq_method req \<noteq> ''PATCH''" by auto
    then show ?thesis unfolding common by (simp add: body_headers_def program_headers_def hs_def)
  next
    case True
    let ?req = "req\<lparr>rq_headers := hs @ (if cc then [(''Connection'', ''close'')] else []) @
     [(''Host'', host_text c), (''Accept'', ''*/*''), (''Accept-Encoding'', []), (''User-Agent'', ''cpp-httplib/0.26.0'')]\<rparr>"
    have "rq_headers (body_headers ?req) = rq_headers ?req @ [(''Content-Length'', string_of_nat (length (rq_body ?req)))]"
      by (rule body_headers_text) (use True ne cl in \<open>simp_all add: hs_def headers_has_simps\<close>)
    with True show ?thesis unfolding common by (auto simp: program_headers_def hs_def)
  qed
qed

lemma send_with_body_fields:
  "rq_method (send_with_body m p body ct) = m" "rq_path (send_with_body m p body ct) = p"
  "rq_body (send_with_body m p body ct) = body" "rq_params (send_with_body m p body ct) = []"
  by (simp_all add: send_with_body_def Let_def new_request_def request_set_header_def)

lemma client_Get_fields:
  "rq_method (client_Get p) = ''GET''" "rq_path (client_Get p) = p" "rq_body (client_Get p) = []" "rq_params (client_Get p) = []"
  by (simp_all add: client_Get_def new_request_def)

lemma program_request_fields:
  assumes "program_request req"
  shows "plain_path (rq_path req)" "length (rq_body req) < 2 ^ 62" "rq_params req = []"
    "rq_method req \<in> {''GET'', ''DELETE'', ''POST'', ''PUT''}"
    "rq_method req \<notin> {''POST'', ''PUT''} \<Longrightarrow> rq_body req = []"
proof -
  have "plain_path (rq_path req) \<and> length (rq_body req) < 2 ^ 62 \<and> rq_params req = [] \<and>
      (rq_method req \<in> {''GET'', ''DELETE''} \<and> rq_body req = [] \<or> rq_method req \<in> {''POST'', ''PUT''})"
    using assms unfolding program_request_def client_Delete_def client_Post_def client_Put_def
    by (elim exE conjE disjE) (simp_all add: send_with_body_fields client_Get_fields)
  then show "plain_path (rq_path req)" "length (rq_body req) < 2 ^ 62" "rq_params req = []"
    "rq_method req \<in> {''GET'', ''DELETE'', ''POST'', ''PUT''}"
    "rq_method req \<notin> {''POST'', ''PUT''} \<Longrightarrow> rq_body req = []"
    by auto
qed

lemma request_ok_mset:
  assumes "mset hs' = mset hs" "request_ok lib m hs body"
  shows "request_ok lib m hs' body"
proof -
  have v: "mset (header_values hs' key) = mset (header_values hs key)" for key
    by (simp add: header_values_def assms(1))
  have none: "header_values hs' key = [] \<longleftrightarrow> header_values hs key = []" for key
    using mset_eq_length[OF v[of key]] by (metis length_0_conv)
  have st: "set (header_values hs' key) = set (header_values hs key)" for key by (rule mset_eq_setD[OF v])
  have one: "map snd (filter (\<lambda>(n, v). case_equal n ''Content-Length'') hs') = [x]"
    if "map snd (filter (\<lambda>(n, v). case_equal n ''Content-Length'') hs) = [x]" for x
  proof -
    let ?f = "map snd \<circ> filter (\<lambda>(n, v). case_equal n ''Content-Length'')"
    have "mset (?f hs') = mset (?f hs)" by (simp add: assms(1))
    also have "\<dots> = {#x#}" using that by (simp del: mset_map mset_filter)
    finally show ?thesis by (simp del: mset_map mset_filter)
  qed
  have "framed m hs body" using assms(2) by (simp only: request_ok_def)
  then have "framed m hs' body"
    unfolding framed_def none by (elim disjE) (rule disjI1, erule one, erule disjI2)
  with assms(2) show ?thesis unfolding request_ok_def none st by (elim conjE) (intro conjI; assumption)
qed

text \<open>The server reads the headers as they were written, in the order they were written.\<close>

lemma program_decoded:
  assumes "client_ok c" "set hs \<subseteq> set (program_headers c cc m body)"
  shows "map decoded hs = hs"
proof (rule map_idI)
  fix x assume "x \<in> set hs"
  then have x: "x \<in> set (program_headers c cc m body)" using assms(2) by blast
  show "decoded x = x"
    using program_header_values(2)[OF assms(1) x] by (simp add: decoded_def decode_path_component_plain)
qed

lemma program_head_ok:
  assumes "client_ok c" "program_request req" "iteration ord" "hs = ord (program_headers c cc (rq_method req) (rq_body req))"
  shows "head_ok (rq_method req) (rq_path req) hs"
proof -
  let ?hs = "program_headers c cc (rq_method req) (rq_body req)"
  have m: "mset hs = mset ?hs" using assms(3,4) by (simp add: iteration_def)
  note p = program_request_fields[OF assms(2)]
  have "length (string_of_nat (length (rq_body req))) \<le> 20" using p(2) by (intro string_of_nat_bound) simp_all
  then have "length (header_line x) \<le> HEADER_MAX_LENGTH" if "x \<in> set ?hs" for x
    using that host_text_chars(3)[OF assms(1)]
    by (auto simp: program_headers_def header_line_def CR_LF_def HEADER_MAX_LENGTH_def split: if_splits)
  moreover have "is_field_name (fst x)" if "x \<in> set ?hs" for x
    using that program_names by (auto simp: program_headers_def split: if_splits)
  ultimately have "\<forall>x \<in> set hs. field_ok x"
    using program_header_values(1)[OF assms(1)] mset_eq_setD[OF m] by (simp add: field_ok_def)
  moreover have "length hs \<le> HEADER_MAX_COUNT"
    using mset_eq_length[OF m] by (simp add: program_headers_def HEADER_MAX_COUNT_def)
  ultimately show ?thesis
    using p(4) plain_path_chars(3)[OF p(1)] by (auto simp: head_ok_def known_methods_def)
qed

text \<open>The fields the client writes, and those the server asks for.\<close>

definition client_fields :: "string list" where
  "client_fields = [''Content-Type'', ''Connection'', ''Host'', ''Accept'', ''Accept-Encoding'', ''User-Agent'', ''Content-Length'']"

definition server_fields :: "string list" where
  "server_fields = [''Range'', ''Expect'', ''Transfer-Encoding'', ''Content-Encoding'', ''Accept'', ''Content-Type'', ''Content-Length'']"

lemma fields_differ:
  assumes "n \<in> set client_fields" "k \<in> set server_fields"
  shows "case_equal n k \<longleftrightarrow> n = k"
proof -
  have "list_all (\<lambda>n. list_all (\<lambda>k. n = k \<or> map case_lower n \<noteq> map case_lower k) server_fields) client_fields"
    by (simp add: case_lower_conv client_fields_def server_fields_def)
  with assms show ?thesis by (auto simp: list_all_iff case_equal_iff)
qed

lemma program_header_names: "x \<in> set (program_headers c cc m body) \<Longrightarrow> fst x \<in> set client_fields"
  by (auto simp: program_headers_def client_fields_def split: if_splits)

lemma program_field:
  assumes "key \<in> set server_fields"
  shows "filter (\<lambda>(n, v). case_equal n key) (program_headers c cc m b) = filter (\<lambda>(n, v). n = key) (program_headers c cc m b)"
proof (rule filter_cong[OF refl])
  fix x assume "x \<in> set (program_headers c cc m b)"
  from fields_differ[OF program_header_names[OF this] assms]
  show "(case x of (n, v) \<Rightarrow> case_equal n key) = (case x of (n, v) \<Rightarrow> n = key)" by (cases x) simp
qed

lemma program_values:
  "header_values (program_headers c cc m b) ''Range'' = []" "header_values (program_headers c cc m b) ''Expect'' = []"
  "header_values (program_headers c cc m b) ''Transfer-Encoding'' = []"
  "header_values (program_headers c cc m b) ''Content-Encoding'' = []"
  "header_values (program_headers c cc m b) ''Accept'' = [''*/*'']"
  "header_values (program_headers c cc m b) ''Content-Type'' = (if m \<in> {''POST'', ''PUT''} then [''text/plain''] else [])"
  "filter (\<lambda>(n, v). case_equal n ''Content-Length'') (program_headers c cc m b) =
     (if m \<in> {''POST'', ''PUT''} then [(''Content-Length'', string_of_nat (length b))] else [])"
  unfolding header_values_def
  by (subst program_field, simp add: server_fields_def, simp add: program_headers_def)+

lemma program_request_ok:
  assumes "program_request req"
  shows "request_ok lib (rq_method req) (program_headers c cc (rq_method req) (rq_body req)) (rq_body req)"
proof -
  note p = program_request_fields[OF assms]
  have "framed (rq_method req) (program_headers c cc (rq_method req) (rq_body req)) (rq_body req)"
    unfolding framed_def header_values_def program_values(7) using p(4,5) by (cases "rq_method req \<in> {''POST'', ''PUT''}") auto
  moreover have "length (rq_body req) < 2 ^ 63" using p(2) by simp
  moreover have "rq_method req \<in> {''GET'', ''HEAD'', ''POST'', ''PUT'', ''DELETE''}" using p(4) by auto
  moreover have "\<forall>v \<in> set (if b then [''text/plain''] else []). \<not> prefix ''multipart/form-data'' v \<and>
      \<not> prefix ''application/x-www-form-urlencoded'' v" for b
    by simp
  ultimately show ?thesis
    unfolding request_ok_def by (simp only: program_values ball_simps list.set accept_any simp_thms)
qed

text \<open>A handler sees of such a request what it sees of the request with its method, path and content alone.\<close>

lemma serve_same:
  assumes "rq_method req = rq_method req'" "rq_path req = rq_path req'" "rq_body req = rq_body req'"
    "has_header req ''X-Internal-Replication'' = has_header req' ''X-Internal-Replication''"
  shows "serve env w req = serve env w req'"
proof -
  have "run_handler h env w (req\<lparr>rq_matches := ms\<rparr>) = run_handler h env w (req'\<lparr>rq_matches := ms\<rparr>)" for h ms
    by (rule run_handler_same) (use assms in \<open>simp add: same_request_def has_header_def\<close>)
  with assms(1,2) show ?thesis by (simp add: serve_def split: option.split prod.split)
qed

lemma serve_program:
  assumes "client_ok c" "set hs \<subseteq> set (program_headers c cc (rq_method req) (rq_body req))"
  shows "serve env w (request_of (rq_method req) (rq_path req) hs (rq_body req)) =
    serve env w (client_request (rq_method req) (rq_path req) (rq_body req))"
proof (rule serve_same)
  have "list_all (\<lambda>n. map case_lower n \<noteq> map case_lower ''X-Internal-Replication'') client_fields"
    by (simp add: case_lower_conv client_fields_def)
  then have "\<not> case_equal (fst x) ''X-Internal-Replication''" if "x \<in> set hs" for x
    using that assms(2) program_header_names[of x c cc] by (force simp: list_all_iff case_equal_iff)
  then have "\<not> headers_has hs ''X-Internal-Replication''" by (auto simp: headers_has_def list_ex_iff)
  then show "has_header (request_of (rq_method req) (rq_path req) hs (rq_body req)) ''X-Internal-Replication'' =
      has_header (client_request (rq_method req) (rq_path req) (rq_body req)) ''X-Internal-Replication''"
    using decoded_names(1) by (simp add: has_header_def request_of_def headers_has_simps client_request_def new_request_def)
qed (simp_all add: request_of_def client_request_def)

subsection \<open>A call through both ends of the library\<close>

text \<open>
  A connection on which the bytes \<open>bs\<close> arrive in the pieces \<open>packets bs\<close>. What the client writes does
  not depend on what it reads, so the server's answer is computed from it first.
\<close>

definition socket_with :: "(string \<Rightarrow> string list) \<Rightarrow> string \<Rightarrow> stream" where
  "socket_with packets bs = \<lparr>read_buff = [], arriving = packets bs, arrival_end = 0, sent = [], send_results = []\<rparr>"

definition packets_ok :: "(string \<Rightarrow> string list) \<Rightarrow> bool" where
  "packets_ok packets \<longleftrightarrow> (\<forall>bs. concat (packets bs) = bs \<and> [] \<notin> set (packets bs))"

text \<open>What the callers use of a result.\<close>

definition reply_of :: "client_error + ClientResponse \<Rightarrow> (int \<times> string) option" where
  "reply_of r = (case r of Inl _ \<Rightarrow> None | Inr res \<Rightarrow> Some (cr_status res, cr_body res))"

definition wire_call ::
  "http_lib \<Rightarrow> http_lib \<Rightarrow> (string \<Rightarrow> string list) \<Rightarrow> 'db server_env \<Rightarrow> HttpServer.peer \<Rightarrow> int set \<Rightarrow> ClientImpl \<Rightarrow> Request \<Rightarrow>
   (int \<Rightarrow> 'db server) \<Rightarrow> (int \<times> string) option \<times> (int \<Rightarrow> 'db server)" where
  "wire_call clib slib packets env p alive c req w =
     (if cl_port c \<notin> alive then (reply_of (fst (send_client_request clib False None req c)), w)
      else (case kv_http env of
              Inl _ \<Rightarrow> (None, w)
            | Inr srv \<Rightarrow>
                (case process_request slib srv p False (w (cl_port c)) (socket_with packets (request_bytes clib c req)) of
                   None \<Rightarrow> (None, w)
                 | Some (s, _, _, strm) \<Rightarrow>
                     (reply_of (fst (send_client_request clib False (Some (socket_with packets (sent strm))) req c)), w(cl_port c := s)))))"

lemma request_bytes_program:
  assumes "client_ok c" "program_request req"
  shows "request_bytes lib c req = head_text (rq_method req) (rq_path req)
    (h_ord lib (program_headers c (\<not> cl_keep_alive c) (rq_method req) (rq_body req))) @ rq_body req"
proof -
  note p = program_request_fields[OF assms(2)]
  have "cl_path_encode c" using assms(1) by (simp add: client_ok_def)
  with write_request_bytes[of buffer_stream req c lib "\<not> cl_keep_alive c"] p(3) plain_path_chars(1,2)[OF p(1)]
  show ?thesis by (simp add: request_bytes_def written_headers[OF assms] buffer_stream_def)
qed

lemma serve_response: "serve env w req = Some (w', res) \<Longrightarrow> kv_response res"
  by (auto simp: serve_def kv_response_404 split: option.splits prod.splits intro: run_handler_response)

text \<open>What the client makes of a handler's answer.\<close>

lemma client_gets_message:
  assumes "iteration (h_ord lib)" "client_ok c" "program_request req" "packets_ok packets" "is_message False raw res"
    "kv_response res" "length (res_body res) < 2 ^ 62"
  shows "reply_of (fst (send_client_request lib False (Some (socket_with packets raw)) req c)) =
    Some (res_status res, res_body res)"
proof -
  note pr = program_request_fields[OF assms(3)]
  have k: "200 \<le> res_status res" "res_status res < 600" "res_status res \<notin> {204, 304}"
    using assms(6) by (simp_all add: kv_response_def)
  have conn: "stream_ok (socket_with packets raw)" "send_results (socket_with packets raw) = []"
    "concat (arriving (socket_with packets raw)) = raw @ []"
    using assms(4) by (simp_all add: socket_with_def stream_ok_def packets_ok_def)
  have "cl_path_encode c" "rq_path req \<noteq> []" "rq_method req \<noteq> ''HEAD''" "rq_method req \<noteq> ''CONNECT''"
    using assms(2) pr(1,4) by (auto simp: client_ok_def plain_path_def)
  with client_request_reads[OF assms(1,5) k assms(7) conn] plain_path_chars(1)[OF pr(1)] pr(3) show ?thesis
    by (fastforce simp: reply_of_def)
qed

lemma wire_call_replies:
  assumes "iteration (h_ord clib)" "iteration (h_ord slib)" "regex_ok slib" "packets_ok packets" "client_ok c" "program_request req"
    "\<forall>w' res. serve env (w (cl_port c)) (client_request (rq_method req) (rq_path req) (rq_body req)) = Some (w', res) \<longrightarrow>
       length (res_body res) < 2 ^ 62"
  shows "wire_call clib slib packets env p alive c req w =
    cluster_call env alive \<lparr>ip = i, port = cl_port c, status = st\<rparr> (client_request (rq_method req) (rq_path req) (rq_body req)) w"
proof -
  let ?hs = "h_ord clib (program_headers c (\<not> cl_keep_alive c) (rq_method req) (rq_body req))"
  let ?s = "socket_with packets (request_bytes clib c req)"
  let ?req = "client_request (rq_method req) (rq_path req) (rq_body req)"
  let ?w = "w (cl_port c)"
  note pr = program_request_fields[OF assms(6)]
  have m: "mset ?hs = mset (program_headers c (\<not> cl_keep_alive c) (rq_method req) (rq_body req))"
    using assms(1) by (simp add: iteration_def)
  have sub: "set ?hs \<subseteq> set (program_headers c (\<not> cl_keep_alive c) (rq_method req) (rq_body req))"
    using mset_eq_setD[OF m] by simp
  obtain srv where srv: "kv_http env = Inr srv" using kv_http_handlers[of "''GET''" env] by auto
  have s: "stream_ok ?s" "send_results ?s = []" "sent ?s = []"
    "unread ?s = head_text (rq_method req) (rq_path req) ?hs @ rq_body req @ []"
    using assms(4) by (simp_all add: socket_with_def stream_ok_def unread_def packets_ok_def request_bytes_program[OF assms(5,6)])
  have h: "head_ok (rq_method req) (rq_path req) ?hs" by (rule program_head_ok[OF assms(5,6,1) refl])
  have r: "request_ok slib (rq_method req) (map decoded ?hs) (rq_body req)"
    unfolding program_decoded[OF assms(5) sub] by (rule request_ok_mset[OF m program_request_ok[OF assms(6)]])
  note sv = process_serves[OF assms(2,3) srv s(1,2,4) h r, where w = ?w and p = p and cc = False,
      unfolded serve_program[OF assms(5) sub]]
  show ?thesis
  proof (cases "cl_port c \<in> alive")
    case False
    then show ?thesis by (simp add: wire_call_def cluster_call_def send_client_request_def reply_of_def split: option.split)
  next
    case True
    show ?thesis
    proof (cases "serve env ?w ?req")
      case None
      with True srv sv show ?thesis by (simp add: wire_call_def cluster_call_def)
    next
      case (Some x)
      then obtain w' res where x: "serve env ?w ?req = Some (w', res)" by (cases x) auto
      with sv s(3) obtain closed s' raw where a: "process_request slib srv p False ?w ?s = Some (w', True, closed, s')"
        "sent s' = raw" "length (res_body res) < 2 ^ 62 \<longrightarrow> carries (rq_method req = ''HEAD'') raw res"
        by auto
      have len: "length (res_body res) < 2 ^ 62" using assms(7) x by blast
      have "rq_method req \<noteq> ''HEAD''" using pr(4) by auto
      then have "is_message False raw res" using a(3) len by (simp add: carries_def)
      note client_gets_message[OF assms(1,5,6,4) this serve_response[OF x] len]
      with True srv a x show ?thesis by (simp add: wire_call_def cluster_call_def)
    qed
  qed
qed

lemma new_client_ok:
  assumes "plain_host h" "0 \<le> p" "p < 65536"
  shows "client_ok (new_client h p)" "cl_port (new_client h p) = p"
proof -
  have "\<not> (1 < length h \<and> h ! 0 = CHR 0x00)"
    using assms(1) by (cases h) (auto simp: plain_host_def is_alnum_def)
  with assms show "client_ok (new_client h p)" "cl_port (new_client h p) = p"
    by (auto simp: client_ok_def new_client_def escape_abstract_namespace_unix_domain_def)
qed

subsection \<open>Properties\<close>

text \<open>
  C6. A call of the HTTP client is a call of \<open>serve\<close>. For every request of the program (GET, DELETE, POST
  and PUT of a path of letters, digits, underscores and slashes, with any text as content), what the
  client gets through both ends of the library, over any packets and header orders, is the status and
  the body \<open>serve\<close> gives, and the server's state changes as \<open>serve\<close> says: the call \<open>cluster_call\<close>,
  which the recovery, the health check and the clients are modelled with, is exact.
\<close>

theorem wire_call_exact:
  assumes "iteration (h_ord clib)" "iteration (h_ord slib)" "regex_ok slib" "packets_ok packets"
    "plain_host (ip b)" "0 \<le> port b" "port b < 65536" "program_request req"
    "\<forall>w' res. serve env (w (port b)) (client_request (rq_method req) (rq_path req) (rq_body req)) = Some (w', res) \<longrightarrow>
       length (res_body res) < 2 ^ 62"
  shows "wire_call clib slib packets env p alive (new_client (ip b) (port b)) req w =
    cluster_call env alive b (client_request (rq_method req) (rq_path req) (rq_body req)) w"
proof -
  note c = new_client_ok[OF assms(5-7)]
  have b: "\<lparr>ip = ip b, port = cl_port (new_client (ip b) (port b)), status = status b\<rparr> = b" using c(2) by (cases b) simp
  show ?thesis
    by (rule wire_call_replies[OF assms(1-4) c(1) assms(8), where i = "ip b" and st = "status b", unfolded b, unfolded c(2)])
       (rule assms(9))
qed

definition demo_packets :: "string \<Rightarrow> string list" where
  "demo_packets bs = map (\<lambda>c. [c]) bs"

lemma wire_call_exact_witness:
  "fst (wire_call kv_lib kv_lib demo_packets mem_pg demo_peer {9001} (new_client ''127.0.0.1'' 9001)
     (client_Post ''/kvstore/create'' ''k v'' ''text/plain'') (\<lambda>p. start_server [] [])) = Some (201, ''Created Successfully'')"
proof -
  let ?req = "client_Post ''/kvstore/create'' ''k v'' ''text/plain''"
  let ?b = "\<lparr>ip = ''127.0.0.1'', port = 9001, status = UP\<rparr>"
  let ?sv = "serve mem_pg (start_server [] []) (client_request ''POST'' ''/kvstore/create'' ''k v'')"
  have f: "rq_method ?req = ''POST''" "rq_path ?req = ''/kvstore/create''" "rq_body ?req = ''k v''"
    by (simp_all add: client_Post_def send_with_body_fields)
  have "map_option (\<lambda>(s, res). (res_status res, res_body res)) ?sv = Some (201, ''Created Successfully'')"
    by code_simp
  then obtain s res where sv: "?sv = Some (s, res)" "res_status res = 201" "res_body res = ''Created Successfully''"
    by auto
  have path: "plain_path ''/kvstore/create''"
    by (simp add: plain_path_def REQUEST_URI_MAX_LENGTH_def regex_char_def is_word_def)
  have "length ''k v'' < 2 ^ 62" by simp
  with path have req: "program_request ?req" unfolding program_request_def by blast
  have "packets_ok demo_packets" by (auto simp: packets_ok_def demo_packets_def)
  moreover have "plain_host (ip ?b)" by (simp add: plain_host_def is_alnum_def)
  ultimately show ?thesis
    using wire_call_exact[OF kv_lib_ok(2,2,1) _ _ _ _ req, of demo_packets ?b mem_pg "\<lambda>p. start_server [] []" demo_peer "{9001}"] sv
    by (simp add: f cluster_call_def)
qed

end
