(* ===== verification/EndToEnd.thy ===== *)
theory EndToEnd
  imports KvWire ProxySession
begin

text \<open>
  The load balancer's session in front of key-value servers: the bytes a session sends to a backend
  go through the HTTP library to the handlers and their response goes back through the session's
  parser. The lemmas give what a client of the whole system gets, and what a HEAD request does to
  the backends.
\<close>

text \<open>
  A backend in front of which the library serves the program's routes on the state \<open>w\<close>: it accepts
  the connection and all that is sent, and what it sends back after the bytes \<open>payload\<close> are the bytes
  that processing them gives, in any chunks; on the way to the server the bytes may be cut, too.
\<close>

definition served_by ::
  "http_lib \<Rightarrow> 'db server_env \<Rightarrow> HttpServer.peer \<Rightarrow> 'db server \<Rightarrow> string \<Rightarrow> conn \<Rightarrow> bool" where
  "served_by lib env p w payload c \<longleftrightarrow> reachable c \<and> (\<forall>k. 0 < k \<longrightarrow> 0 < backend_send c k) \<and>
     [] \<notin> set (backend_recv c payload) \<and>
     (\<exists>srv s w' ret closed s'. kv_http env = Inr srv \<and> stream_ok s \<and> send_results s = [] \<and> unread s = payload \<and>
        process_request lib srv p False w s = Some (w', ret, closed, s') \<and>
        sent s' = sent s @ concat (backend_recv c payload))"

lemma answer_served:
  assumes "iteration (h_ord lib)" "regex_ok lib" "served_by lib env p w payload c"
    "payload = head_text m t hs @ body" "head_ok m t hs" "request_ok lib m (map decoded hs) body"
    "serve env w (request_of m t hs body) = Some (w', res)" "length (res_body res) < 2 ^ 62"
  shows "m = ''HEAD'' \<and> res_body res \<noteq> [] \<Longrightarrow> answer c payload = None"
    "\<not> (m = ''HEAD'' \<and> res_body res \<noteq> []) \<Longrightarrow> \<exists>raw. answer c payload = Some (response (parseHTTPResponse raw)) \<and>
       rparse_status (parseHTTPResponse raw) = COMPLETE \<and> statusCode (response (parseHTTPResponse raw)) = res_status res \<and>
       resp_body (response (parseHTTPResponse raw)) = res_body res \<and> rawResponse (response (parseHTTPResponse raw)) = raw \<and>
       is_message (m = ''HEAD'') raw res"
proof -
  let ?raw = "concat (backend_recv c payload)"
  have c: "reachable c" "\<forall>k. 0 < k \<longrightarrow> 0 < backend_send c k" "[] \<notin> set (backend_recv c payload)"
    using assms(3) by (simp_all add: served_by_def)
  from assms(3) obtain srv s w1 ret closed s' where s: "kv_http env = Inr srv" "stream_ok s" "send_results s = []"
    "unread s = payload" "process_request lib srv p False w s = Some (w1, ret, closed, s')"
    "sent s' = sent s @ ?raw"
    unfolding served_by_def by blast
  have u: "unread s = head_text m t hs @ body @ []" using s(4) assms(4) by simp
  from process_serves[OF assms(1,2) s(1-3) u assms(5,6), where w = w and p = p and cc = False] assms(7) s(5,6)
  have k: "carries (m = ''HEAD'') ?raw res" using assms(8) by auto
  have t: "taken c payload = payload"
    using sendAll_complete[of "backend_send c" payload 0] c(2) by (simp add: taken_def)
  have r: "read_response [] (backend_recv c payload) =
    (let r = parseHTTPResponse ?raw
     in if rparse_status r = COMPLETE then r else r\<lparr>rparse_status := ERROR, rparse_error := closed_msg\<rparr>)"
    using read_response_sized[OF c(3), of "[]"] k by (simp add: carries_def)
  show "answer c payload = None" if "m = ''HEAD'' \<and> res_body res \<noteq> []"
    using k that by (simp add: answer_def t r carries_def Let_def)
  show "\<exists>raw. answer c payload = Some (response (parseHTTPResponse raw)) \<and>
       rparse_status (parseHTTPResponse raw) = COMPLETE \<and> statusCode (response (parseHTTPResponse raw)) = res_status res \<and>
       resp_body (response (parseHTTPResponse raw)) = res_body res \<and> rawResponse (response (parseHTTPResponse raw)) = raw \<and>
       is_message (m = ''HEAD'') raw res"
    if "\<not> (m = ''HEAD'' \<and> res_body res \<noteq> [])"
  proof -
    have "rparse_status (parseHTTPResponse ?raw) = COMPLETE \<and> statusCode (response (parseHTTPResponse ?raw)) = res_status res \<and>
        resp_body (response (parseHTTPResponse ?raw)) = res_body res \<and> rawResponse (response (parseHTTPResponse ?raw)) = ?raw \<and>
        is_message (m = ''HEAD'') ?raw res"
      using k that by (auto simp: carries_def Let_def)
    then show ?thesis using c(1) by (intro exI[of _ ?raw]) (simp add: answer_def t r Let_def)
  qed
qed

text \<open>A read whose first candidate answers, and a read no candidate answers.\<close>

lemma read_served:
  assumes "sess_inv hash fds s" "posix_net net" "\<not> is_write r"
    and "getReadBackendsForKey hash (sess_router s) (getKey r) 2 = Inr (b # bs)"
    and "answer (conns net (attempts s) b) (rawRequest r) = Some resp"
  shows "\<exists>s'. handle_request hash net r s = (Goes_on, s') \<and> sess_router s' = sess_router s \<and>
    client_log s' = client_log s @ snd (sendAll (client_send net (client_sends s)) (rawResponse resp) 0)"
proof -
  have "idle fds s" using assms(1) by (simp add: sess_inv_def)
  from read_loop_result[OF this assms(2), where hs = hash and payload = "rawRequest r" and bs = "b # bs"] assms(5)
  obtain s' where "client_sends s' = client_sends s" "client_log s' = client_log s" "sess_router s' = sess_router s"
    "read_loop hash net (rawRequest r) (b # bs) s = (True, send_client net (rawResponse resp) s')"
    by auto
  with assms(3,4) show ?thesis by (simp add: handle_request_def handle_fetch_def)
qed

lemma no_answer: "(\<And>b n. b \<in> set bs \<Longrightarrow> answer (conns net n b) payload = None) \<Longrightarrow> first_answer net payload n bs = None"
  by (induction bs arbitrary: n) auto

lemma read_unserved:
  assumes "sess_inv hash fds s" "posix_net net" "\<not> is_write r"
    and "getReadBackendsForKey hash (sess_router s) (getKey r) 2 = Inr bs" "bs \<noteq> []"
    and "first_answer net (rawRequest r) (attempts s) bs = None"
  shows "\<exists>s'. handle_request hash net r s = (Returns, s') \<and> sess_router s' = mark_all_down hash bs (sess_router s) \<and>
    client_log s' = client_log s @ snd (sendAll (client_send net (client_sends s)) err_resp 0)"
proof -
  have "idle fds s" using assms(1) by (simp add: sess_inv_def)
  from read_loop_result[OF this assms(2), where hs = hash and payload = "rawRequest r" and bs = bs] assms(6)
  obtain s' where "client_sends s' = client_sends s" "client_log s' = client_log s"
    "sess_router s' = mark_all_down hash bs (sess_router s)" "read_loop hash net (rawRequest r) bs s = (False, s')"
    by auto
  with assms(3-5) show ?thesis by (simp add: handle_request_def handle_fetch_def)
qed

subsection \<open>An instance\<close>

text \<open>Backends that all serve the demonstration request on one state.\<close>

definition demo_server :: "(string \<times> string) list server" where
  "demo_server = start_server [] []"

definition kv_answer :: "string \<Rightarrow> string" where
  "kv_answer payload =
     (case process_request kv_lib (projr (kv_http mem_pg)) demo_peer False demo_server (demo_stream [payload]) of
        Some (_, _, _, s') \<Rightarrow> sent s' | None \<Rightarrow> [])"

definition kv_net :: net where
  "kv_net = \<lparr>conns = (\<lambda>n b. \<lparr>sock_result = 5, connect_result = 0, backend_send = int,
       backend_recv = (\<lambda>payload. [kv_answer payload])\<rparr>), client_send = (\<lambda>_. int)\<rparr>"

definition demo_http :: "string \<Rightarrow> HttpRequest" where
  "demo_http m = empty_request\<lparr>req_method := m, req_path := ''/health'', req_version := ''HTTP/1.1'',
     rawRequest := head_text m ''/health'' [(''Host'', ''a'')]\<rparr>"

lemma kv_net_posix: "posix_net kv_net"
  by (simp add: posix_net_def kv_net_def)

lemma kv_net_served:
  assumes "m \<in> {''GET'', ''HEAD''}"
  shows "served_by kv_lib mem_pg demo_peer demo_server (rawRequest (demo_http m)) (conns kv_net n b)"
proof -
  let ?raw = "head_text m ''/health'' [(''Host'', ''a'')]"
  obtain srv where srv: "kv_http mem_pg = Inr srv" using kv_http_handlers[of "''GET''" mem_pg] by auto
  have s: "stream_ok (demo_stream [?raw])" "send_results (demo_stream [?raw]) = []" "sent (demo_stream [?raw]) = []"
    "unread (demo_stream [?raw]) = ?raw @ [] @ []"
    by (simp_all add: demo_stream_def stream_ok_def unread_def head_text_def request_line_text_def)
  from process_serves[OF kv_lib_ok(2,1) srv s(1,2,4) demo_head(1,2)[OF assms], where w = demo_server and p = demo_peer and cc = False]
  obtain closed s' raw where p: "process_request kv_lib srv demo_peer False demo_server (demo_stream [?raw]) =
      Some (demo_server, True, closed, s')" "sent s' = raw" "carries (m = ''HEAD'') raw (reply new_response 200 ''OK'')"
    using demo_head(3)[OF assms, of demo_server] s(3) by auto
  have "raw \<noteq> []" using p(3) by (auto simp: carries_def sized_response_def)
  moreover have "kv_answer ?raw = raw" using p srv by (simp add: kv_answer_def)
  ultimately show ?thesis
    using srv s p
    by (auto simp: served_by_def kv_net_def demo_http_def reachable_def intro!: exI[of _ "demo_stream [?raw]"])
qed

subsection \<open>Properties\<close>

text \<open>
  A read through the whole system. If the first candidate of a GET request is a backend served by a
  key-value server, the client gets exactly the bytes of the server's response, no backend changes
  its status, and for the load balancer's parser the bytes are the status and the body the handler
  gives in the state of that server.
\<close>

theorem proxied_read:
  assumes "sess_inv hash fds ss" "posix_net net"
    and "req_method r = ''GET''" "rawRequest r = head_text ''GET'' t hs @ body"
    and "getReadBackendsForKey hash (sess_router ss) (getKey r) 2 = Inr (b # bs)"
    and "iteration (h_ord lib)" "regex_ok lib" "served_by lib env p w (rawRequest r) (conns net (attempts ss) b)"
    and "head_ok ''GET'' t hs" "request_ok lib ''GET'' (map decoded hs) body"
    and "serve env w (request_of ''GET'' t hs body) = Some (w', res)" "length (res_body res) < 2 ^ 62"
    and "\<forall>k > 0. 0 < client_send net (client_sends ss) k"
  shows "\<exists>ss' raw. handle_request hash net r ss = (Goes_on, ss') \<and> sess_router ss' = sess_router ss \<and>
    client_log ss' = client_log ss @ raw \<and> rparse_status (parseHTTPResponse raw) = COMPLETE \<and>
    statusCode (response (parseHTTPResponse raw)) = res_status res \<and>
    resp_body (response (parseHTTPResponse raw)) = res_body res"
proof -
  have "\<not> (''GET'' = ''HEAD'' \<and> res_body res \<noteq> [])" by simp
  from answer_served(2)[OF assms(6-8,4,9-12) this] obtain raw where
    raw: "answer (conns net (attempts ss) b) (rawRequest r) = Some (response (parseHTTPResponse raw))"
    "rparse_status (parseHTTPResponse raw) = COMPLETE" "statusCode (response (parseHTTPResponse raw)) = res_status res"
    "resp_body (response (parseHTTPResponse raw)) = res_body res" "rawResponse (response (parseHTTPResponse raw)) = raw"
    by blast
  have "\<not> is_write r" using assms(3) by (simp add: is_write_def)
  from read_served[OF assms(1,2) this assms(5) raw(1)] raw(5) sendAll_complete[of "client_send net (client_sends ss)" raw 0] assms(13)
  obtain ss' where "handle_request hash net r ss = (Goes_on, ss')" "sess_router ss' = sess_router ss"
    "client_log ss' = client_log ss @ raw" by auto
  with raw show ?thesis by blast
qed

lemma proxied_read_witness:
  "\<exists>ss' raw. handle_request demo_hash kv_net (demo_http ''GET'') demo_session = (Goes_on, ss') \<and>
    client_log ss' = client_log demo_session @ raw \<and> statusCode (response (parseHTTPResponse raw)) = 200 \<and>
    resp_body (response (parseHTTPResponse raw)) = ''OK''"
proof -
  obtain b bs where b: "getReadBackendsForKey demo_hash (sess_router demo_session) (getKey (demo_http ''GET'')) 2 = Inr (b # bs)"
    unfolding demo_sess_router by (rule demo_read_backends[of "getKey (demo_http ''GET'')"]) (metis list.exhaust)
  have raw: "rawRequest (demo_http ''GET'') = head_text ''GET'' ''/health'' [(''Host'', ''a'')] @ []"
    by (simp add: demo_http_def)
  have m: "''GET'' \<in> {''GET'', ''HEAD''}" by simp
  from proxied_read[OF demo_sess_inv kv_net_posix _ raw b kv_lib_ok(2,1) kv_net_served[OF m] demo_head(1,2)[OF m] demo_head(3)[OF m]]
  show ?thesis by (auto simp: demo_http_def kv_net_def)
qed

text \<open>
  C7. A HEAD request marks backends DOWN. The server answers it with the length of a content it does not
  send; the session waits for the content, takes the end of the connection for a failure, and goes
  on to the next candidate: a HEAD request for a key that has a value marks every backend that could
  serve it DOWN, and the client gets the 503.
\<close>

theorem head_request_marks_down:
  assumes "sess_inv hash fds ss" "posix_net net"
    and "req_method r = ''HEAD''" "rawRequest r = head_text ''HEAD'' t hs"
    and "getReadBackendsForKey hash (sess_router ss) (getKey r) 2 = Inr bs" "bs \<noteq> []"
    and "iteration (h_ord lib)" "regex_ok lib" "head_ok ''HEAD'' t hs" "request_ok lib ''HEAD'' (map decoded hs) []"
    and "\<forall>b \<in> set bs. \<forall>n. served_by lib env p (w b) (rawRequest r) (conns net n b)"
    and "\<forall>b \<in> set bs. \<exists>w' res. serve env (w b) (request_of ''HEAD'' t hs []) = Some (w', res) \<and>
      res_body res \<noteq> [] \<and> length (res_body res) < 2 ^ 62"
  shows "\<exists>ss'. handle_request hash net r ss = (Returns, ss') \<and>
    sess_router ss' = mark_all_down hash bs (sess_router ss) \<and>
    client_log ss' = client_log ss @ snd (sendAll (client_send net (client_sends ss)) err_resp 0)"
proof -
  have none: "answer (conns net n b) (rawRequest r) = None" if b: "b \<in> set bs" for n b
  proof -
    obtain w' res where sv: "serve env (w b) (request_of ''HEAD'' t hs []) = Some (w', res)" "res_body res \<noteq> []"
      "length (res_body res) < 2 ^ 62" using assms(12) b by blast
    have "rawRequest r = head_text ''HEAD'' t hs @ []" using assms(4) by simp
    with answer_served(1)[OF assms(7,8) _ _ assms(9,10) sv(1,3)] sv(2) assms(11) b show ?thesis by blast
  qed
  then have "first_answer net (rawRequest r) (attempts ss) bs = None" by (rule no_answer)
  moreover have "\<not> is_write r" using assms(3) by (simp add: is_write_def)
  ultimately show ?thesis using read_unserved[OF assms(1,2) \<open>\<not> is_write r\<close> assms(5,6)] by fast
qed

lemma head_request_marks_down_witness:
  "\<exists>ss' bs. bs \<noteq> [] \<and> handle_request demo_hash kv_net (demo_http ''HEAD'') demo_session = (Returns, ss') \<and>
    sess_router ss' = mark_all_down demo_hash bs demo_router"
proof -
  obtain bs where b: "getReadBackendsForKey demo_hash (sess_router demo_session) (getKey (demo_http ''HEAD'')) 2 = Inr bs" "bs \<noteq> []"
    unfolding demo_sess_router by (rule demo_read_backends)
  have raw: "rawRequest (demo_http ''HEAD'') = head_text ''HEAD'' ''/health'' [(''Host'', ''a'')]"
    by (simp add: demo_http_def)
  have m: "''HEAD'' \<in> {''GET'', ''HEAD''}" by simp
  have served: "\<forall>b \<in> set bs. \<forall>n. served_by kv_lib mem_pg demo_peer demo_server (rawRequest (demo_http ''HEAD'')) (conns kv_net n b)"
    using kv_net_served[OF m] by blast
  have body: "\<forall>b \<in> set bs. \<exists>w' res. serve mem_pg demo_server (request_of ''HEAD'' ''/health'' [(''Host'', ''a'')] []) = Some (w', res) \<and>
      res_body res \<noteq> [] \<and> length (res_body res) < 2 ^ 62"
    using demo_head(3)[OF m] by simp
  from head_request_marks_down[OF demo_sess_inv kv_net_posix _ raw b kv_lib_ok(2,1) demo_head(1,2)[OF m] served body] b(2)
  show ?thesis by (auto simp: demo_http_def)
qed

end
