(* ===== verification/WholeSystem.thy ===== *)
theory WholeSystem
  imports ClientWire EndToEnd
begin

text \<open>
  A client program, the load balancer and the key-value servers together, on bytes: a request of the
  library's client is parsed by the session of the load balancer, sent to the servers, answered by
  their handlers, and the answer is read by the client. The lemmas give what the load balancer's
  parser makes of the bytes of a program's request.
\<close>

subsection \<open>The program's requests in the load balancer\<close>

text \<open>The clients of \<open>kvclient.cpp\<close> and \<open>load_gen.cpp\<close>.\<close>

definition lb_client :: "ClientImpl \<Rightarrow> bool" where
  "lb_client c \<longleftrightarrow> (\<exists>h \<in> {''localhost'', ''127.0.0.1''}. c = set_keep_alive True (new_client h 8080))"

lemma lb_client_host:
  assumes "lb_client c"
  shows "client_ok c" "cl_keep_alive c" "host_text c \<in> {''localhost:8080'', ''127.0.0.1:8080''}"
proof -
  obtain h where h: "h \<in> {''localhost'', ''127.0.0.1''}" "c = set_keep_alive True (new_client h 8080)"
    using assms by (auto simp: lb_client_def)
  have p: "plain_host h" using h(1) by (auto simp: plain_host_def is_alnum_def)
  from new_client_ok[OF p, of 8080] show "client_ok c" "cl_keep_alive c"
    by (simp_all add: h(2) set_keep_alive_def client_ok_def)
  have "string_of_int 8080 = ''8080''" by code_simp
  with h(1) show "host_text c \<in> {''localhost:8080'', ''127.0.0.1:8080''}"
    by (auto simp: h(2) set_keep_alive_def new_client_def escape_abstract_namespace_unix_domain_def host_text_def
        host_and_port_def adjust_host_string_def)
qed

lemma head_text_lines: "head_text m t hs @ body = request_text m t ''HTTP/1.1'' (map field_text hs) body"
proof -
  have "concat (map header_line hs) = concat (map (\<lambda>l. l @ CRLF) (map field_text hs))"
    by (induction hs) (simp_all add: header_line_def field_text_def CR_LF_def)
  then show ?thesis by (simp add: head_text_def request_line_text_def request_text_def CR_LF_def)
qed

lemma str_find_absent: "c \<in> set w \<Longrightarrow> c \<notin> set s \<Longrightarrow> str_find w s = None"
  using str_find_split[of w s] by (cases "str_find w s") (auto, metis UnI1 UnI2 set_append)

text \<open>No field but the length itself is taken for a length by the search of the load balancer.\<close>

lemma program_no_length:
  assumes "lb_client c" "x \<in> set (program_headers c cc m body)" "fst x \<noteq> ''Content-Length''"
  shows "str_find ''Content-Length:'' (field_text x) = None \<and> str_find ''content-length:'' (field_text x) = None"
  using assms lb_client_host(3)[OF assms(1)]
  by (auto simp: program_headers_def field_text_def split: if_splits)

lemma request_line_chars:
  assumes "plain_path p" "m \<in> {''GET'', ''DELETE'', ''POST'', ''PUT''}"
  defines "l \<equiv> m @ '' '' @ p @ '' '' @ ''HTTP/1.1''"
  shows "CHR '' '' \<notin> set p" "CHR '' '' \<notin> set m" "cr \<notin> set l" "CHR '':'' \<notin> set l"
proof -
  have p: "regex_char d" if "d \<in> set p" for d using assms(1) that by (simp add: plain_path_def list_all_iff)
  have "\<not> regex_char (CHR '':'')" by (simp add: regex_char_def is_word_def)
  with p regex_char_not(3,5) have "CHR '' '' \<notin> set p" "cr \<notin> set p" "CHR '':'' \<notin> set p" by blast+
  with assms(2) show "CHR '' '' \<notin> set p" "CHR '' '' \<notin> set m" "cr \<notin> set l" "CHR '':'' \<notin> set l"
    by (auto simp: l_def)
qed

lemma parse_program_bytes:
  assumes "iteration (h_ord lib)" "lb_client c" "program_request req"
  shows "parseHTTPRequest (request_bytes lib c req @ rest) =
    makeComplete \<lparr>req_method = rq_method req, req_path = rq_path req, req_version = ''HTTP/1.1'', req_headers = Map.empty,
      req_body = rq_body req, rawRequest = request_bytes lib c req\<rparr> (length (request_bytes lib c req))"
proof -
  let ?m = "rq_method req" and ?p = "rq_path req" and ?body = "rq_body req"
  let ?prog = "program_headers c False ?m ?body"
  let ?hs = "h_ord lib ?prog"
  let ?l = "?m @ '' '' @ ?p @ '' '' @ ''HTTP/1.1''"
  note pr = program_request_fields[OF assms(3)]
  note lc = request_line_chars[OF pr(1,4)]
  have m: "mset ?hs = mset ?prog" using assms(1) by (simp add: iteration_def)
  then have st: "set ?hs = set ?prog" by (rule mset_eq_setD)
  have bytes: "request_bytes lib c req = request_text ?m ?p ''HTTP/1.1'' (map field_text ?hs) ?body"
    using request_bytes_program[OF lb_client_host(1)[OF assms(2)] assms(3)] lb_client_host(2)[OF assms(2)]
    by (simp add: head_text_lines)
  have "\<forall>x \<in> set ?hs. field_ok x"
    using program_head_ok[OF lb_client_host(1)[OF assms(2)] assms(3,1) refl, of False] by (simp add: head_ok_def)
  then have "fields_valid ?hs" by (simp add: fields_valid_def field_ok_def)
  with fields_lines[OF this] lc(3) have lines: "\<forall>l \<in> set (?l # map field_text ?hs). l \<noteq> [] \<and> cr \<notin> set l" by auto
  have line: "str_find ''Content-Length:'' ?l = None" "str_find ''content-length:'' ?l = None"
    using lc(4) by (auto intro: str_find_absent[where c = "CHR '':''"])
  show ?thesis
  proof (cases "?m \<in> {''POST'', ''PUT''}")
    case False
    then have "\<forall>x \<in> set ?hs. fst x \<noteq> ''Content-Length''" unfolding st by (simp add: program_headers_def)
    with program_no_length[OF assms(2)] st have no: "\<forall>l \<in> set (?l # map field_text ?hs).
        str_find ''Content-Length:'' l = None \<and> str_find ''content-length:'' l = None"
      using line by auto
    have "map field_text ?hs \<noteq> []" using mset_eq_length[OF m] by (auto simp: program_headers_def)
    from parse_request_bare[OF lc(2,1) lines this no] pr(5)[OF False] show ?thesis by (simp add: bytes)
  next
    case True
    let ?cl = "(''Content-Length'', string_of_nat (length ?body))"
    have "?cl \<in> set ?hs" unfolding st using True by (simp add: program_headers_def)
    then obtain hs1 hs2 where hs: "?hs = hs1 @ ?cl # hs2" "?cl \<notin> set hs1" by (meson split_list_first)
    have "fst x \<noteq> ''Content-Length''" if "x \<in> set hs1" for x
    proof -
      have x: "x \<in> set ?prog" using that hs(1) st by auto
      then show ?thesis using hs(2) that by (auto simp: program_headers_def split: if_splits)
    qed
    moreover have "x \<in> set ?prog" if "x \<in> set hs1" for x using that hs(1) st by auto
    ultimately have "\<forall>x \<in> set hs1. str_find ''Content-Length:'' (field_text x) = None"
      using program_no_length[OF assms(2)] by blast
    then have no: "\<forall>l \<in> set (?l # map field_text hs1). str_find ''Content-Length:'' l = None"
      using line(1) by (simp del: append.simps)
    have cl: "field_text ?cl = content_length_line ?body" by (simp add: field_text_def content_length_line_def)
    have "length ?body < 2 ^ 63" using pr(2) by simp
    from parse_request_text[OF lc(2,1) _ no this, of "map field_text hs2"] lines show ?thesis
      by (simp add: bytes hs(1) cl ball_Un)
  qed
qed

subsection \<open>A request in the session\<close>

definition parsed_request :: "http_lib \<Rightarrow> ClientImpl \<Rightarrow> Request \<Rightarrow> HttpRequest" where
  "parsed_request lib c req = \<lparr>req_method = rq_method req, req_path = rq_path req, req_version = ''HTTP/1.1'',
     req_headers = Map.empty, req_body = rq_body req, rawRequest = request_bytes lib c req\<rparr>"

lemma session_gets_request:
  assumes "iteration (h_ord lib)" "lb_client c" "program_request req" "packets_ok packets"
    "handle_request hash net (parsed_request lib c req) s = (v, s')"
  shows "forwardTraffic hash net (packets (request_bytes lib c req)) s = (v, s')"
proof -
  let ?raw = "request_bytes lib c req"
  have p: "parseHTTPRequest ?raw = makeComplete (parsed_request lib c req) (length ?raw)"
    using parse_program_bytes[OF assms(1-3), of "[]"] by (simp add: parsed_request_def)
  then have ne: "?raw \<noteq> []" by (auto simp: parseHTTPRequest_def makeComplete_def makeIncomplete_def)
  have "[] \<notin> set (packets ?raw)" "concat (packets ?raw) = concat [?raw]" using assms(4) by (simp_all add: packets_ok_def)
  then have "forwardTraffic hash net (packets ?raw) s = forwardTraffic hash net [?raw] s"
    using serve_chunks_flat[OF _ waiting_Nil, of "packets ?raw"] serve_chunks_flat[OF _ waiting_Nil, of "[?raw]"] ne
    by (simp add: forwardTraffic_def)
  then show ?thesis using forward_single[OF p ne] assms(5) by simp
qed

text \<open>The key the load balancer routes by.\<close>

lemma parsed_key:
  assumes "route_key k" "rq_path req = ''/kvstore/'' @ k" "rq_body req = [] \<or> k \<noteq> ''create''"
  shows "getKey (parsed_request lib c req) = k"
proof (rule getKey_path)
  show "CHR ''/'' \<notin> set k" using route_key_chars[OF assms(1)] by simp
  show "k \<noteq> []" using assms(1) by (simp add: route_key_def)
qed (use assms in \<open>auto simp: parsed_request_def\<close>)

lemma key_path_plain:
  assumes "route_key k" "length k \<le> 8000"
  shows "plain_path (''/kvstore/'' @ k)"
  using assms by (auto simp: plain_path_def REQUEST_URI_MAX_LENGTH_def route_key_def regex_char_def is_word_def list_all_iff)

text \<open>What the handlers get of a program's request, and what the client makes of their answer.\<close>

lemma program_bytes_ok:
  assumes "iteration (h_ord lib)" "lb_client c" "program_request req"
  defines "hs \<equiv> h_ord lib (program_headers c False (rq_method req) (rq_body req))"
  shows "request_bytes lib c req = head_text (rq_method req) (rq_path req) hs @ rq_body req"
    "head_ok (rq_method req) (rq_path req) hs" "request_ok slib (rq_method req) (map decoded hs) (rq_body req)"
    "serve env w (request_of (rq_method req) (rq_path req) hs (rq_body req)) =
       serve env w (client_request (rq_method req) (rq_path req) (rq_body req))"
    "set hs = set (program_headers c False (rq_method req) (rq_body req))"
proof -
  note c = lb_client_host[OF assms(2)]
  have m: "mset hs = mset (program_headers c False (rq_method req) (rq_body req))"
    using assms(1) by (simp add: iteration_def hs_def)
  show st: "set hs = set (program_headers c False (rq_method req) (rq_body req))" by (rule mset_eq_setD[OF m])
  show "request_bytes lib c req = head_text (rq_method req) (rq_path req) hs @ rq_body req"
    using request_bytes_program[OF c(1) assms(3)] c(2) by (simp add: hs_def)
  show "head_ok (rq_method req) (rq_path req) hs" by (rule program_head_ok[OF c(1) assms(3,1)]) (simp add: hs_def)
  have sub: "set hs \<subseteq> set (program_headers c False (rq_method req) (rq_body req))" using st by simp
  show "request_ok slib (rq_method req) (map decoded hs) (rq_body req)"
    unfolding program_decoded[OF c(1) sub] by (rule request_ok_mset[OF m program_request_ok[OF assms(3)]])
  show "serve env w (request_of (rq_method req) (rq_path req) hs (rq_body req)) =
       serve env w (client_request (rq_method req) (rq_path req) (rq_body req))"
    by (rule serve_program[OF c(1) sub])
qed

subsection \<open>A read\<close>

lemma read_through:
  assumes "sess_inv hash fds ss" "posix_net net" "lb_client c" "program_request req" "rq_method req = ''GET''"
    and "iteration (h_ord clib)" "iteration (h_ord slib)" "regex_ok slib" "packets_ok packets"
    and "getReadBackendsForKey hash (sess_router ss) (getKey (parsed_request clib c req)) 2 = Inr (b # bs)"
    and "served_by slib env p w (request_bytes clib c req) (conns net (attempts ss) b)"
    and "serve env w (client_request (rq_method req) (rq_path req) (rq_body req)) = Some (w', res)" "length (res_body res) < 2 ^ 62"
    and "\<forall>n > 0. 0 < client_send net (client_sends ss) n"
  shows "\<exists>ss' raw. forwardTraffic hash net (packets (request_bytes clib c req)) ss = (Goes_on, ss') \<and>
    sess_router ss' = sess_router ss \<and> client_log ss' = client_log ss @ raw \<and>
    reply_of (fst (send_client_request clib False (Some (socket_with packets raw)) req c)) = Some (res_status res, res_body res)"
proof -
  let ?r = "parsed_request clib c req"
  note ok = program_bytes_ok[OF assms(6,3,4)]
  have sv: "serve env w (request_of (rq_method req) (rq_path req)
      (h_ord clib (program_headers c False (rq_method req) (rq_body req))) (rq_body req)) = Some (w', res)"
    by (simp add: ok(4) assms(12))
  have "\<not> (rq_method req = ''HEAD'' \<and> res_body res \<noteq> [])" using assms(5) by simp
  from answer_served(2)[OF assms(7,8,11) ok(1,2,3) sv assms(13) this] obtain raw where
    raw: "answer (conns net (attempts ss) b) (rawRequest ?r) = Some (response (parseHTTPResponse raw))"
    "rawResponse (response (parseHTTPResponse raw)) = raw" "is_message False raw res"
    using assms(5) by (auto simp: parsed_request_def)
  have "\<not> is_write ?r" by (simp add: is_write_def parsed_request_def assms(5))
  from read_served[OF assms(1,2) this assms(10) raw(1)] raw(2) sendAll_complete[of "client_send net (client_sends ss)" raw 0] assms(14)
  obtain ss' where ss': "handle_request hash net ?r ss = (Goes_on, ss')" "sess_router ss' = sess_router ss"
    "client_log ss' = client_log ss @ raw" by auto
  have "forwardTraffic hash net (packets (request_bytes clib c req)) ss = (Goes_on, ss')"
    by (rule session_gets_request[OF assms(6,3,4,9) ss'(1)])
  moreover note client_gets_message[OF assms(6) lb_client_host(1)[OF assms(3)] assms(4,9) raw(3) serve_response[OF assms(12)] assms(13)]
  ultimately show ?thesis using ss'(2,3) by blast
qed

subsection \<open>An update\<close>

text \<open>The bytes of a PUT request as the session passes them on.\<close>

definition replication_field :: "string \<times> string" where
  "replication_field = (''X-Internal-Replication'', ''true'')"

lemma put_payload_bytes:
  assumes "iteration (h_ord lib)" "lb_client c" "program_request req" "rq_method req = ''PUT''"
  defines "hs \<equiv> h_ord lib (program_headers c False (rq_method req) (rq_body req))"
  shows "request_payload (parsed_request lib c req) =
    head_text (rq_method req) (rq_path req) (replication_field # hs) @ rq_body req"
proof -
  let ?l = "request_line_text (rq_method req) (rq_path req)"
  let ?rest = "concat (map header_line hs) @ CR_LF @ rq_body req"
  note pr = program_request_fields[OF assms(3)]
  have raw: "rawRequest (parsed_request lib c req) = ?l @ CRLF @ ?rest"
    using program_bytes_ok(1)[OF assms(1-3)] by (simp add: parsed_request_def hs_def head_text_def CR_LF_def)
  have "cr \<notin> set ?l" using request_line_chars(3)[OF pr(1,4)] by (simp add: request_line_text_def)
  then have "str_find CRLF (?l @ CRLF @ ?rest) = Some (length ?l)"
    using str_find_skip[OF starts_in_absent[of cr ?l "[lf]" "CRLF @ ?rest"]] by simp
  then have "request_payload (parsed_request lib c req) = ?l @ CRLF @ replication_header @ ?rest"
    using assms(4) unfolding request_payload_def raw by (simp add: parsed_request_def)
  then show ?thesis
    by (simp add: head_text_def replication_field_def header_line_def replication_header_def CR_LF_def)
qed

text \<open>It is still a request the server reads and answers; the handler sees the replication field.\<close>

lemma request_ok_other:
  assumes "request_ok lib m hs body" "\<forall>k \<in> set (''Content-Length'' # server_fields). \<not> case_equal n k"
  shows "request_ok lib m ((n, v) # hs) body"
proof -
  have h: "header_values ((n, v) # hs) k = header_values hs k" if "k \<in> set (''Content-Length'' # server_fields)" for k
    using bspec[OF assms(2) that] by (simp add: header_values_def)
  have f: "filter (\<lambda>(n, v). case_equal n ''Content-Length'') ((n, v) # hs) = filter (\<lambda>(n, v). case_equal n ''Content-Length'') hs"
    using assms(2) by simp
  have "framed m ((n, v) # hs) body" using assms(1) h unfolding framed_def request_ok_def f by simp
  moreover have "\<forall>k \<in> {''Range'', ''Expect'', ''Transfer-Encoding'', ''Content-Encoding'', ''Accept'', ''Content-Type''}.
      header_values ((n, v) # hs) k = header_values hs k"
    using h by (simp add: server_fields_def)
  ultimately show ?thesis using assms(1) unfolding request_ok_def by (simp del: insert_iff)
qed

lemma replicated_request_ok:
  fixes lib :: http_lib
  assumes "iteration (h_ord lib)" "lb_client c" "program_request req"
  defines "hs \<equiv> replication_field # h_ord lib (program_headers c False (rq_method req) (rq_body req))"
  shows "head_ok (rq_method req) (rq_path req) hs" "request_ok slib (rq_method req) (map decoded hs) (rq_body req)"
    "has_header (request_of m t hs body) ''X-Internal-Replication''"
proof -
  let ?hs = "h_ord lib (program_headers c False (rq_method req) (rq_body req))"
  note ok = program_bytes_ok[OF assms(1-3)]
  have f: "field_ok replication_field"
    by (simp add: replication_field_def field_ok_def field_name
        field_value header_line_def CR_LF_def HEADER_MAX_LENGTH_def)
  have "length ?hs \<le> 8"
  proof -
    have "mset ?hs = mset (program_headers c False (rq_method req) (rq_body req))" using assms(1) by (simp add: iteration_def)
    from mset_eq_length[OF this] show ?thesis by (simp add: program_headers_def)
  qed
  with ok(2) f show "head_ok (rq_method req) (rq_path req) hs" by (simp add: head_ok_def hs_def HEADER_MAX_COUNT_def)
  have d: "decoded replication_field = replication_field"
    by (simp add: replication_field_def decoded_def case_equal_def decode_path_component_plain)
  have "list_all (\<lambda>k. map case_lower ''X-Internal-Replication'' \<noteq> map case_lower k) (''Content-Length'' # server_fields)"
    by (simp add: case_lower_conv server_fields_def)
  then have "\<forall>k \<in> set (''Content-Length'' # server_fields). \<not> case_equal ''X-Internal-Replication'' k"
    by (simp only: list_all_iff case_equal_iff)
  from request_ok_other[OF ok(3) this] show "request_ok slib (rq_method req) (map decoded hs) (rq_body req)"
    by (simp add: hs_def d) (simp add: replication_field_def)
  show "has_header (request_of m t hs body) ''X-Internal-Replication''"
    by (simp add: has_header_def request_of_def hs_def d headers_has_simps) (simp add: replication_field_def)
qed

text \<open>What a backend that runs the server does with such a payload, in whatever packets it arrives.\<close>

definition processed :: "http_lib \<Rightarrow> 'db server_env \<Rightarrow> HttpServer.peer \<Rightarrow> 'db server \<Rightarrow> string \<Rightarrow> 'db server \<Rightarrow> bool" where
  "processed lib env p w payload w' \<longleftrightarrow> (\<exists>srv. kv_http env = Inr srv \<and>
     (\<forall>s. stream_ok s \<longrightarrow> send_results s = [] \<longrightarrow> unread s = payload \<longrightarrow>
        (\<exists>ret closed s'. process_request lib srv p False w s = Some (w', ret, closed, s'))))"

lemma processed_serves:
  assumes "iteration (h_ord lib)" "regex_ok lib" "payload = head_text m t hs @ body"
    "head_ok m t hs" "request_ok lib m (map decoded hs) body" "serve env w (request_of m t hs body) = Some (w', res)"
  shows "processed lib env p w payload w'"
proof -
  obtain srv where srv: "kv_http env = Inr srv" using kv_http_handlers[of "''GET''" env] by auto
  have "\<exists>ret closed s'. process_request lib srv p False w s = Some (w', ret, closed, s')"
    if "stream_ok s" "send_results s = []" "unread s = payload" for s
  proof -
    have "unread s = head_text m t hs @ body @ []" using that(3) assms(3) by simp
    from process_serves[OF assms(1,2) srv that(1,2) this assms(4,5), where w = w and p = p and cc = False] assms(6)
    show ?thesis by auto
  qed
  with srv show ?thesis by (auto simp: processed_def)
qed

lemma all_answer:
  assumes "\<forall>b \<in> set bs. \<forall>n. reachable (conns net n b) \<and> taken (conns net n b) payload = payload \<and>
    (\<exists>r. answer (conns net n b) payload = Some r \<and> Q r)"
  shows "length (replies net payload n bs) = length bs \<and> (\<forall>r \<in> set (replies net payload n bs). Q r) \<and>
    routers hs net n bs rt = rt \<and> deliveries net payload n bs = map (\<lambda>b. (port b, payload)) bs"
  using assms
proof (induction bs arbitrary: n rt)
  case (Cons b bs)
  obtain r where "reachable (conns net n b)" "taken (conns net n b) payload = payload"
    "answer (conns net n b) payload = Some r" "Q r" using Cons.prems by (meson list.set_intros(1))
  with Cons.IH Cons.prems show ?case by simp
qed simp

definition updated_reply :: "int \<times> string" where
  "updated_reply = (200, ''Updated Successfully'' @ [CHR 0x0A])"

text \<open>The answer that carries the reply of a successful update.\<close>

definition is_update_answer :: "HttpResponse \<Rightarrow> bool" where
  "is_update_answer r \<longleftrightarrow> is_success r \<and> rawResponse r \<noteq> [] \<and>
     (\<exists>res. is_message False (rawResponse r) res \<and> kv_response res \<and> (res_status res, res_body res) = updated_reply)"

lemma update_serves:
  assumes "iteration (h_ord clib)" "lb_client c" "program_request req" "req = client_Put (''/kvstore/'' @ k) v ''text/plain''"
    "route_key k" "pg_table env rows" "pg_up env" "server_ok rows w"
  defines "hs \<equiv> replication_field # h_ord clib (program_headers c False (rq_method req) (rq_body req))"
  obtains w' res where
    "request_payload (parsed_request clib c req) = head_text ''PUT'' (''/kvstore/'' @ k) hs @ v"
    "head_ok ''PUT'' (''/kvstore/'' @ k) hs" "\<And>slib. request_ok slib ''PUT'' (map decoded hs) v"
    "serve env w (request_of ''PUT'' (''/kvstore/'' @ k) hs v) = Some (w', res)" "server_ok rows w'"
    "rows (srv_db w') = (rows (srv_db w))(k \<mapsto> v)" "(res_status res, res_body res) = updated_reply"
proof -
  let ?m = "''PUT''" and ?p = "''/kvstore/'' @ k"
  have f: "rq_method req = ?m" "rq_path req = ?p" "rq_body req = v"
    unfolding assms(4) client_Put_def by (rule send_with_body_fields)+
  have bytes: "request_payload (parsed_request clib c req) = head_text ?m ?p hs @ v"
    unfolding hs_def using put_payload_bytes[OF assms(1-3) f(1)] unfolding f .
  have ok: "head_ok ?m ?p hs" "\<And>slib. request_ok slib ?m (map decoded hs) v"
    "has_header (request_of ?m ?p hs v) ''X-Internal-Replication''"
    unfolding hs_def using replicated_request_ok[OF assms(1-3)] unfolding f by blast+
  let ?r = "(request_of ?m ?p hs v)\<lparr>rq_matches := [?p, k]\<rparr>"
  have route: "find_route routes ?m ?p = Some (Update, [?p, k])"
    by (rule find_route_word(1)) (use assms(5) in \<open>simp_all add: route_key_def\<close>)
  have sv: "serve env w (request_of ?m ?p hs v) = run_handler Update env w ?r"
    unfolding serve_def using route by (simp add: request_of_def del: append.simps)
  obtain w' res where res: "run_handler Update env w ?r = Some (w', res)" "server_ok rows w'"
    "kv_spec Update ?r (rows (srv_db w)) (rows (srv_db w')) (res_status res) (res_body res)"
    using run_handler_ok[OF assms(6,8), of Update ?r] assms(7) by (auto simp: handled_def split: option.splits)
  have "rows (srv_db w') = (rows (srv_db w))(k \<mapsto> v)" "(res_status res, res_body res) = updated_reply"
    using res(3) ok(3) by (simp_all add: updated_reply_def has_header_def request_of_def del: append.simps)
  with that bytes ok(1,2) res(1,2) sv show ?thesis by simp
qed

lemma update_answer:
  assumes "iteration (h_ord clib)" "iteration (h_ord slib)" "regex_ok slib" "lb_client c"
    "program_request req" "req = client_Put (''/kvstore/'' @ k) v ''text/plain''" "route_key k"
    "pg_table env rows" "pg_up env" "server_ok rows w"
  defines "payload \<equiv> request_payload (parsed_request clib c req)"
  shows "\<exists>w'. processed slib env p w payload w' \<and> server_ok rows w' \<and> rows (srv_db w') = (rows (srv_db w))(k \<mapsto> v)"
    "served_by slib env p w payload b \<Longrightarrow> \<exists>r. answer b payload = Some r \<and> is_update_answer r"
proof -
  obtain w' res hs where bytes: "payload = head_text ''PUT'' (''/kvstore/'' @ k) hs @ v"
    and ok: "head_ok ''PUT'' (''/kvstore/'' @ k) hs" "request_ok slib ''PUT'' (map decoded hs) v"
    and s: "serve env w (request_of ''PUT'' (''/kvstore/'' @ k) hs v) = Some (w', res)"
    and eff: "server_ok rows w'" "rows (srv_db w') = (rows (srv_db w))(k \<mapsto> v)" "(res_status res, res_body res) = updated_reply"
    unfolding payload_def by (rule update_serves[OF assms(1,4-10)]) blast
  from processed_serves[OF assms(2,3) bytes ok s] eff(1,2)
  show "\<exists>w'. processed slib env p w payload w' \<and> server_ok rows w' \<and> rows (srv_db w') = (rows (srv_db w))(k \<mapsto> v)" by blast
  show "\<exists>r. answer b payload = Some r \<and> is_update_answer r" if b: "served_by slib env p w payload b"
  proof -
    have len: "length (res_body res) < 2 ^ 62" using eff(3) by (simp add: updated_reply_def)
    have "\<not> (''PUT'' = ''HEAD'' \<and> res_body res \<noteq> [])" by simp
    from answer_served(2)[OF assms(2,3) b bytes ok s len this] obtain raw where
      raw: "answer b payload = Some (response (parseHTTPResponse raw))"
      "statusCode (response (parseHTTPResponse raw)) = res_status res" "rawResponse (response (parseHTTPResponse raw)) = raw"
      "is_message False raw res" by auto
    have "raw \<noteq> []" using raw(4) by (auto simp: is_message_def message_def response_line_def)
    moreover have "is_success (response (parseHTTPResponse raw))" using raw(2) eff(3) by (simp add: is_success_def updated_reply_def)
    ultimately show ?thesis using raw serve_response[OF s] eff(3) by (auto simp: is_update_answer_def)
  qed
qed

subsection \<open>An instance\<close>

text \<open>A network in which every backend runs the server on one state.\<close>

definition server_answer :: "(string \<times> string) list server \<Rightarrow> string \<Rightarrow> string" where
  "server_answer w payload =
     (case process_request kv_lib (projr (kv_http mem_pg)) demo_peer False w (demo_stream [payload]) of
        Some (_, _, _, s') \<Rightarrow> sent s' | None \<Rightarrow> [])"

definition server_net :: "(string \<times> string) list server \<Rightarrow> net" where
  "server_net w = \<lparr>conns = (\<lambda>n b. \<lparr>sock_result = 5, connect_result = 0, backend_send = int,
       backend_recv = (\<lambda>payload. [server_answer w payload])\<rparr>), client_send = (\<lambda>_. int)\<rparr>"

lemma server_net_posix: "posix_net (server_net w)"
  by (simp add: posix_net_def server_net_def)

lemma server_net_served:
  assumes "payload = head_text m t hs @ body" "head_ok m t hs" "request_ok kv_lib m (map decoded hs) body"
    "serve mem_pg w (request_of m t hs body) = Some (w', res)" "length (res_body res) < 2 ^ 62"
  shows "served_by kv_lib mem_pg demo_peer w payload (conns (server_net w) n b)"
proof -
  obtain srv where srv: "kv_http mem_pg = Inr srv" using kv_http_handlers[of "''GET''" mem_pg] by auto
  have "payload \<noteq> []" using assms(1) by (simp add: head_text_def request_line_text_def)
  then have s: "stream_ok (demo_stream [payload])" "send_results (demo_stream [payload]) = []" "sent (demo_stream [payload]) = []"
    "unread (demo_stream [payload]) = head_text m t hs @ body @ []"
    by (simp_all add: demo_stream_def stream_ok_def unread_def assms(1))
  from process_serves[OF kv_lib_ok(2,1) srv s(1,2,4) assms(2,3), where w = w and p = demo_peer and cc = False] assms(4,5)
  obtain closed s' raw where p: "process_request kv_lib srv demo_peer False w (demo_stream [payload]) = Some (w', True, closed, s')"
    "sent s' = raw" "is_message (m = ''HEAD'') raw res"
    by (auto simp: s(3) carries_def)
  have "raw \<noteq> []" using p(3) by (auto simp: is_message_def message_def response_line_def)
  moreover have "server_answer w payload = raw" using p srv by (simp add: server_answer_def)
  moreover have "unread (demo_stream [payload]) = payload" using s(4) assms(1) by simp
  ultimately show ?thesis
    using srv s(1-3) p(1,2)
    by (auto simp: served_by_def server_net_def reachable_def intro!: exI[of _ "demo_stream [payload]"])
qed

subsection \<open>Properties\<close>

lemma key_request_plain:
  assumes "route_key k" "length k \<le> 8000" "length v < 2 ^ 62"
  shows "program_request (client_Get (''/kvstore/'' @ k))" "program_request (client_Put (''/kvstore/'' @ k) v ''text/plain'')"
proof -
  have "length ([] :: string) < 2 ^ 62" by simp
  with key_path_plain[OF assms(1,2)] assms(3)
  show "program_request (client_Get (''/kvstore/'' @ k))" "program_request (client_Put (''/kvstore/'' @ k) v ''text/plain'')"
    unfolding program_request_def by blast+
qed

text \<open>
  C2. A read through the whole system, from the client's bytes to the client's result. A client program
  asks for a key through the load balancer, whose first candidate for the key runs the key-value
  server on a state with the table \<open>rows\<close>: whatever the packets and the orders of the headers, the
  session goes on, no backend changes its status, and the client gets 200 and the value of the key,
  or 404 if the table has none.
\<close>

theorem client_read_through:
  assumes "sess_inv hash fds ss" "posix_net net" "lb_client c" "route_key k" "k \<noteq> ''allkeys''" "length k \<le> 8000"
    and "iteration (h_ord clib)" "iteration (h_ord slib)" "regex_ok slib" "packets_ok packets"
    and "getReadBackendsForKey hash (sess_router ss) k 2 = Inr (b # bs)"
    and "served_by slib env p w (request_bytes clib c (client_Get (''/kvstore/'' @ k))) (conns net (attempts ss) b)"
    and "pg_table env rows" "pg_up env" "server_ok rows w" "\<forall>v \<in> ran (rows (srv_db w)). length v < 2 ^ 62"
    and "\<forall>n > 0. 0 < client_send net (client_sends ss) n"
  shows "\<exists>ss' raw. forwardTraffic hash net (packets (request_bytes clib c (client_Get (''/kvstore/'' @ k)))) ss = (Goes_on, ss') \<and>
    sess_router ss' = sess_router ss \<and> client_log ss' = client_log ss @ raw \<and>
    reply_of (fst (send_client_request clib False (Some (socket_with packets raw)) (client_Get (''/kvstore/'' @ k)) c)) =
      Some (case rows (srv_db w) k of Some v \<Rightarrow> (200, v) | None \<Rightarrow> (404, ''Key not Found'' @ [CHR 0x0A]))"
proof -
  let ?p = "''/kvstore/'' @ k"
  let ?req = "client_Get ?p"
  let ?r = "(client_request ''GET'' ?p [])\<lparr>rq_matches := [?p, k]\<rparr>"
  note f = client_Get_fields[of ?p]
  have req: "program_request ?req" by (rule key_request_plain(1)[OF assms(4,6), of "[]"]) simp
  have "getKey (parsed_request clib c ?req) = k" by (rule parsed_key[OF assms(4) f(2) disjI1[OF f(3)]])
  with assms(11) have key: "getReadBackendsForKey hash (sess_router ss) (getKey (parsed_request clib c ?req)) 2 = Inr (b # bs)"
    by simp
  have "find_route routes ''GET'' ?p = Some (Read, [?p, k])"
    by (rule find_route_word(3)) (use assms(4,5) in \<open>simp_all add: route_key_def\<close>)
  then have sv: "serve env w (client_request ''GET'' ?p []) = run_handler Read env w ?r"
    unfolding serve_def by (simp del: append.simps)
  obtain w' res where res: "run_handler Read env w ?r = Some (w', res)"
    "kv_spec Read ?r (rows (srv_db w)) (rows (srv_db w')) (res_status res) (res_body res)"
    using run_handler_ok[OF assms(13,15), of Read ?r] assms(14) by (auto simp: handled_def split: option.splits)
  have out: "(res_status res, res_body res) =
      (case rows (srv_db w) k of Some v \<Rightarrow> (200, v) | None \<Rightarrow> (404, ''Key not Found'' @ [CHR 0x0A]))"
    using res(2) by (simp del: append.simps split: option.splits)
  then have len: "length (res_body res) < 2 ^ 62"
    using assms(16) by (auto split: option.splits intro: ranI)
  have s: "serve env w (client_request (rq_method ?req) (rq_path ?req) (rq_body ?req)) = Some (w', res)"
    unfolding f sv res(1) ..
  show ?thesis
    using read_through[OF assms(1-3) req f(1) assms(7-10) key assms(12) s len assms(17)] unfolding out by blast
qed

definition demo_lb_client :: ClientImpl where
  "demo_lb_client = set_keep_alive True (new_client ''localhost'' 8080)"

definition demo_row_server :: "(string \<times> string) list server" where
  "demo_row_server = start_server [] [(''k'', ''v'')]"

lemma demo_client_ok:
  "lb_client demo_lb_client" "packets_ok demo_packets" "route_key ''k''" "server_ok map_of demo_row_server"
  "srv_db demo_row_server = [(''k'', ''v'')]"
proof -
  show "server_ok map_of demo_row_server" unfolding demo_row_server_def by (rule server_ok_start)
qed (auto simp: lb_client_def demo_lb_client_def packets_ok_def demo_packets_def route_key_def is_word_def
      demo_row_server_def start_server_def)

lemma client_read_through_witness:
  "\<exists>ss' raw. forwardTraffic demo_hash (server_net demo_row_server)
      (demo_packets (request_bytes kv_lib demo_lb_client (client_Get ''/kvstore/k''))) demo_session = (Goes_on, ss') \<and>
    client_log ss' = client_log demo_session @ raw \<and>
    reply_of (fst (send_client_request kv_lib False (Some (socket_with demo_packets raw)) (client_Get ''/kvstore/k'') demo_lb_client)) =
      Some (200, ''v'')"
proof -
  obtain b bs where b: "getReadBackendsForKey demo_hash (sess_router demo_session) ''k'' 2 = Inr (b # bs)"
    unfolding demo_sess_router by (rule demo_read_backends[of "''k''"]) (metis list.exhaust)
  have path: "''/kvstore/'' @ ''k'' = ''/kvstore/k''" by simp
  have req: "program_request (client_Get ''/kvstore/k'')"
    using key_request_plain(1)[OF demo_client_ok(3), of "[]"] by simp
  note f = client_Get_fields[of "''/kvstore/k''"]
  note ok = program_bytes_ok[OF kv_lib_ok(2) demo_client_ok(1) req, unfolded f]
  have "map_option (\<lambda>(s, res). (res_status res, res_body res)) (serve mem_pg demo_row_server (client_request ''GET'' ''/kvstore/k'' [])) =
      Some (200, ''v'')"
    by code_simp
  then obtain w' res where sv: "serve mem_pg demo_row_server (client_request ''GET'' ''/kvstore/k'' []) = Some (w', res)"
    "res_body res = ''v''" by auto
  have "served_by kv_lib mem_pg demo_peer demo_row_server (request_bytes kv_lib demo_lb_client (client_Get ''/kvstore/k''))
      (conns (server_net demo_row_server) n b)" for n
    by (rule server_net_served[OF ok(1-3), where w' = w' and res = res]) (simp_all add: ok(4) sv)
  from client_read_through[OF demo_sess_inv server_net_posix demo_client_ok(1,3) _ _ kv_lib_ok(2,2,1) demo_client_ok(2) b
      this[folded path] mem_pg_table mem_pg_up demo_client_ok(4)]
  show ?thesis by (auto simp: demo_client_ok(5) server_net_def)
qed

text \<open>
  C1. An update through the whole system. A client program changes the value of a key through the load
  balancer, all of whose candidates for the key run the key-value server: every candidate is sent
  the same bytes and sets the key to the value in its table, also if it had no such key (the load
  balancer marks every PUT as a replication, so a client's update of a missing key creates it), no
  backend changes its status, and the client is told of success.
\<close>

theorem client_update_through:
  assumes "sess_inv hash fds ss" "posix_net net" "lb_client c" "route_key k" "k \<noteq> ''create''" "length k \<le> 8000" "length v < 2 ^ 62"
    and "iteration (h_ord clib)" "iteration (h_ord slib)" "regex_ok slib" "packets_ok packets"
    and "getWriteBackendsForKey hash (sess_router ss) k 2 = Inr bs" "bs \<noteq> []"
    and "\<forall>b \<in> set bs. \<forall>n. served_by slib env p (w b)
      (request_payload (parsed_request clib c (client_Put (''/kvstore/'' @ k) v ''text/plain''))) (conns net n b)"
    and "pg_table env rows" "pg_up env" "\<forall>b \<in> set bs. server_ok rows (w b)"
    and "\<forall>n > 0. 0 < client_send net (client_sends ss) n"
  shows "\<exists>ss' raw payload. forwardTraffic hash net
      (packets (request_bytes clib c (client_Put (''/kvstore/'' @ k) v ''text/plain''))) ss = (Goes_on, ss') \<and>
    sess_router ss' = sess_router ss \<and> backend_log ss' = backend_log ss @ map (\<lambda>b. (port b, payload)) bs \<and>
    (\<forall>b \<in> set bs. \<exists>w'. processed slib env p (w b) payload w' \<and> rows (srv_db w') = (rows (srv_db (w b)))(k \<mapsto> v)) \<and>
    client_log ss' = client_log ss @ raw \<and>
    reply_of (fst (send_client_request clib False (Some (socket_with packets raw)) (client_Put (''/kvstore/'' @ k) v ''text/plain'') c)) =
      Some (200, ''Updated Successfully'' @ [CHR 0x0A])"
proof -
  let ?req = "client_Put (''/kvstore/'' @ k) v ''text/plain''"
  let ?r = "parsed_request clib c ?req"
  let ?payload = "request_payload ?r"
  let ?rs = "replies net ?payload (attempts ss) bs"
  have f: "rq_method ?req = ''PUT''" "rq_path ?req = ''/kvstore/'' @ k" by (simp_all only: client_Put_def send_with_body_fields)
  have req: "program_request ?req" by (rule key_request_plain(2)[OF assms(4,6,7)])
  note upd = update_answer[OF assms(8-10,3) req refl assms(4,15,16)]
  have ans: "\<forall>b \<in> set bs. \<forall>n. reachable (conns net n b) \<and> taken (conns net n b) ?payload = ?payload \<and>
      (\<exists>r. answer (conns net n b) ?payload = Some r \<and> is_update_answer r)"
  proof (intro ballI allI)
    fix b n assume b: "b \<in> set bs"
    have sb: "served_by slib env p (w b) ?payload (conns net n b)" using assms(14) b by blast
    then have "reachable (conns net n b)" "taken (conns net n b) ?payload = ?payload"
      using sendAll_complete[of "backend_send (conns net n b)" ?payload 0] by (simp_all add: served_by_def taken_def)
    with upd(2)[OF bspec[OF assms(17) b] sb] show "reachable (conns net n b) \<and> taken (conns net n b) ?payload = ?payload \<and>
      (\<exists>r. answer (conns net n b) ?payload = Some r \<and> is_update_answer r)" by blast
  qed
  note all = all_answer[OF ans, of "attempts ss" hash "sess_router ss"]
  have ne: "?rs \<noteq> []" using all assms(13) by (metis length_0_conv)
  define last_answer where "last_answer = last ?rs"
  have la: "is_update_answer last_answer" using all ne last_in_set unfolding last_answer_def by blast
  have "filter is_success ?rs = ?rs" using all by (auto simp: filter_id_conv is_update_answer_def)
  moreover have "\<exists>r \<in> set ?rs. is_success r" "\<forall>r \<in> set ?rs. rawResponse r \<noteq> []"
    using all ne by (auto simp: is_update_answer_def neq_Nil_conv)
  ultimately have pick: "pick [] ?rs = rawResponse last_answer" using pick_success[of ?rs "[]"] by (simp add: last_answer_def)
  have w: "is_write ?r" by (simp add: is_write_def parsed_request_def f del: append.simps)
  have key: "getWriteBackendsForKey hash (sess_router ss) (getKey ?r) 2 = Inr bs"
    using parsed_key[OF assms(4) f(2) disjI2[OF assms(5)], of clib c] assms(12) by simp
  have "idle fds ss" using assms(1) by (simp add: sess_inv_def)
  from write_loop_result[OF this assms(2), of hash ?payload bs "[]" False] w key assms(13) all ne pick
    sendAll_complete[of "client_send net (client_sends ss)" "rawResponse last_answer" 0] assms(18)
  obtain ss' where ss': "handle_request hash net ?r ss = (Goes_on, ss')" "sess_router ss' = sess_router ss"
    "backend_log ss' = backend_log ss @ map (\<lambda>b. (port b, ?payload)) bs" "client_log ss' = client_log ss @ rawResponse last_answer"
    by (auto simp: handle_request_def handle_write_def)
  have "forwardTraffic hash net (packets (request_bytes clib c ?req)) ss = (Goes_on, ss')"
    by (rule session_gets_request[OF assms(8,3) req assms(11) ss'(1)])
  moreover obtain res where "is_message False (rawResponse last_answer) res" "kv_response res" "(res_status res, res_body res) = updated_reply"
    using la by (auto simp: is_update_answer_def)
  moreover from this have "reply_of (fst (send_client_request clib False (Some (socket_with packets (rawResponse last_answer))) ?req c)) =
      Some (200, ''Updated Successfully'' @ [CHR 0x0A])"
    using client_gets_message[OF assms(8) lb_client_host(1)[OF assms(3)] req assms(11)] by (simp add: updated_reply_def)
  moreover have "\<forall>b \<in> set bs. \<exists>w'. processed slib env p (w b) ?payload w' \<and> rows (srv_db w') = (rows (srv_db (w b)))(k \<mapsto> v)"
    using upd(1) assms(17) by blast
  ultimately show ?thesis using ss'(2-4) by blast
qed

lemma client_update_through_witness:
  "\<exists>ss' raw. forwardTraffic demo_hash (server_net demo_row_server)
      (demo_packets (request_bytes kv_lib demo_lb_client (client_Put (''/kvstore/'' @ ''k'') ''x'' ''text/plain''))) demo_session =
      (Goes_on, ss') \<and>
    client_log ss' = client_log demo_session @ raw \<and>
    reply_of (fst (send_client_request kv_lib False (Some (socket_with demo_packets raw))
      (client_Put (''/kvstore/'' @ ''k'') ''x'' ''text/plain'') demo_lb_client)) = Some (200, ''Updated Successfully'' @ [CHR 0x0A])"
proof -
  let ?req = "client_Put (''/kvstore/'' @ ''k'') ''x'' ''text/plain''"
  have "\<not> ring_empty (router_ring (sess_router demo_session))"
    by (simp add: demo_router_ring ring_empty_def demo_ring_value)
  then obtain bs where bs: "getWriteBackendsForKey demo_hash (sess_router demo_session) ''k'' 2 = Inr bs" "bs \<noteq> []"
    using write_backends_exist[OF demo_router_inv, of 2 "''k''"] by auto
  have lens: "length ''k'' \<le> 8000" "length ''x'' < 2 ^ 62" by simp_all
  note req = key_request_plain(2)[OF demo_client_ok(3) lens]
  have "served_by kv_lib mem_pg demo_peer demo_row_server (request_payload (parsed_request kv_lib demo_lb_client ?req))
      (conns (server_net demo_row_server) n b)" for n b
  proof (rule update_serves[OF kv_lib_ok(2) demo_client_ok(1) req refl demo_client_ok(3) mem_pg_table mem_pg_up demo_client_ok(4)])
    fix w' res
    let ?hs = "replication_field # h_ord kv_lib (program_headers demo_lb_client False (rq_method ?req) (rq_body ?req))"
    assume "request_payload (parsed_request kv_lib demo_lb_client ?req) = head_text ''PUT'' (''/kvstore/'' @ ''k'') ?hs @ ''x''"
      "head_ok ''PUT'' (''/kvstore/'' @ ''k'') ?hs" "\<And>slib. request_ok slib ''PUT'' (map decoded ?hs) ''x''"
      "serve mem_pg demo_row_server (request_of ''PUT'' (''/kvstore/'' @ ''k'') ?hs ''x'') = Some (w', res)"
      "(res_status res, res_body res) = updated_reply"
    then show ?thesis
      by (intro server_net_served) (assumption+, simp add: updated_reply_def)
  qed
  then have "\<forall>b \<in> set bs. \<forall>n. served_by kv_lib mem_pg demo_peer demo_row_server
      (request_payload (parsed_request kv_lib demo_lb_client ?req)) (conns (server_net demo_row_server) n b)" by blast
  from client_update_through[OF demo_sess_inv server_net_posix demo_client_ok(1,3) _ lens kv_lib_ok(2,2,1) demo_client_ok(2) bs
      this mem_pg_table mem_pg_up] demo_client_ok(4)
  show ?thesis by (fastforce simp: server_net_def)
qed

end
