(* ===== verification/FormParser.thy ===== *)
theory FormParser
  imports HttpMultipart
begin

text \<open>
  The form parser reads what the writer writes. \<open>form_at\<close> says what the parser can have before it in
  each of its states, with the bytes that have not arrived yet; a turn of its loop keeps this, so that
  the result does not depend on how the form is cut into pieces. What the parser relies on of its
  callbacks is the locale \<open>form_sink\<close>.
\<close>

subsection \<open>The headers of a part\<close>

definition disposition_value :: "UploadFormData \<Rightarrow> string" where
  "disposition_value item =
     ''form-data; name='' @ [CHR 0x22] @ up_name item @ [CHR 0x22] @
     (if up_filename item \<noteq> [] then ''; filename='' @ [CHR 0x22] @ up_filename item @ [CHR 0x22] else [])"

definition item_fields :: "UploadFormData \<Rightarrow> headers" where
  "item_fields item = (''Content-Disposition'', disposition_value item) #
     (if up_content_type item \<noteq> [] then [(''Content-Type'', up_content_type item)] else [])"

definition field_line :: "string \<times> string \<Rightarrow> string" where
  "field_line x = fst x @ '': '' @ snd x"

text \<open>The part a written item is read as, before its content.\<close>

definition part_of :: "UploadFormData \<Rightarrow> FormData" where
  "part_of item = \<lparr>fd_name = up_name item, fd_content = [], fd_filename = up_filename item,
     fd_content_type = up_content_type item, fd_headers = map decoded (item_fields item)\<rparr>"

definition parameter_char :: "char \<Rightarrow> bool" where
  "parameter_char c \<longleftrightarrow> (is_field_vchar c \<or> is_space_or_tab c) \<and> c \<noteq> CHR '';'' \<and> c \<noteq> CHR ''=''"

definition item_ok :: "UploadFormData \<Rightarrow> bool" where
  "item_ok item \<longleftrightarrow> list_all parameter_char (up_name item) \<and> list_all parameter_char (up_filename item) \<and>
     is_field_value (up_content_type item) \<and>
     list_all (\<lambda>x. length (field_line x) < HEADER_MAX_LENGTH) (item_fields item)"

fun read_lines :: "string list \<Rightarrow> FormData \<Rightarrow> FormData option" where
  "read_lines [] fd = Some fd"
| "read_lines (l # ls) fd = (case form_header l fd of None \<Rightarrow> None | Some fd' \<Rightarrow> read_lines ls fd')"


lemma parameter_char_not:
  assumes "list_all parameter_char s"
  shows "CHR '';'' \<notin> set s" "CHR ''='' \<notin> set s" "one_line s"
    "c \<in> set s \<Longrightarrow> is_space_or_tab c \<or> is_field_vchar c"
proof -
  have p: "parameter_char c" if "c \<in> set s" for c using assms that by (simp add: list_all_iff)
  have "\<not> parameter_char (CHR '';'')" "\<not> parameter_char (CHR ''='')" by (simp_all add: parameter_char_def)
  then show "CHR '';'' \<notin> set s" "CHR ''='' \<notin> set s" using p by blast+
  have "\<not> parameter_char (CHR 0x0D)" "\<not> parameter_char (CHR 0x0A)"
    by (simp_all add: parameter_char_def field_value)
  then show "one_line s" unfolding one_line_def using p by blast
  show "c \<in> set s \<Longrightarrow> is_space_or_tab c \<or> is_field_vchar c" using p[of c] by (auto simp: parameter_char_def)
qed

lemma disposition_value_chars:
  assumes "c \<in> set (disposition_value item)"
  shows "c \<in> set (''form-data; name='' @ [CHR 0x22] @ ''; filename='' @ [CHR 0x22]) \<or>
    c \<in> set (up_name item) \<or> c \<in> set (up_filename item)"
  using assms unfolding disposition_value_def
  by (simp only: set_append Un_iff if_split[where P = "\<lambda>x. c \<in> set x"]) (auto simp del: set_simps)

lemma disposition_value_field:
  assumes "item_ok item"
  shows "is_field_value (disposition_value item)" "one_line (disposition_value item)"
proof -
  have ok: "list_all parameter_char (up_name item)" "list_all parameter_char (up_filename item)"
    using assms by (simp_all add: item_ok_def)
  note names = parameter_char_not(3,4)[OF ok(1)] parameter_char_not(3,4)[OF ok(2)]
  have "\<forall>c \<in> set (''form-data; name='' @ [CHR 0x22] @ ''; filename='' @ [CHR 0x22]). is_space_or_tab c \<or> is_field_vchar c"
    by code_simp
  then have "\<forall>c \<in> set (disposition_value item). is_space_or_tab c \<or> is_field_vchar c"
    using disposition_value_chars names(2,4) by meson
  moreover have "is_field_vchar (hd (disposition_value item))" "is_field_vchar (last (disposition_value item))"
    by (simp_all add: disposition_value_def is_field_vchar_def is_vchar_def)
  ultimately show "is_field_value (disposition_value item)" by (simp add: is_field_value_iff)
  show "one_line (disposition_value item)"
    using names(1,3) by (simp add: one_line_def disposition_value_def)
qed

lemma strip_quoted: "strip (a # s @ [CHR 0x22]) = a # s @ [CHR 0x22]" if "\<not> is_space_or_tab a"
  using that by (simp add: strip_def is_space_or_tab_def)

lemma strip_blank_quoted: "strip (CHR '' '' # a # s @ [CHR 0x22]) = a # s @ [CHR 0x22]" if "\<not> is_space_or_tab a"
  using that by (simp add: strip_def is_space_or_tab_def)

lemma unquote: "trim_double_quotes_copy (CHR 0x22 # s @ [CHR 0x22]) = s"
  by (simp add: trim_double_quotes_copy_def substr_def)

text \<open>A quoted parameter, and the parameters of a written item.\<close>

lemma split_parameter:
  assumes "list_all parameter_char s" "length s < 2 ^ 63" "CHR ''='' \<notin> set n" "n \<noteq> []" "length n < 16" "strip n = n"
  shows "split (n @ CHR ''='' # CHR 0x22 # s @ [CHR 0x22]) (CHR ''='') = [n, CHR 0x22 # s @ [CHR 0x22]]"
proof -
  have "pieces (CHR ''='') (n @ CHR ''='' # CHR 0x22 # s @ [CHR 0x22]) = [n, CHR 0x22 # s @ [CHR 0x22]]"
    using assms(3) parameter_char_not(2)[OF assms(1)] by (simp add: pieces_sep pieces_last)
  then show ?thesis
    using assms strip_quoted[of "CHR 0x22" s] by (subst split_pieces) (simp_all add: is_space_or_tab_def)
qed

lemma parse_disposition_params_item:
  assumes "item_ok item"
  shows "parse_disposition_params (''name='' @ [CHR 0x22] @ up_name item @ [CHR 0x22] @
      (if up_filename item \<noteq> [] then ''; filename='' @ [CHR 0x22] @ up_filename item @ [CHR 0x22] else [])) =
    (if up_filename item \<noteq> [] then [(''filename'', up_filename item)] else []) @ [(''name'', up_name item)]"
    (is "parse_disposition_params ?v = _")
proof -
  let ?n = "''name='' @ [CHR 0x22] @ up_name item @ [CHR 0x22]"
  let ?f = "''filename='' @ [CHR 0x22] @ up_filename item @ [CHR 0x22]"
  have ok: "list_all parameter_char (up_name item)" "list_all parameter_char (up_filename item)"
    and len: "length (up_name item) < 2 ^ 60" "length (up_filename item) < 2 ^ 60"
    using assms by (auto simp: item_ok_def item_fields_def field_line_def disposition_value_def HEADER_MAX_LENGTH_def split: if_splits)
  have semi: "CHR '';'' \<notin> set ?n" "CHR '';'' \<notin> set ?f" using parameter_char_not(1) ok by auto
  have "pieces (CHR '';'') ?v = (if up_filename item \<noteq> [] then [?n, CHR '' '' # ?f] else [?n])"
    using pieces_sep[OF semi(1), of "CHR '' '' # ?f"] pieces_last[OF semi(1)] pieces_last[of "CHR '';''" "CHR '' '' # ?f"] semi(2)
    by auto
  moreover have "strip ?n = ?n" "strip (CHR '' '' # ?f) = ?f"
    using strip_quoted[of "CHR ''n''" "''ame='' @ [CHR 0x22] @ up_name item"]
      strip_blank_quoted[of "CHR ''f''" "''ilename='' @ [CHR 0x22] @ up_filename item"]
    by (simp_all add: is_space_or_tab_def)
  ultimately have s: "split ?v (CHR '';'') = (if up_filename item \<noteq> [] then [?n, ?f] else [?n])"
    using len by (subst split_pieces) simp_all
  have n: "split ?n (CHR ''='') = [''name'', CHR 0x22 # up_name item @ [CHR 0x22]]"
    using split_parameter[OF ok(1), of "''name''"] len by (simp add: strip_def is_space_or_tab_def)
  have f: "split ?f (CHR ''='') = [''filename'', CHR 0x22 # up_filename item @ [CHR 0x22]]"
    using split_parameter[OF ok(2), of "''filename''"] len by (simp add: strip_def is_space_or_tab_def)
  have u: "trim_double_quotes_copy ''name'' = ''name''" "trim_double_quotes_copy ''filename'' = ''filename''"
    by (simp_all add: trim_double_quotes_copy_def)
  show ?thesis
    unfolding parse_disposition_params_def s using n f
    by (simp add: u unquote multimap_emplace_def)
qed


lemma match_disposition_item:
  assumes "item_ok item"
  shows "match_disposition (field_line (''Content-Disposition'', disposition_value item)) =
    Some (drop (length ''form-data; '') (disposition_value item))"
proof -
  have "one_line (drop (length ''form-data; '') (disposition_value item))"
    using disposition_value_field(2)[OF assms] by (meson in_set_dropD one_line_def)
  then show ?thesis
    by (simp add: match_disposition_def field_line_def disposition_value_def start_with_case_ignore_def is_space_def)
qed

lemma form_header_disposition:
  assumes "parse_header l = Some kv" "\<not> start_with_case_ignore l ''Content-Type:''" "match_disposition l = Some m"
  shows "form_header l fd = apply_disposition (parse_disposition_params m) (fd\<lparr>fd_headers := fd_headers fd @ [kv]\<rparr>)"
  using assms by (simp add: form_header_def split: prod.split)

lemma form_header_type:
  assumes "parse_header l = Some kv" "start_with_case_ignore l ''Content-Type:''"
  shows "form_header l fd = Some (fd\<lparr>fd_headers := fd_headers fd @ [kv],
    fd_content_type := trim_copy (drop (length ''Content-Type:'') l)\<rparr>)"
  using assms by (simp add: form_header_def split: prod.split)

lemma strip_field_value: "is_field_value v \<Longrightarrow> v \<noteq> [] \<Longrightarrow> strip (CHR '' '' # v) = v"
proof -
  assume a: "is_field_value v" "v \<noteq> []"
  then have b: "\<not> is_space_or_tab (hd v)" "\<not> is_space_or_tab (last v)"
    using field_vchar_not_blank by (auto simp: is_field_value_iff)
  have "is_space_or_tab (CHR '' '')" by (simp add: is_space_or_tab_def)
  moreover have "dropWhile is_space_or_tab v = v" using a b(1) by (cases v) auto
  moreover have "dropWhile is_space_or_tab (rev v) = rev v" using a b(2) by (cases v rule: rev_cases) auto
  ultimately show ?thesis by (simp add: strip_def)
qed

lemma read_item_lines:
  assumes "item_ok item"
  shows "read_lines (map field_line (item_fields item)) empty_form_data = Some (part_of item)"
proof -
  have fn: "is_field_name ''Content-Disposition''" "is_field_name ''Content-Type''"
    by (code_simp)+
  have d: "form_header (field_line (''Content-Disposition'', disposition_value item)) empty_form_data =
      Some (empty_form_data\<lparr>fd_name := up_name item, fd_filename := up_filename item,
        fd_headers := [decoded (''Content-Disposition'', disposition_value item)]\<rparr>)"
  proof -
    have h: "parse_header (field_line (''Content-Disposition'', disposition_value item)) =
        Some (decoded (''Content-Disposition'', disposition_value item))"
      using parse_header_field[OF fn(1) disposition_value_field(1)[OF assms]] by (simp add: field_line_def)
    have t: "\<not> start_with_case_ignore (field_line (''Content-Disposition'', disposition_value item)) ''Content-Type:''"
    proof -
      have "\<not> case_equal ''Content-Dispo'' ''Content-Type:''" by (simp add: case_equal_def case_lower_conv Let_def)
      then show ?thesis by (simp add: field_line_def start_with_case_ignore_def)
    qed
    have p: "parse_disposition_params (drop (length ''form-data; '') (disposition_value item)) =
      (if up_filename item \<noteq> [] then [(''filename'', up_filename item)] else []) @ [(''name'', up_name item)]"
      using parse_disposition_params_item[OF assms] by (simp add: disposition_value_def)
    show ?thesis
      unfolding form_header_disposition[OF h t match_disposition_item[OF assms]] p
      by (simp add: apply_disposition_def empty_form_data_def)
  qed
  have t: "form_header (field_line (''Content-Type'', up_content_type item)) fd =
      Some (fd\<lparr>fd_content_type := up_content_type item,
        fd_headers := fd_headers fd @ [decoded (''Content-Type'', up_content_type item)]\<rparr>)"
    if "up_content_type item \<noteq> []" for fd
  proof -
    have v: "is_field_value (up_content_type item)" using assms by (simp add: item_ok_def)
    have h: "parse_header (field_line (''Content-Type'', up_content_type item)) =
        Some (decoded (''Content-Type'', up_content_type item))"
      using parse_header_field[OF fn(2) v] by (simp add: field_line_def)
    have s: "start_with_case_ignore (field_line (''Content-Type'', up_content_type item)) ''Content-Type:''"
      by (simp add: field_line_def start_with_case_ignore_def)
    have "strip (CHR '' '' # up_content_type item) = up_content_type item"
      using v that by (rule strip_field_value)
    then have "trim_copy (drop (length ''Content-Type:'') (field_line (''Content-Type'', up_content_type item))) =
        up_content_type item"
      by (simp add: trim_copy_strip field_line_def)
    with form_header_type[OF h s] show ?thesis by simp
  qed
  show ?thesis using d t by (simp add: item_fields_def part_of_def empty_form_data_def)
qed

subsection \<open>A form as the parser sees it\<close>

text \<open>
  The written form is the opening boundary and, for each item, its header lines, a blank line, the
  content and the boundary before the next one. \<open>entry\<close> is what follows a boundary line, \<open>rest_of_form\<close>
  what follows the boundary after a part.
\<close>

definition delimiter :: "string \<Rightarrow> string" where
  "delimiter b = CR_LF @ DASH @ b"

definition header_lines :: "string list \<Rightarrow> string" where
  "header_lines ls = concat (map (\<lambda>l. l @ CR_LF) ls) @ CR_LF"

fun rest_of_form :: "string \<Rightarrow> UploadFormData list \<Rightarrow> string" where
  "rest_of_form b [] = DASH @ CR_LF"
| "rest_of_form b (item # items) =
     CR_LF @ header_lines (map field_line (item_fields item)) @ up_content item @ delimiter b @ rest_of_form b items"

lemma serialize_rest: "DASH @ b @ rest_of_form b items = serialize_multipart_formdata items b True"
proof (induction items)
  case Nil
  then show ?case by (simp add: serialize_multipart_formdata_def serialize_multipart_formdata_finish_def)
next
  case (Cons item items)
  have "DASH @ b @ rest_of_form b (item # items) = serialize_multipart_formdata_item_begin item b @ up_content item @
      CR_LF @ serialize_multipart_formdata items b True"
    by (simp add: Cons.IH[symmetric] serialize_multipart_formdata_item_begin_def header_lines_def item_fields_def
        field_line_def disposition_value_def delimiter_def)
  then show ?case by (simp add: serialize_multipart_formdata_def serialize_multipart_formdata_item_end_def)
qed

definition content_ok :: "string \<Rightarrow> string \<Rightarrow> bool" where
  "content_ok b content \<longleftrightarrow> str_find (delimiter b) (content @ delimiter b) = Some (length content)"

definition upload_ok :: "string \<Rightarrow> UploadFormData \<Rightarrow> bool" where
  "upload_ok b item \<longleftrightarrow> item_ok item \<and> content_ok b (up_content item)"

text \<open>
  What the parser can have before it: in a state, with a part begun, valid or not, \<open>rest\<close> are the bytes
  it has not used, \<open>cont\<close> what is left of the content of the part whose headers are done, and \<open>items\<close>
  are the items after that.
\<close>

inductive form_at :: "string \<Rightarrow> form_state \<Rightarrow> FormData \<Rightarrow> bool \<Rightarrow> string \<Rightarrow> string option \<Rightarrow> UploadFormData list \<Rightarrow> bool"
  for b where
  at_start: "list_all (upload_ok b) (item # items) \<Longrightarrow>
     form_at b Initial_boundary fd v (DASH @ b @ rest_of_form b (item # items)) None (item # items)"
| at_entry: "list_all (upload_ok b) (item # items) \<Longrightarrow> CR_LF @ rest = rest_of_form b (item # items) \<Longrightarrow>
     form_at b New_entry fd v rest None (item # items)"
| at_headers: "list_all (upload_ok b) (item # items) \<Longrightarrow> read_lines ls fd = Some (part_of item) \<Longrightarrow>
     list_all (\<lambda>l. l \<noteq> [] \<and> CHR 0x0D \<notin> set l \<and> length l < HEADER_MAX_LENGTH) ls \<Longrightarrow>
     form_at b Form_headers fd v (header_lines ls @ up_content item @ delimiter b @ rest_of_form b items) None (item # items)"
| at_body: "list_all (upload_ok b) items \<Longrightarrow> content_ok b content \<Longrightarrow>
     form_at b Form_body fd v (content @ delimiter b @ rest_of_form b items) (Some content) items"
| at_boundary: "list_all (upload_ok b) items \<Longrightarrow> form_at b After_boundary fd v (rest_of_form b items) None items"
| at_epilogue: "suffix rest CR_LF \<Longrightarrow> form_at b After_boundary fd True rest None []"
| at_end: "form_at b New_entry fd True [] None []"

definition parser_at :: "string \<Rightarrow> FormDataParser \<Rightarrow> string \<Rightarrow> string option \<Rightarrow> UploadFormData list \<Rightarrow> bool" where
  "parser_at b p future cont items \<longleftrightarrow> buffer_ok p \<and> fp_dash_boundary_crlf p = DASH @ b @ CR_LF \<and>
     fp_crlf_dash_boundary p = delimiter b \<and>
     form_at b (fp_state p) (fp_file p) (fp_is_valid p) (window p @ future) cont items"

text \<open>A pattern whose place in the whole text is known is found in the window, or is not all there yet.\<close>

lemma find_in_window:
  assumes "w @ future = x @ pat @ r" "str_find pat (x @ pat) = Some (length x)"
  shows "length x + length pat \<le> length w \<Longrightarrow>
      str_find pat w = Some (length x) \<and> take (length x) w = x \<and> drop (length x + length pat) w @ future = r"
    "length w < length x + length pat \<Longrightarrow> str_find pat w = None"
proof -
  have f: "str_find pat (w @ future) = Some (length x)"
    using str_find_append[OF assms(2), of r] assms(1) by simp
  show "str_find pat w = Some (length x) \<and> take (length x) w = x \<and> drop (length x + length pat) w @ future = r"
    if l: "length x + length pat \<le> length w"
  proof -
    have "take (length x) (w @ future) = take (length x) w" using l by simp
    moreover have "drop (length x + length pat) (w @ future) = drop (length x + length pat) w @ future" using l by simp
    ultimately show ?thesis using str_find_append_bounded[OF f l] assms(1) by (metis append_eq_conv_conj append.assoc length_append)
  qed
  show "str_find pat w = None" if "length w < length x + length pat"
  proof (rule ccontr)
    assume "str_find pat w \<noteq> None"
    then obtain i where i: "str_find pat w = Some i" by blast
    then have "i = length x" using str_find_append[OF i, of future] f by simp
    with str_find_bound[OF i] that show False by simp
  qed
qed

lemma content_ok_drop: "content_ok b (drop n c)" if "content_ok b c"
proof (cases "n \<le> length c")
  case True
  show ?thesis unfolding content_ok_def
  proof (rule str_findI)
    fix j assume j: "j < length (drop n c)"
    have "drop j (drop n c @ delimiter b) = drop (n + j) (c @ delimiter b)" using True by (simp add: add.commute)
    moreover have "n + j < length c" using j by simp
    ultimately show "\<not> prefix (delimiter b) (drop j (drop n c @ delimiter b))"
      using str_find_least that by (metis content_ok_def)
  qed simp_all
next
  case False
  then show ?thesis unfolding content_ok_def by (intro str_findI) simp_all
qed

lemma length_CR_LF [window_simps]: "length CR_LF = 2"
  by (simp add: CR_LF_def)

lemma CR_LF_ne [window_simps]: "CR_LF \<noteq> []"
  by (simp add: CR_LF_def)

lemma find_CR_LF: "CHR 0x0D \<notin> set l \<Longrightarrow> str_find CR_LF (l @ CR_LF) = Some (length l)"
  using str_find_crlf[of l] by (simp add: CR_LF_def)

text \<open>The items still to come, given to two functions one after the other.\<close>

fun collect :: "(FormData \<Rightarrow> 'a \<Rightarrow> 'a) \<Rightarrow> (string \<Rightarrow> 'a \<Rightarrow> 'a) \<Rightarrow> UploadFormData list \<Rightarrow> 'a \<Rightarrow> 'a" where
  "collect put add [] acc = acc"
| "collect put add (item # items) acc = collect put add items (add (up_content item) (put (part_of item) acc))"

text \<open>
  What the parser relies on of its callbacks: they take what they are given, as long as there is room
  for another part, and content given in two pieces has the same effect as at once.
\<close>

locale form_sink =
  fixes hc :: "'a header_callback" and cc :: "'a receiver"
    and put :: "FormData \<Rightarrow> 'a \<Rightarrow> 'a" and add :: "string \<Rightarrow> 'a \<Rightarrow> 'a" and room :: "nat \<Rightarrow> 'a \<Rightarrow> bool"
  assumes hc_puts: "room (Suc n) acc \<Longrightarrow> hc fd acc = (True, put fd acc)"
    and room_put: "room (Suc n) acc \<Longrightarrow> room n (put fd acc)"
    and cc_adds: "cc d acc = (True, add d acc)"
    and add_add: "add d' (add d acc) = add (d @ d') acc"
    and room_add: "room n (add d acc) = room n acc"
begin

definition result :: "string option \<Rightarrow> UploadFormData list \<Rightarrow> 'a \<Rightarrow> 'a" where
  "result cont items acc = collect put add items (case cont of None \<Rightarrow> acc | Some c \<Rightarrow> add c acc)"

lemma headers_loop_at:
  assumes "parser_at b p F None (item # items)" "fp_state p = Form_headers" "room (Suc n) acc"
  shows "buf_find p CR_LF \<le> HEADER_MAX_LENGTH"
    "(\<exists>p'. form_headers_loop hc p acc (buf_find p CR_LF) = (True, p', acc) \<and> fp_state p' = Form_headers \<and>
        parser_at b p' F None (item # items) \<and> F \<noteq> []) \<or>
     (\<exists>p'. form_headers_loop hc p acc (buf_find p CR_LF) = (True, p', put (part_of item) acc) \<and>
        fp_state p' = Form_body \<and> length (window p') < length (window p) \<and>
        parser_at b p' F (Some (up_content item)) items)"
proof -
  have "form_at b Form_headers (fp_file p) (fp_is_valid p) (window p @ F) None (item # items)"
    using assms(1,2) by (simp add: parser_at_def)
  then obtain ls where ok: "list_all (upload_ok b) (item # items)" and ls: "read_lines ls (fp_file p) = Some (part_of item)"
    "list_all (\<lambda>l. l \<noteq> [] \<and> CHR 0x0D \<notin> set l \<and> length l < HEADER_MAX_LENGTH) ls"
    "window p @ F = header_lines ls @ up_content item @ delimiter b @ rest_of_form b items"
    by (cases rule: form_at.cases) auto
  note p = assms(1)[unfolded parser_at_def]
  show "buf_find p CR_LF \<le> HEADER_MAX_LENGTH"
  proof (cases ls)
    case Nil
    then have "window p @ F = [] @ CR_LF @ up_content item @ delimiter b @ rest_of_form b items"
      using ls(3) by (simp add: header_lines_def)
    from find_in_window[OF this] p show ?thesis
      by (cases "2 \<le> length (window p)") (auto simp: buf_find_window CR_LF_def HEADER_MAX_LENGTH_def)
  next
    case (Cons l ls')
    then have "window p @ F = l @ CR_LF @ header_lines ls' @ up_content item @ delimiter b @ rest_of_form b items"
      using ls(3) by (simp add: header_lines_def)
    from find_in_window[OF this] p ls(2) Cons str_find_crlf[of l] show ?thesis
      by (cases "length l + 2 \<le> length (window p)") (auto simp: buf_find_window CR_LF_def)
  qed
  show "(\<exists>p'. form_headers_loop hc p acc (buf_find p CR_LF) = (True, p', acc) \<and> fp_state p' = Form_headers \<and>
        parser_at b p' F None (item # items) \<and> F \<noteq> []) \<or>
     (\<exists>p'. form_headers_loop hc p acc (buf_find p CR_LF) = (True, p', put (part_of item) acc) \<and>
        fp_state p' = Form_body \<and> length (window p') < length (window p) \<and>
        parser_at b p' F (Some (up_content item)) items)"
    using assms(2) p ls
  proof (induction ls arbitrary: p)
    case Nil
    let ?w = "window p"
    have w: "?w @ F = [] @ CR_LF @ up_content item @ delimiter b @ rest_of_form b items"
      using Nil.prems(5) by (simp add: header_lines_def)
    have bo: "buffer_ok p" using Nil.prems(2) by simp
    show ?case
    proof (cases "2 \<le> length ?w")
      case True
      with find_in_window(1)[OF w find_CR_LF] have f: "str_find CR_LF ?w = Some 0"
        "drop 2 ?w @ F = up_content item @ delimiter b @ rest_of_form b items"
        by (simp_all add: length_CR_LF numeral_2_eq_2)
      have w_ne: "?w \<noteq> []" using True by auto
      let ?p = "(buf_erase 2 p)\<lparr>fp_state := Form_body\<rparr>"
      have "form_headers_loop hc p acc (buf_find p CR_LF) = (True, ?p, put (part_of item) acc)"
        using True f(1) bo Nil.prems(3) hc_puts[OF assms(3)] w_ne
        by (subst form_headers_loop.simps) (simp add: window_simps)
      moreover have "parser_at b ?p F (Some (up_content item)) items"
        using Nil.prems(2) f(2) ok True window_erase[OF bo True]
        by (simp add: parser_at_def at_body upload_ok_def)
      ultimately show ?thesis using window_erase(2)[OF bo True] True by auto
    next
      case False
      then have "str_find CR_LF ?w = None" using find_in_window(2)[OF w find_CR_LF] by (simp add: length_CR_LF)
      then have "form_headers_loop hc p acc (buf_find p CR_LF) = (True, p, acc)"
        using bo by (subst form_headers_loop.simps) (simp add: window_simps)
      moreover have "F \<noteq> []" using w False by (cases F) (auto simp: CR_LF_def)
      moreover have "parser_at b p F None (item # items)"
        using Nil.prems ok at_headers[of b item items "[]"] by (simp add: parser_at_def)
      ultimately show ?thesis using Nil.prems(1) by auto
    qed
  next
    case (Cons l ls)
    let ?w = "window p"
    have w: "?w @ F = l @ CR_LF @ header_lines ls @ up_content item @ delimiter b @ rest_of_form b items"
      using Cons.prems(5) by (simp add: header_lines_def)
    have bo: "buffer_ok p" using Cons.prems(2) by simp
    have l: "l \<noteq> []" "str_find CR_LF (l @ CR_LF) = Some (length l)"
      using Cons.prems(4) find_CR_LF[of l] by simp_all
    obtain fd where fd: "form_header l (fp_file p) = Some fd" "read_lines ls fd = Some (part_of item)"
      using Cons.prems(3) by (auto split: option.splits)
    show ?case
    proof (cases "length l + 2 \<le> length ?w")
      case True
      with find_in_window(1)[OF w l(2)] have f: "str_find CR_LF ?w = Some (length l)" "take (length l) ?w = l"
        "drop (length l + 2) ?w @ F = header_lines ls @ up_content item @ delimiter b @ rest_of_form b items"
        by (simp_all add: length_CR_LF)
      let ?p = "buf_erase (length l + 2) (p\<lparr>fp_file := fd\<rparr>)"
      have bo': "buffer_ok (p\<lparr>fp_file := fd\<rparr>)" using bo by simp
      note e = window_erase[OF bo', of "length l + 2", simplified, OF True[simplified]]
      have "form_headers_loop hc p acc (buf_find p CR_LF) = form_headers_loop hc ?p acc (buf_find ?p CR_LF)"
        using True f bo l(1) fd(1)
        by (subst form_headers_loop.simps) (simp add: window_simps Let_def)
      moreover have "buffer_ok ?p \<and> fp_dash_boundary_crlf ?p = DASH @ b @ CR_LF \<and> fp_crlf_dash_boundary ?p = delimiter b \<and>
          form_at b (fp_state ?p) (fp_file ?p) (fp_is_valid ?p) (window ?p @ F) None (item # items)"
        using Cons.prems e f(3) ok fd(2) by (simp add: at_headers)
      moreover have "length (window ?p) < length ?w" using e(2) True by simp
      ultimately show ?thesis
        using Cons.IH[of ?p] Cons.prems e f(3) fd(2) by force
    next
      case False
      then have "str_find CR_LF ?w = None" using find_in_window(2)[OF w l(2)] by (simp add: length_CR_LF)
      then have "form_headers_loop hc p acc (buf_find p CR_LF) = (True, p, acc)"
        using bo by (subst form_headers_loop.simps) (simp add: window_simps)
      moreover have "F \<noteq> []" using w False by (cases F) (auto simp: CR_LF_def)
      moreover have "parser_at b p F None (item # items)" using Cons.prems(2) by (simp add: parser_at_def)
      ultimately show ?thesis using Cons.prems(1) by auto
    qed
  qed
qed

end


lemma rest_of_form_ne: "rest_of_form b items \<noteq> []"
  by (cases items) (simp_all add: DASH_def CR_LF_def)

lemma form_at_nil: "form_at b st fd v [] cont items \<Longrightarrow> v \<and> cont = None \<and> items = []"
  by (erule form_at.cases) (auto simp: header_lines_def CR_LF_def DASH_def rest_of_form_ne rest_of_form_ne[symmetric])

context form_sink begin

text \<open>One turn of the loop: it stops, or goes on with less to do, and the result will be the same.\<close>

definition loop_step :: "string \<Rightarrow> FormDataParser \<Rightarrow> string \<Rightarrow> string option \<Rightarrow> UploadFormData list \<Rightarrow> 'a \<Rightarrow> bool" where
  "loop_step b p F cont items acc \<longleftrightarrow>
     (\<exists>p' acc' cont' items'. parser_at b p' F cont' items' \<and> room (length items') acc' \<and>
        result cont' items' acc' = result cont items acc \<and>
        (form_loop hc cc p acc = (True, p', acc') \<and> (F = [] \<longrightarrow> fp_is_valid p' \<and> cont' = None \<and> items' = []) \<or>
         form_loop hc cc p acc = form_loop hc cc p' acc' \<and>
         5 * length (window p') + state_rank (fp_state p') < 5 * length (window p) + state_rank (fp_state p)))"

lemma step_stops:
  "form_loop hc cc p acc = (True, p', acc') \<Longrightarrow> parser_at b p' F cont' items' \<Longrightarrow> room (length items') acc' \<Longrightarrow>
   result cont' items' acc' = result cont items acc \<Longrightarrow> (F = [] \<Longrightarrow> fp_is_valid p' \<and> cont' = None \<and> items' = []) \<Longrightarrow>
   loop_step b p F cont items acc"
  unfolding loop_step_def by blast

lemma step_goes_on:
  "form_loop hc cc p acc = form_loop hc cc p' acc' \<Longrightarrow> parser_at b p' F cont' items' \<Longrightarrow> room (length items') acc' \<Longrightarrow>
   result cont' items' acc' = result cont items acc \<Longrightarrow>
   5 * length (window p') + state_rank (fp_state p') < 5 * length (window p) + state_rank (fp_state p) \<Longrightarrow>
   loop_step b p F cont items acc"
  unfolding loop_step_def by blast

lemma step_empty:
  assumes "parser_at b p F cont items" "room (length items) acc" "window p = []"
  shows "loop_step b p F cont items acc"
proof (rule step_stops[OF _ assms(1,2) refl])
  show "form_loop hc cc p acc = (True, p, acc)"
    using assms(1,3) by (subst form_loop.simps) (simp add: parser_at_def buf_size_window)
  show "fp_is_valid p \<and> cont = None \<and> items = []" if "F = []"
    using assms(1,3) that form_at_nil by (fastforce simp: parser_at_def)
qed

lemma step_initial:
  assumes "parser_at b p F cont items" "room (length items) acc" "window p \<noteq> []" "fp_state p = Initial_boundary"
  shows "loop_step b p F cont items acc"
proof -
  let ?pat = "DASH @ b @ CR_LF"
  let ?w = "window p"
  have p: "buffer_ok p" "fp_dash_boundary_crlf p = ?pat" "fp_crlf_dash_boundary p = delimiter b"
    "form_at b Initial_boundary (fp_file p) (fp_is_valid p) (?w @ F) cont items"
    using assms(1,4) by (simp_all add: parser_at_def)
  from p(4) obtain item its where i: "items = item # its" "cont = None" "list_all (upload_ok b) items"
    "?w @ F = DASH @ b @ rest_of_form b items"
    by (cases rule: form_at.cases) auto
  obtain rest where rest: "CR_LF @ rest = rest_of_form b items" using i(1) by simp
  then have w: "?w @ F = [] @ ?pat @ rest" using i(4) by simp
  have pat: "?pat \<noteq> []" by (simp add: DASH_def)
  then have z: "str_find ?pat ([] @ ?pat) = Some (length ([]::string))" by (intro str_findI) simp_all
  show ?thesis
  proof (cases "length ?pat \<le> length ?w")
    case True
    with find_in_window(1)[OF w z] have f: "str_find ?pat ?w = Some 0" "drop (length ?pat) ?w @ F = rest" by simp_all
    let ?p = "(buf_erase (length ?pat) p)\<lparr>fp_state := New_entry\<rparr>"
    show ?thesis
    proof (rule step_goes_on[of p acc ?p acc])
      show "form_loop hc cc p acc = form_loop hc cc ?p acc"
        using f(1) p(1,2) assms(3,4) pat by (subst form_loop.simps) (simp add: window_simps)
      show "parser_at b ?p F None items"
        using p f(2) i rest window_erase[OF p(1) True] by (simp add: parser_at_def at_entry)
      show "5 * length (window ?p) + state_rank (fp_state ?p) < 5 * length ?w + state_rank (fp_state p)"
        using assms(4) window_erase(2)[OF p(1) True] by simp
    qed (use assms(2) i(2) in simp_all)
  next
    case False
    show ?thesis
    proof (rule step_stops[OF _ assms(1,2) refl])
      have "str_find ?pat ?w = None" using find_in_window(2)[OF w z] False by simp
      then show "form_loop hc cc p acc = (True, p, acc)"
        using p(1,2) assms(3,4) pat by (subst form_loop.simps) (simp add: window_simps)
      show "fp_is_valid p \<and> cont = None \<and> items = []" if "F = []"
        using w False that by simp
    qed
  qed
qed

lemma step_entry:
  assumes "parser_at b p F cont items" "room (length items) acc" "window p \<noteq> []" "fp_state p = New_entry"
  shows "loop_step b p F cont items acc"
proof -
  let ?p = "p\<lparr>fp_file := empty_form_data, fp_state := Form_headers\<rparr>"
  have p: "buffer_ok p" "form_at b New_entry (fp_file p) (fp_is_valid p) (window p @ F) cont items"
    using assms(1,4) by (simp_all add: parser_at_def)
  from p(2) assms(3) obtain item its where i: "items = item # its" "cont = None" "list_all (upload_ok b) items"
    "CR_LF @ window p @ F = rest_of_form b items"
    by (cases rule: form_at.cases) auto
  have io: "item_ok item" using i by (simp add: upload_ok_def)
  have ct: "CHR 0x0D \<notin> set (up_content_type item)"
    using io field_value_char(1)[of "up_content_type item" "CHR 0x0D"] by (auto simp: item_ok_def)
  have lines: "l \<noteq> [] \<and> CHR 0x0D \<notin> set l \<and> length l < HEADER_MAX_LENGTH" if "l \<in> set (map field_line (item_fields item))" for l
    using that io disposition_value_field(2)[OF io] ct
    by (auto simp: item_fields_def field_line_def item_ok_def one_line_def split: if_splits)
  show ?thesis
  proof (rule step_goes_on[of p acc ?p acc])
    show "form_loop hc cc p acc = form_loop hc cc ?p acc"
      using p(1) assms(3,4) by (subst form_loop.simps) (simp add: window_simps)
    show "parser_at b ?p F None items"
      using assms(1) i at_headers[OF i(3)[unfolded i(1)] read_item_lines[OF io]] lines
      by (simp add: parser_at_def list_all_iff)
    show "5 * length (window ?p) + state_rank (fp_state ?p) < 5 * length (window p) + state_rank (fp_state p)"
      using assms(4) by simp
  qed (use assms(2) i(2) in simp_all)
qed

lemma step_headers:
  assumes "parser_at b p F cont items" "room (length items) acc" "window p \<noteq> []" "fp_state p = Form_headers"
  shows "loop_step b p F cont items acc"
proof -
  have p: "buffer_ok p" "form_at b Form_headers (fp_file p) (fp_is_valid p) (window p @ F) cont items"
    using assms(1,4) by (simp_all add: parser_at_def)
  from p(2) obtain item its where i: "items = item # its" "cont = None"
    by (cases rule: form_at.cases) auto
  have room: "room (Suc (length its)) acc" using assms(2) i by simp
  note h = headers_loop_at[OF assms(1)[unfolded i] assms(4) room]
  from h(2) show ?thesis
  proof (elim disjE exE conjE)
    fix p' assume a: "form_headers_loop hc p acc (buf_find p CR_LF) = (True, p', acc)" "fp_state p' = Form_headers"
      "parser_at b p' F None (item # its)" "F \<noteq> []"
    show ?thesis
    proof (rule step_stops[OF _ a(3)])
      show "form_loop hc cc p acc = (True, p', acc)"
        using p(1) assms(3,4) a h(1) by (subst form_loop.simps) (simp add: window_simps)
    qed (use assms(2) i a(4) in simp_all)
  next
    fix p' assume a: "form_headers_loop hc p acc (buf_find p CR_LF) = (True, p', put (part_of item) acc)"
      "fp_state p' = Form_body" "length (window p') < length (window p)" "parser_at b p' F (Some (up_content item)) its"
    show ?thesis
    proof (rule step_goes_on[OF _ a(4)])
      show "form_loop hc cc p acc = form_loop hc cc p' (put (part_of item) acc)"
        using p(1) assms(3,4) a h(1) by (subst form_loop.simps) (simp add: window_simps)
      show "room (length its) (put (part_of item) acc)" using room room_put by simp
      show "5 * length (window p') + state_rank (fp_state p') < 5 * length (window p) + state_rank (fp_state p)"
        using a(2,3) assms(4) by simp
    qed (simp add: result_def i)
  qed
qed

end

lemma delimiter_len: "2 \<le> length (delimiter b)" "delimiter b \<noteq> []"
  by (simp_all add: delimiter_def CR_LF_def)

context form_sink begin

lemma step_body:
  assumes "parser_at b p F cont items" "room (length items) acc" "window p \<noteq> []" "fp_state p = Form_body"
  shows "loop_step b p F cont items acc"
proof -
  let ?d = "delimiter b"
  let ?w = "window p"
  have p: "buffer_ok p" "fp_crlf_dash_boundary p = ?d" "form_at b Form_body (fp_file p) (fp_is_valid p) (?w @ F) cont items"
    using assms(1,4) by (simp_all add: parser_at_def)
  from p(3) obtain c where c: "cont = Some c" "list_all (upload_ok b) items" "content_ok b c"
    "?w @ F = c @ ?d @ rest_of_form b items"
    by (cases rule: form_at.cases) auto
  note find = find_in_window[OF c(4) c(3)[unfolded content_ok_def]]
  have F: "F \<noteq> []" if "length ?w < length c + length ?d"
  proof
    assume "F = []"
    then have "length ?w = length c + length ?d + length (rest_of_form b items)" using c(4) by simp
    with that show False by simp
  qed
  consider "length ?w < length ?d" | "length c + length ?d \<le> length ?w"
    | "length ?d \<le> length ?w" "length ?w < length c + length ?d" by linarith
  then show ?thesis
  proof cases
    case 1
    show ?thesis
    proof (rule step_stops[OF _ assms(1,2) refl])
      show "form_loop hc cc p acc = (True, p, acc)"
        using 1 p(1,2) assms(3,4) by (subst form_loop.simps) (simp add: window_simps)
    qed (use F 1 in simp)
  next
    case 2
    note f = find(1)[OF 2]
    let ?p = "(buf_erase (length c + length ?d) p)\<lparr>fp_state := After_boundary\<rparr>"
    have lt: "length c < length ?w" using 2 delimiter_len(1)[of b] by simp
    show ?thesis
    proof (rule step_goes_on[of p acc ?p "add c acc"])
      show "form_loop hc cc p acc = form_loop hc cc ?p (add c acc)"
        using 2 f lt p(1,2) assms(3,4) delimiter_len(2)
        by (subst form_loop.simps) (simp add: window_simps cc_adds)
      show "parser_at b ?p F None items"
        using assms(1) p f c(2) window_erase[OF p(1) 2] by (simp add: parser_at_def at_boundary)
      show "room (length items) (add c acc)" using assms(2) room_add by simp
      show "5 * length (window ?p) + state_rank (fp_state ?p) < 5 * length ?w + state_rank (fp_state p)"
        using assms(4) by (simp add: window_erase(2)[OF p(1) 2])
    qed (simp add: result_def c(1))
  next
    case 3
    let ?n = "length ?w - length ?d"
    have n: "?n < length c" "?n \<le> length ?w" using 3 by auto
    have w: "str_find ?d ?w = None" using find(2) 3 by simp
    have t: "take ?n ?w = take ?n c" "drop ?n ?w @ F = drop ?n c @ ?d @ rest_of_form b items"
    proof -
      have "take ?n (?w @ F) = take ?n (c @ ?d @ rest_of_form b items)" "drop ?n (?w @ F) = drop ?n (c @ ?d @ rest_of_form b items)"
        using c(4) by simp_all
      then show "take ?n ?w = take ?n c" "drop ?n ?w @ F = drop ?n c @ ?d @ rest_of_form b items" using n by simp_all
    qed
    show ?thesis
    proof (cases "?n = 0")
      case True
      show ?thesis
      proof (rule step_stops[OF _ assms(1,2) refl])
        show "form_loop hc cc p acc = (True, p, acc)"
          using True 3 w p(1,2) assms(3,4) delimiter_len(2)
          by (subst form_loop.simps) (simp add: window_simps)
      qed (use F 3 in simp)
    next
      case False
      note e = window_erase[OF p(1) n(2)]
      show ?thesis
      proof (rule step_stops)
        show "form_loop hc cc p acc = (True, buf_erase ?n p, add (take ?n c) acc)"
          using False 3 w t(1) p(1,2) assms(3,4) delimiter_len(2)
          by (subst form_loop.simps) (simp add: window_simps cc_adds Let_def)
        show "parser_at b (buf_erase ?n p) F (Some (drop ?n c)) items"
          using assms(1,4) e t(2) at_body[OF c(2) content_ok_drop[OF c(3)]] by (simp add: parser_at_def)
        show "room (length items) (add (take ?n c) acc)" using assms(2) room_add by simp
        show "result (Some (drop ?n c)) items (add (take ?n c) acc) = result cont items acc"
          by (simp add: result_def c(1) add_add)
      qed (use F 3 in simp)
    qed
  qed
qed

lemma step_boundary:
  assumes "parser_at b p F cont items" "room (length items) acc" "window p \<noteq> []" "fp_state p = After_boundary"
  shows "loop_step b p F cont items acc"
proof -
  let ?w = "window p"
  have p: "buffer_ok p" "form_at b After_boundary (fp_file p) (fp_is_valid p) (?w @ F) cont items"
    using assms(1,4) by (simp_all add: parser_at_def)
  have short: "form_loop hc cc p acc = (True, p, acc)" if "length ?w < 2"
    using that p(1) assms(3,4) by (subst form_loop.simps) (simp add: window_simps)
  have newline: "form_loop hc cc p acc = form_loop hc cc ((buf_erase 2 p)\<lparr>fp_state := New_entry\<rparr>) acc"
    if "prefix CR_LF ?w"
    using that prefix_length_le[OF that] p(1) assms(3,4)
    by (subst form_loop.simps) (simp add: window_simps)
  have two: "2 \<le> length ?w" if "\<not> length ?w < 2" using that by simp
  note e = window_erase[OF p(1) two]
  from p(2) show ?thesis
  proof (cases rule: form_at.cases)
    case at_boundary
    show ?thesis
    proof (cases "length ?w < 2")
      case True
      have "F \<noteq> []"
      proof
        assume "F = []"
        then show False using at_boundary(1) True by (cases items) (auto simp: CR_LF_def DASH_def)
      qed
      then show ?thesis using step_stops[OF short[OF True] assms(1,2) refl] by simp
    next
      case False
      show ?thesis
      proof (cases items)
        case Nil
        have pre: "prefix DASH ?w" "\<not> prefix CR_LF ?w"
          using False at_boundary(1) Nil by (cases ?w rule: remdups_adj.cases; simp add: DASH_def CR_LF_def)+
        have F: "suffix F CR_LF"
        proof -
          have "drop 2 ?w @ F = CR_LF"
            using False at_boundary(1) Nil by (cases ?w rule: remdups_adj.cases; simp add: DASH_def)
          then show ?thesis by (metis suffixI)
        qed
        let ?p1 = "(buf_erase 2 p)\<lparr>fp_is_valid := True\<rparr>"
        let ?p = "buf_erase (buf_size ?p1) ?p1"
        have b1: "buffer_ok ?p1" using e(1) False by simp
        have b: "buffer_ok ?p" "window ?p = []"
          using window_erase[OF b1, of "buf_size ?p1"] buf_size_window[OF b1] by simp_all
        show ?thesis
        proof (rule step_goes_on[of p acc ?p acc])
          show "form_loop hc cc p acc = form_loop hc cc ?p acc"
            using pre False p(1) assms(3,4)
            by (subst form_loop.simps) (simp add: window_simps DASH_def Let_def numeral_2_eq_2)
          show "parser_at b ?p F None items"
            using assms(1,4) b Nil at_epilogue[OF F] by (simp add: parser_at_def)
          show "5 * length (window ?p) + state_rank (fp_state ?p) < 5 * length ?w + state_rank (fp_state p)"
            using assms(3,4) b(2) by simp
        qed (use assms(2) at_boundary in simp_all)
      next
        case (Cons item its)
        have pre: "prefix CR_LF ?w" "CR_LF @ drop 2 ?w @ F = rest_of_form b items"
          using False at_boundary(1) Cons by (cases ?w rule: remdups_adj.cases; simp add: CR_LF_def)+
        let ?p = "(buf_erase 2 p)\<lparr>fp_state := New_entry\<rparr>"
        show ?thesis
        proof (rule step_goes_on[OF newline[OF pre(1)]])
          show "parser_at b ?p F None items"
            using assms(1) e[OF False] at_boundary(3) pre(2) Cons by (simp add: parser_at_def at_entry)
          show "5 * length (window ?p) + state_rank (fp_state ?p) < 5 * length ?w + state_rank (fp_state p)"
            using assms(4) e(2)[OF False] False by simp
        qed (use assms(2) at_boundary in simp_all)
      qed
    qed
  next
    case at_epilogue
    show ?thesis
    proof (cases "length ?w < 2")
      case True
      then show ?thesis using step_stops[OF short[OF True] assms(1,2) refl] at_epilogue by simp
    next
      case False
      have sfx: "suffix (?w @ F) CR_LF" using at_epilogue by simp
      have "length (?w @ F) \<le> 2" using suffix_length_le[OF sfx] by (simp add: length_CR_LF)
      with False have "length (?w @ F) = 2" by simp
      with sfx have wF: "?w @ F = CR_LF" by (metis length_CR_LF suffix_def append_Nil length_append add_cancel_left_left length_0_conv)
      with False have w: "?w = CR_LF" "F = []" by (auto simp: length_CR_LF CR_LF_def append_eq_Cons_conv)
      let ?p = "(buf_erase 2 p)\<lparr>fp_state := New_entry\<rparr>"
      show ?thesis
      proof (rule step_goes_on[OF newline])
        show "prefix CR_LF ?w" using w by simp
        show "parser_at b ?p F None []"
          using assms(1) e[OF False] w at_epilogue at_end[of b] by (simp add: parser_at_def length_CR_LF)
        show "5 * length (window ?p) + state_rank (fp_state ?p) < 5 * length ?w + state_rank (fp_state p)"
          using assms(4) e(2)[OF False] False by simp
      qed (use assms(2) at_epilogue in simp_all)
    qed
  qed
qed

end

context form_sink begin

lemma form_loop_at:
  assumes "parser_at b p F cont items" "room (length items) acc"
  shows "\<exists>p' acc' cont' items'. form_loop hc cc p acc = (True, p', acc') \<and> parser_at b p' F cont' items' \<and>
    room (length items') acc' \<and> result cont' items' acc' = result cont items acc \<and>
    (F = [] \<longrightarrow> fp_is_valid p' \<and> cont' = None \<and> items' = [])"
  using assms
proof (induction "5 * length (window p) + state_rank (fp_state p)" arbitrary: p acc cont items rule: less_induct)
  case less
  have "loop_step b p F cont items acc"
    using step_empty[OF less.prems] step_initial[OF less.prems] step_entry[OF less.prems] step_headers[OF less.prems]
      step_body[OF less.prems] step_boundary[OF less.prems]
    by (cases "window p = []"; cases "fp_state p") simp_all
  then obtain p1 acc1 cont1 items1 where s: "parser_at b p1 F cont1 items1" "room (length items1) acc1"
    "result cont1 items1 acc1 = result cont items acc"
    "form_loop hc cc p acc = (True, p1, acc1) \<and> (F = [] \<longrightarrow> fp_is_valid p1 \<and> cont1 = None \<and> items1 = []) \<or>
     form_loop hc cc p acc = form_loop hc cc p1 acc1 \<and>
     5 * length (window p1) + state_rank (fp_state p1) < 5 * length (window p) + state_rank (fp_state p)"
    unfolding loop_step_def by blast
  from s(4) show ?case
  proof
    assume "form_loop hc cc p acc = (True, p1, acc1) \<and> (F = [] \<longrightarrow> fp_is_valid p1 \<and> cont1 = None \<and> items1 = [])"
    with s(1-3) show ?thesis by blast
  next
    assume a: "form_loop hc cc p acc = form_loop hc cc p1 acc1 \<and>
      5 * length (window p1) + state_rank (fp_state p1) < 5 * length (window p) + state_rank (fp_state p)"
    with less.hyps[OF _ s(1,2)] s(3) show ?thesis by simp
  qed
qed

lemma feed_form_at:
  assumes "parser_at b p (concat ds) cont items" "room (length items) acc"
  shows "\<exists>p' acc' cont' items'. feed (form_receiver hc cc) ds (p, acc) = (True, p', acc') \<and>
    result cont' items' acc' = result cont items acc \<and>
    (ds \<noteq> [] \<longrightarrow> fp_is_valid p' \<and> cont' = None \<and> items' = [])"
  using assms
proof (induction ds arbitrary: p acc cont items)
  case Nil
  then show ?case by auto
next
  case (Cons d ds)
  have a: "parser_at b (buf_append d p) (concat ds) cont items"
    using Cons.prems(1) window_append[of p d] by (simp add: parser_at_def)
  obtain p1 acc1 cont1 items1 where s: "form_loop hc cc (buf_append d p) acc = (True, p1, acc1)"
    "parser_at b p1 (concat ds) cont1 items1" "room (length items1) acc1"
    "result cont1 items1 acc1 = result cont items acc"
    "concat ds = [] \<longrightarrow> fp_is_valid p1 \<and> cont1 = None \<and> items1 = []"
    using form_loop_at[OF a Cons.prems(2)] by blast
  have f: "feed (form_receiver hc cc) (d # ds) (p, acc) = feed (form_receiver hc cc) ds (p1, acc1)"
    using s(1) by (simp add: form_receiver_def parse_form_def)
  show ?case
  proof (cases "ds = []")
    case True
    with f s show ?thesis by auto
  next
    case False
    with Cons.IH[OF s(2,3)] f s(4) show ?thesis by auto
  qed
qed

text \<open>A written form is read back, however it is cut into pieces.\<close>

lemma written_form_read:
  assumes "list_all (upload_ok b) items" "items \<noteq> []" "room (length items) acc"
    "concat ds = serialize_multipart_formdata items b True"
  shows "\<exists>p'. feed (form_receiver hc cc) ds (set_boundary b new_form_parser, acc) = (True, p', collect put add items acc) \<and>
    fp_is_valid p'"
proof -
  obtain item its where i: "items = item # its" using assms(2) by (cases items) auto
  have t: "concat ds = DASH @ b @ rest_of_form b items" using assms(4) by (simp add: serialize_rest)
  then have ne: "ds \<noteq> []" by (auto simp: DASH_def)
  have "parser_at b (set_boundary b new_form_parser) (concat ds) None items"
    using at_start[of b item its] assms(1) i t
    by (simp add: parser_at_def set_boundary_def new_form_parser_def buffer_ok_def window_def buf_size_def delimiter_def)
  from feed_form_at[OF this assms(3)] ne show ?thesis by (auto simp: result_def)
qed

end

end
