(* ===== verification/FormUpload.thy ===== *)
theory FormUpload
  imports FormParser ResponseWire RequestWire
begin

text \<open>
  A form uploaded to the server: the callbacks of \<open>Server::read_content\<close> as the sink of the parser, and
  the request with its form as the handlers get it.
\<close>

subsection \<open>The callbacks\<close>

lemma update_newest_twice: "update_newest k f (update_newest k g m) = update_newest k (\<lambda>x. f (g x)) m"
proof -
  have keys: "key_upper_bound (m[j := (fst (m ! j), y)]) k = key_upper_bound m k" for j :: nat and y
  proof -
    have "key_upper_bound x k = length (takeWhile (\<lambda>a. a \<le> k) (map fst x))" for x :: "(string \<times> 'a) list"
      by (induction x) (auto simp: key_upper_bound_def)
    moreover have "map fst (m[j := (fst (m ! j), y)]) = map fst m"
      by (simp add: map_update) (metis list_update_beyond list_update_id map_update not_le)
    ultimately show ?thesis by simp
  qed
  have "key_upper_bound m k \<le> length m" by (simp add: key_upper_bound_def length_takeWhile_le)
  then show ?thesis by (auto simp: update_newest_def Let_def keys)
qed

lemma update_newest_emplace: "update_newest k f (multimap_emplace k v m) = multimap_emplace k (f v) m"
proof -
  let ?P = "\<lambda>(k', _). k' \<le> k"
  have "takeWhile ?P (dropWhile ?P m) = []" by (induction m) auto
  moreover have "\<forall>x \<in> set (takeWhile ?P m). ?P x" using set_takeWhileD[of _ ?P m] by fast
  ultimately have "takeWhile ?P (multimap_emplace k v m) = takeWhile ?P m @ [(k, v)]"
    by (simp add: multimap_emplace_def takeWhile_append2)
  then have "key_upper_bound (multimap_emplace k v m) k = Suc (length (takeWhile ?P m))"
    by (simp add: key_upper_bound_def)
  then show ?thesis by (simp add: update_newest_def multimap_emplace_def nth_append list_update_append)
qed

interpretation form_store: form_sink store_header store_content store_part store_bytes
  "\<lambda>n st. fs_count st + n \<le> MULTIPART_FORM_DATA_FILE_MAX_COUNT"
proof unfold_locales
  fix d d' st
  show "store_bytes d' (store_bytes d st) = store_bytes (d @ d') st"
    by (simp add: store_bytes_def Let_def update_newest_twice)
qed (auto simp: store_header_def store_content_def store_part_def store_bytes_def Let_def)

text \<open>The form an upload gives: each item among the fields or the files, in the order of the names.\<close>

definition stored :: "UploadFormData \<Rightarrow> MultipartFormData \<Rightarrow> MultipartFormData" where
  "stored item form =
     (if up_filename item = []
      then form\<lparr>mf_fields := multimap_emplace (up_name item)
             \<lparr>ff_name = up_name item, ff_content = up_content item, ff_headers = map decoded (item_fields item)\<rparr> (mf_fields form)\<rparr>
      else form\<lparr>mf_files := multimap_emplace (up_name item) ((part_of item)\<lparr>fd_content := up_content item\<rparr>) (mf_files form)\<rparr>)"

definition uploaded_form :: "UploadFormData list \<Rightarrow> MultipartFormData" where
  "uploaded_form items = fold stored items \<lparr>mf_fields = [], mf_files = []\<rparr>"

lemma collect_stored: "fs_form (collect store_part store_bytes items st) = fold stored items (fs_form st)"
proof (induction items arbitrary: st)
  case (Cons item items)
  have "fs_form (store_bytes (up_content item) (store_part (part_of item) st)) = stored item (fs_form st)"
    by (simp add: store_bytes_def store_part_def Let_def stored_def part_of_def update_newest_emplace)
  then show ?case by (simp add: Cons.IH)
qed simp


subsection \<open>An upload\<close>

text \<open>Every boundary the library makes is one it accepts.\<close>

lemma made_boundary_valid: "is_multipart_boundary_chars_valid (make_multipart_data_boundary engine)"
proof -
  have lits: "is_multipart_boundary_chars_valid ''--cpp-httplib-multipart-data-''" "list_all is_alnum boundary_chars"
    by code_simp+
  have "0 < length boundary_chars" by (simp add: boundary_chars_def)
  then have "boundary_chars ! (k mod length boundary_chars) \<in> set boundary_chars" for k by simp
  with lits show ?thesis
    by (auto simp: is_multipart_boundary_chars_valid_def make_multipart_data_boundary_def random_string_def list_all_iff)
qed

text \<open>The boundary in the content type the client sends is the one the server takes from it.\<close>

lemma boundary_char_not:
  assumes "is_multipart_boundary_chars_valid b"
  shows "CHR '';'' \<notin> set b" "CHR 0x22 \<notin> set b" "CHR 0x0D \<notin> set b"
  using assms by (auto simp: is_multipart_boundary_chars_valid_def list_all_iff is_alnum_def)

lemma parse_boundary_written:
  assumes "is_multipart_boundary_chars_valid b" "b \<noteq> []"
  shows "parse_multipart_boundary (serialize_multipart_formdata_get_content_type b) = Some b"
proof -
  let ?t = "''multipart/form-data; boundary=''"
  have f: "str_find ''boundary='' (?t @ b) = Some 21"
    using str_find_append[of "''boundary=''" ?t 21 b] by simp
  have "str_find_from '';'' (?t @ b) 21 = None"
    using boundary_char_not(1)[OF assms(1)] by (simp add: str_find_from_def str_find_single_None)
  moreover have "trim_double_quotes_copy b = b"
  proof -
    have "hd b \<noteq> CHR 0x22" using boundary_char_not(2)[OF assms(1)] assms(2) by (metis hd_in_set)
    then show ?thesis by (simp add: trim_double_quotes_copy_def)
  qed
  moreover have "drop 30 (?t @ b) = b" by simp
  moreover have "parse_multipart_boundary t = Some b"
    if "str_find ''boundary='' t = Some 21" "str_find_from '';'' t 21 = None" "drop 30 t = b" "trim_double_quotes_copy b = b" for t
    using that assms(2) by (simp add: parse_multipart_boundary_def)
  ultimately show ?thesis using f unfolding serialize_multipart_formdata_get_content_type_def by blast
qed

text \<open>A content that does not hold the delimiter is told from what follows it.\<close>

lemma content_without_delimiter:
  assumes "is_multipart_boundary_chars_valid b" "str_find (delimiter b) content = None"
  shows "content_ok b content"
  unfolding content_ok_def
proof (rule str_findI)
  fix j assume j: "j < length content"
  show "\<not> prefix (delimiter b) (drop j (content @ delimiter b))"
  proof
    assume p: "prefix (delimiter b) (drop j (content @ delimiter b))"
    show False
    proof (cases "j + length (delimiter b) \<le> length content")
      case True
      with p have "prefix (delimiter b) (drop j content)" using prefix_drop_append by blast
      with assms(2) show False by (simp add: str_find_None_iff)
    next
      case False
      define i where "i = length content - j"
      have i: "0 < i" "i < length (delimiter b)" using False j by (simp_all add: i_def)
      have "drop j (content @ delimiter b) = drop j content @ delimiter b" using j by simp
      with p have "take (length (delimiter b)) (drop j content @ delimiter b) = delimiter b" by (simp add: prefix_iff_take)
      then have "delimiter b ! i = (drop j content @ delimiter b) ! i" using i(2) by (metis nth_take)
      then have "delimiter b ! i = delimiter b ! 0" by (simp add: i_def nth_append)
      moreover have "delimiter b ! i \<noteq> CHR 0x0D"
      proof -
        obtain k where k: "i = Suc k" using i(1) by (cases i) auto
        have "(CHR 0x0A # CHR ''-'' # CHR ''-'' # b) ! k \<in> set (CHR 0x0A # CHR ''-'' # CHR ''-'' # b)"
          using i(2) k by (intro nth_mem) (simp add: delimiter_def CR_LF_def DASH_def)
        then show ?thesis using boundary_char_not(3)[OF assms(1)] k by (auto simp: delimiter_def CR_LF_def DASH_def)
      qed
      ultimately show False by (simp add: delimiter_def CR_LF_def)
    qed
  qed
qed simp_all


lemma upload_content_type:
  assumes "iteration (h_ord lib)" "header_values hs ''Content-Type'' = [serialize_multipart_formdata_get_content_type b]"
  shows "get_header_value (h_ord lib) hs ''Content-Type'' [] = serialize_multipart_formdata_get_content_type b"
  using get_header_value_in[OF assms(1), of hs "''Content-Type''" "[]"] assms(2) by simp



definition demo_items :: "UploadFormData list" where
  "demo_items =
     [\<lparr>up_name = ''a b'', up_content = ''hello'', up_filename = [], up_content_type = []\<rparr>,
      \<lparr>up_name = ''f'', up_content = CR_LF @ ''--x'', up_filename = ''x.txt'', up_content_type = ''text/plain''\<rparr>]"

definition demo_upload :: Request where
  "demo_upload = new_request\<lparr>rq_method := ''POST'', rq_headers :=
     [(''Content-Type'', serialize_multipart_formdata_get_content_type ''b-1''),
      (''Content-Length'', string_of_nat (length (serialize_multipart_formdata demo_items ''b-1'' True)))]\<rparr>"



subsection \<open>What comes after a form\<close>

text \<open>Whether the parser takes a form that arrives in these pieces as complete; a part without headers.\<close>

definition form_valid :: "string \<Rightarrow> string list \<Rightarrow> bool" where
  "form_valid b ds =
     (let (ok, p, st) = feed (form_receiver store_header store_content) ds
            (set_boundary b new_form_parser, new_store \<lparr>mf_fields = [], mf_files = []\<rparr>)
      in ok \<and> fp_is_valid p)"

definition bare_form :: string where
  "bare_form = ''--b'' @ CR_LF @ CR_LF @ ''v'' @ CR_LF @ ''--b--''"


end
