(* ===== verification/HttpChunked.thy ===== *)
theory HttpChunked
  imports HttpMessage
begin

text \<open>
  Content that a provider writes piece by piece (httplib.h: \<open>write_content\<close>,
  \<open>write_content_without_length\<close>, \<open>write_content_chunked\<close>), in a build without compression. The
  provider is given as the list of its turns: in each the server is shutting down, or the socket does
  not become writable, or the provider is called, makes calls of its sink and returns a result; a list
  that ends before the loop does is \<open>None\<close>. The lemmas show that content sent in chunks is read
  back.
\<close>

subsection \<open>Sinks\<close>

definition hex_charset :: string where
  "hex_charset = ''0123456789abcdef''"

function from_i_to_hex_loop :: "nat \<Rightarrow> string \<Rightarrow> string" where
  "from_i_to_hex_loop n ret =
     (let ret' = hex_charset ! (n mod 16) # ret
      in if 0 < n div 16 then from_i_to_hex_loop (n div 16) ret' else ret')"
  by pat_completeness auto
termination
  by (relation "measure fst") auto

declare from_i_to_hex_loop.simps [simp del]

definition from_i_to_hex :: "nat \<Rightarrow> string" where
  "from_i_to_hex n = from_i_to_hex_loop n []"

datatype sink_call = Sink_write string | Sink_done | Sink_done_with_trailer headers

datatype provider_turn = Shutting_down | Not_writable | Provided "sink_call list" bool

datatype write_outcome = Write_success | Write_error | Write_canceled

record data_sink =
  sink_ok :: bool
  sink_available :: bool
  sink_offset :: nat
  sink_strm :: stream

definition new_sink :: "nat \<Rightarrow> stream \<Rightarrow> data_sink" where
  "new_sink offset strm = \<lparr>sink_ok = True, sink_available = True, sink_offset = offset, sink_strm = strm\<rparr>"

text \<open>\<open>if (!write_data(...)) { ok = false; }\<close>\<close>

definition sink_send :: "string \<Rightarrow> data_sink \<Rightarrow> data_sink" where
  "sink_send d sk =
     (let (ok, strm') = write_data (sink_strm sk) d
      in sk\<lparr>sink_strm := strm', sink_ok := sink_ok sk \<and> ok\<rparr>)"

subsection \<open>The three writers\<close>

text \<open>
  The sink of \<open>write_content\<close>, which passes no progress function on; it has no \<open>done\<close>, and a call of
  it would be an exception.
\<close>

definition sized_write :: "string \<Rightarrow> data_sink \<Rightarrow> data_sink" where
  "sized_write d sk =
     (if sink_ok sk
      then (let sk' = sink_send d sk
            in if sink_ok sk' then sk'\<lparr>sink_offset := sink_offset sk' + length d\<rparr> else sk')
      else sk)"

fun sized_calls :: "sink_call list \<Rightarrow> data_sink \<Rightarrow> data_sink option" where
  "sized_calls [] sk = Some sk"
| "sized_calls (Sink_write d # cs) sk = sized_calls cs (sized_write d sk)"
| "sized_calls (Sink_done # cs) sk = None"
| "sized_calls (Sink_done_with_trailer trailer # cs) sk = None"

fun sized_loop :: "nat \<Rightarrow> provider_turn list \<Rightarrow> data_sink \<Rightarrow> (write_outcome \<times> data_sink) option" where
  "sized_loop end_offset ts sk =
     (if \<not> sink_offset sk < end_offset then Some (Write_success, sk)
      else (case ts of
              [] \<Rightarrow> None
            | Shutting_down # _ \<Rightarrow> Some (Write_success, sk)
            | Not_writable # _ \<Rightarrow> Some (Write_error, sk)
            | Provided calls r # ts' \<Rightarrow>
                (case sized_calls calls sk of
                   None \<Rightarrow> None
                 | Some sk' \<Rightarrow> if \<not> r then Some (Write_canceled, sk')
                              else if \<not> sink_ok sk' then Some (Write_error, sk')
                              else sized_loop end_offset ts' sk')))"

declare sized_loop.simps [simp del]

definition write_content :: "provider_turn list \<Rightarrow> nat \<Rightarrow> nat \<Rightarrow> stream \<Rightarrow> (write_outcome \<times> data_sink) option" where
  "write_content ts offset n strm = sized_loop (offset + n) ts (new_sink offset strm)"

text \<open>Without a length the content ends when the provider says so.\<close>

definition plain_write :: "string \<Rightarrow> data_sink \<Rightarrow> data_sink" where
  "plain_write d sk = (if sink_ok sk then sink_send d (sk\<lparr>sink_offset := sink_offset sk + length d\<rparr>) else sk)"

fun plain_calls :: "sink_call list \<Rightarrow> data_sink \<Rightarrow> data_sink option" where
  "plain_calls [] sk = Some sk"
| "plain_calls (Sink_write d # cs) sk = plain_calls cs (plain_write d sk)"
| "plain_calls (Sink_done # cs) sk = plain_calls cs (sk\<lparr>sink_available := False\<rparr>)"
| "plain_calls (Sink_done_with_trailer trailer # cs) sk = None"

text \<open>In chunks: a chunk for each write, and the end with its trailer, in the order of its iteration.\<close>

definition chunk_text :: "string \<Rightarrow> string" where
  "chunk_text payload = from_i_to_hex (length payload) @ CR_LF @ payload @ CR_LF"

definition chunked_write :: "string \<Rightarrow> data_sink \<Rightarrow> data_sink" where
  "chunked_write d sk =
     (if sink_ok sk
      then (let sk' = sk\<lparr>sink_available := d \<noteq> [], sink_offset := sink_offset sk + length d\<rparr>
            in if d \<noteq> [] then sink_send (chunk_text d) sk' else sk')
      else sk)"

definition done_with_trailer :: "headers \<Rightarrow> data_sink \<Rightarrow> data_sink" where
  "done_with_trailer trailer sk =
     (if sink_ok sk
      then sink_send CR_LF (fold (\<lambda>kv. sink_send (header_line kv)) trailer
             (sink_send (''0'' @ CR_LF) (sk\<lparr>sink_available := False\<rparr>)))
      else sk)"

fun chunked_calls :: "sink_call list \<Rightarrow> data_sink \<Rightarrow> data_sink option" where
  "chunked_calls [] sk = Some sk"
| "chunked_calls (Sink_write d # cs) sk = chunked_calls cs (chunked_write d sk)"
| "chunked_calls (Sink_done # cs) sk = chunked_calls cs (done_with_trailer [] sk)"
| "chunked_calls (Sink_done_with_trailer trailer # cs) sk = chunked_calls cs (done_with_trailer trailer sk)"

text \<open>The loop the two have in common.\<close>

fun available_loop ::
  "(sink_call list \<Rightarrow> data_sink \<Rightarrow> data_sink option) \<Rightarrow> provider_turn list \<Rightarrow> data_sink \<Rightarrow> (write_outcome \<times> data_sink) option" where
  "available_loop calls_of ts sk =
     (if \<not> sink_available sk then Some (Write_success, sk)
      else (case ts of
              [] \<Rightarrow> None
            | Shutting_down # _ \<Rightarrow> Some (Write_success, sk)
            | Not_writable # _ \<Rightarrow> Some (Write_error, sk)
            | Provided calls r # ts' \<Rightarrow>
                (case calls_of calls sk of
                   None \<Rightarrow> None
                 | Some sk' \<Rightarrow> if \<not> r then Some (Write_canceled, sk')
                              else if \<not> sink_ok sk' then Some (Write_error, sk')
                              else available_loop calls_of ts' sk')))"

declare available_loop.simps [simp del]

text \<open>\<open>write_content_without_length\<close> returns whether the outcome is a success.\<close>

definition write_content_without_length :: "provider_turn list \<Rightarrow> stream \<Rightarrow> (bool \<times> data_sink) option" where
  "write_content_without_length ts strm =
     map_option (\<lambda>(r, sk). (r = Write_success, sk)) (available_loop plain_calls ts (new_sink 0 strm))"

definition write_content_chunked :: "provider_turn list \<Rightarrow> stream \<Rightarrow> (write_outcome \<times> data_sink) option" where
  "write_content_chunked ts strm = available_loop chunked_calls ts (new_sink 0 strm)"


subsection \<open>Sizes of chunks\<close>

lemma hex_charset_is_hex: "v < 16 \<Longrightarrow> is_hex (hex_charset ! v) = Some v"
proof -
  have "list_all (\<lambda>v. is_hex (hex_charset ! v) = Some v) [0..<16]" by code_simp
  then show "v < 16 \<Longrightarrow> is_hex (hex_charset ! v) = Some v" by (simp add: list_all_iff)
qed

abbreviation hex_step :: "nat \<Rightarrow> char \<Rightarrow> nat" where
  "hex_step n c \<equiv> 16 * n + the (is_hex c)"

lemma from_i_to_hex_loop_value: "foldl hex_step 0 (from_i_to_hex_loop n ret) = foldl hex_step n ret"
proof (induction n ret rule: from_i_to_hex_loop.induct)
  case (1 n ret)
  have d: "hex_step (n div 16) (hex_charset ! (n mod 16)) = n" by (simp add: hex_charset_is_hex)
  show ?case
  proof (cases "0 < n div 16")
    case True
    then show ?thesis
      using "1.IH"[OF refl] d by (subst from_i_to_hex_loop.simps) simp
  next
    case False
    then have "n div 16 = 0" by simp
    with d False show ?thesis by (subst from_i_to_hex_loop.simps) (simp add: hex_charset_is_hex)
  qed
qed

lemma from_i_to_hex_loop_chars:
  "list_all (\<lambda>c. is_hex c \<noteq> None) ret \<Longrightarrow>
   from_i_to_hex_loop n ret \<noteq> [] \<and> list_all (\<lambda>c. is_hex c \<noteq> None) (from_i_to_hex_loop n ret)"
proof (induction n ret rule: from_i_to_hex_loop.induct)
  case (1 n ret)
  then show ?case by (subst (1 2) from_i_to_hex_loop.simps) (simp add: Let_def hex_charset_is_hex)
qed

lemma from_i_to_hex_loop_length: "n < 16 ^ Suc k \<Longrightarrow> length (from_i_to_hex_loop n ret) \<le> Suc k + length ret"
proof (induction k arbitrary: n ret)
  case 0
  then show ?case by (subst from_i_to_hex_loop.simps) simp
next
  case (Suc k)
  then have "n div 16 < 16 ^ Suc k" by (simp add: less_mult_imp_div_less mult.commute)
  with Suc.IH[of "n div 16" "hex_charset ! (n mod 16) # ret"] show ?case
    by (subst from_i_to_hex_loop.simps) (simp add: Let_def)
qed

lemma from_i_to_hex_chars:
  "from_i_to_hex n \<noteq> []" "c \<in> set (from_i_to_hex n) \<Longrightarrow> is_hex c \<noteq> None"
  using from_i_to_hex_loop_chars[of "[]" n] by (auto simp: from_i_to_hex_def list_all_iff)

lemma hex_char_not:
  assumes "is_hex c \<noteq> None"
  shows "\<not> is_space c" "c \<noteq> CHR ''-''" "c \<noteq> CHR ''+''" "c \<noteq> CHR ''x''" "c \<noteq> CHR ''X''" "c \<noteq> CHR 0x0D" "c \<noteq> CHR 0x00"
  using assms by (auto simp: is_hex_def is_space_def)

text \<open>\<open>strtoul\<close> reads the size a chunk is written with.\<close>

lemma strtoul16_size:
  assumes "n < 2 ^ 64"
  shows "strtoul16 (from_i_to_hex n @ CR_LF) = Some n"
proof -
  obtain c h where h: "from_i_to_hex n = c # h" using from_i_to_hex_chars(1)[of n] by (cases "from_i_to_hex n") auto
  have hex: "is_hex x \<noteq> None" if "x \<in> set (c # h)" for x using from_i_to_hex_chars(2)[of x n] that h by simp
  have c: "is_hex c \<noteq> None" using hex by simp
  have s: "split_sign (dropWhile is_space (c # h @ CR_LF)) = (False, c # h @ CR_LF)"
    using hex_char_not[OF c] by (simp add: split_sign_def)
  have x: "(c # h @ CR_LF) ! 1 \<noteq> CHR ''x''" "(c # h @ CR_LF) ! 1 \<noteq> CHR ''X''"
    using hex_char_not(4,5) hex by (cases h; auto simp: CR_LF_def)+
  have "is_hex (CHR 0x0D) = None" by (simp add: is_hex_def)
  then have t: "takeWhile (\<lambda>c. is_hex c \<noteq> None) (c # h @ CR_LF) = c # h"
    using hex takeWhile_append2[of "c # h" "\<lambda>c. is_hex c \<noteq> None" CR_LF] by (simp add: CR_LF_def)
  have v: "foldl hex_step 0 (c # h) = n"
    using from_i_to_hex_loop_value[of n "[]"] h by (simp add: from_i_to_hex_def)
  show ?thesis
    unfolding strtoul16_def h append_Cons s Let_def prod.case using x t v assms by simp
qed

lemma size_line_read:
  assumes "n < 2 ^ 64"
  shows "read_line en (from_i_to_hex n @ CR_LF @ r) = (True, from_i_to_hex n @ CR_LF, r)"
proof -
  have "CHR 0x0D \<notin> set (from_i_to_hex n)" using from_i_to_hex_chars(2) hex_char_not(6) by blast
  moreover have "length (from_i_to_hex n) \<le> 16"
    using from_i_to_hex_loop_length[of n 15 "[]"] assms by (simp add: from_i_to_hex_def)
  ultimately show ?thesis
    using read_line_crlf[OF str_find_crlf, of "from_i_to_hex n" en r] by (simp add: CR_LF_def MAX_LINE_LENGTH_def)
qed


subsection \<open>Chunks read back\<close>

text \<open>The line with the size of the next chunk, and what follows it up to the line of the last size.\<close>

definition next_size :: "string list \<Rightarrow> string" where
  "next_size ds = from_i_to_hex (case ds of [] \<Rightarrow> 0 | d # _ \<Rightarrow> length d) @ CR_LF"

fun after_size :: "string list \<Rightarrow> string" where
  "after_size [] = []"
| "after_size (d # ds) = d @ CR_LF @ next_size ds @ after_size ds"

lemma hex_zero: "from_i_to_hex 0 = ''0''"
  by (simp add: from_i_to_hex_def from_i_to_hex_loop.simps hex_charset_def)

lemma chunks_as_lines: "concat (map chunk_text ds) @ ''0'' @ CR_LF = next_size ds @ after_size ds"
  by (induction ds) (simp_all add: next_size_def chunk_text_def hex_zero)

lemma next_size_c_str: "line_text lr = next_size ds \<Longrightarrow> line_c_str lr = next_size ds"
proof -
  assume lr: "line_text lr = next_size ds"
  have "c \<noteq> CHR 0x00" if "c \<in> set (next_size ds)" for c
    using that from_i_to_hex_chars(2) hex_char_not(7) by (auto simp: next_size_def CR_LF_def)
  with lr show ?thesis by (simp add: line_c_str_def takeWhile_eq_all_conv)
qed

lemma chunk_loop_reads:
  assumes "stream_ok s" "unread s = after_size ds @ r" "line_text lr = next_size ds" "\<forall>d \<in> set ds. d \<noteq> []"
    "t + length (concat ds) \<le> most" "length (concat ds) < 2 ^ 64 - 1"
  shows "\<exists>lr' s'. chunk_loop append_receiver most lr t acc s = (Success, acc @ concat ds, lr', s') \<and>
    unread s' = r \<and> stream_ok s' \<and> arrival_end s' = arrival_end s \<and> sent s' = sent s \<and> send_results s' = send_results s"
  using assms
proof (induction ds arbitrary: s lr t acc)
  case Nil
  then have "strtoul16 (line_c_str lr) = Some 0"
    using next_size_c_str[OF Nil.prems(3)] strtoul16_size[of 0] by (simp add: next_size_def)
  with Nil.prems show ?case by (subst chunk_loop.simps) simp
next
  case (Cons d ds)
  have len: "length d < 2 ^ 64 - 1" "length d \<le> most" using Cons.prems(5,6) by simp_all
  have n: "strtoul16 (line_c_str lr) = Some (length d)"
    using next_size_c_str[OF Cons.prems(3)] strtoul16_size[of "length d"] len by (simp add: next_size_def)
  have u: "unread s = d @ CR_LF @ next_size ds @ after_size ds @ r" using Cons.prems(2) by simp
  have avail: "(0::nat) \<le> length d" "length d - 0 \<le> length (unread s)" using u by simp_all
  obtain pieces s1 where s1: "concat pieces = d" "unread s1 = CR_LF @ next_size ds @ after_size ds @ r" "stream_ok s1"
    "arrival_end s1 = arrival_end s" "sent s1 = sent s" "send_results s1 = send_results s"
    "\<And>acc acc'. feed append_receiver pieces acc = (True, acc') \<Longrightarrow>
      content_loop append_receiver (length d) 0 acc s = (True, acc', s1)"
    by (rule content_loop_feeds[OF Cons.prems(1) avail, of append_receiver]) (use u in simp)
  have c: "read_content_with_length append_receiver s (length d) acc = (True, acc @ d, s1)"
    using s1(1,7) by (simp add: read_content_with_length_def feed_append)
  obtain lr2 s2 where s2: "line_getline lr s1 = (True, lr2, s2)" "line_text lr2 = CR_LF"
    "unread s2 = next_size ds @ after_size ds @ r" "stream_ok s2" "arrival_end s2 = arrival_end s1"
    "sent s2 = sent s1" "send_results s2 = send_results s1"
    using line_getline_read_line[OF s1(3), of lr] s1(2)
      read_line_crlf[of "[]" "arrival_end s1" "next_size ds @ after_size ds @ r"]
    by (simp add: CR_LF_def MAX_LINE_LENGTH_def) (metis prod.inject)
  have c2: "line_c_str lr2 = CR_LF" using s2(2) by (simp add: line_c_str_def CR_LF_def)
  have "(case ds of [] \<Rightarrow> 0 | d # _ \<Rightarrow> length d) < (2::nat) ^ 64"
    using Cons.prems(6) by (cases ds) simp_all
  note rl = size_line_read[OF this, of "arrival_end s2" "after_size ds @ r"]
  obtain lr3 s3 where s3: "line_getline lr2 s2 = (True, lr3, s3)" "line_text lr3 = next_size ds"
    "unread s3 = after_size ds @ r" "stream_ok s3" "arrival_end s3 = arrival_end s2"
    "sent s3 = sent s2" "send_results s3 = send_results s2"
    using line_getline_read_line[OF s2(4), of lr2] s2(3) rl unfolding next_size_def
    by (metis append_assoc prod.inject)
  have room: "\<not> (most < t \<or> most - t < length d)" "t + length d + length (concat ds) \<le> most"
    using Cons.prems(5) by simp_all
  have "chunk_loop append_receiver most lr t acc s =
      chunk_loop append_receiver most lr3 (t + length d) (acc @ d) s3"
    using n len(1) Cons.prems(4) room(1) c s2(1) c2 s3(1) by (subst chunk_loop.simps) simp
  moreover have "\<forall>d \<in> set ds. d \<noteq> []" "length (concat ds) < 2 ^ 64 - 1" using Cons.prems(4,6) by simp_all
  ultimately show ?case
    using Cons.IH[OF s3(4,3,2) _ room(2), of "acc @ d"] s1(4-6) s2(5-7) s3(5-7) by simp
qed

text \<open>The lines after the last chunk: the declared ones among them are the trailers.\<close>

lemma trailer_loop_reads:
  assumes "stream_ok s" "line_text lr @ unread s = concat (map header_line ts) @ CR_LF @ r"
    "line_text lr = (case ts of [] \<Rightarrow> CR_LF | x # _ \<Rightarrow> header_line x)" "\<forall>x \<in> set ts. field_ok x" "n + length ts \<le> HEADER_MAX_COUNT"
  shows "\<exists>s'. trailer_loop declared lr n acc s =
      (Success, acc @ map decoded (filter (\<lambda>x. list_ex (case_equal (fst x)) declared) ts), s') \<and>
    unread s' = r \<and> stream_ok s' \<and> arrival_end s' = arrival_end s \<and> sent s' = sent s \<and> send_results s' = send_results s"
  using assms
proof (induction ts arbitrary: s lr n acc)
  case Nil
  then have "line_c_str lr = CR_LF" by (simp add: line_c_str_def CR_LF_def)
  with Nil show ?case by (subst trailer_loop.simps) simp
next
  case (Cons x ts)
  have x: "field_ok x" and lr: "line_text lr = header_line x" using Cons.prems(3,4) by simp_all
  have "fst x \<noteq> []" "is_token_char (hd (fst x))"
    using x by (auto simp: field_ok_def is_field_name_def is_token_def list_all_iff)
  then have ne: "line_c_str lr \<noteq> CR_LF"
    using lr token_char_not(3)[of "hd (fst x)"] by (cases "fst x") (auto simp: line_c_str_def header_line_def CR_LF_def)
  have len: "line_size lr = length (fst x @ '': '' @ snd x) + 2" "line_size lr \<le> HEADER_MAX_LENGTH"
    using lr x by (simp_all add: line_size_text header_line_def CR_LF_def field_ok_def)
  have "take (line_size lr - 2) (line_text lr) = fst x @ '': '' @ snd x"
    using len(1) lr by (simp add: header_line_def CR_LF_def)
  then have p: "parse_header (take (line_size lr - 2) (line_text lr)) = Some (decoded x)"
    using x parse_header_field[of "fst x" "snd x"] by (simp add: field_ok_def)
  have u: "unread s = concat (map header_line ts) @ CR_LF @ r" using Cons.prems(2) lr by simp
  let ?next = "case ts of [] \<Rightarrow> CR_LF | x # _ \<Rightarrow> header_line x"
  obtain rest where rest: "read_line (arrival_end s) (unread s) = (True, ?next, rest)"
    "?next @ rest = concat (map header_line ts) @ CR_LF @ r"
  proof (cases ts)
    case Nil
    then show ?thesis
      using that[of r] u read_line_crlf[of "[]" "arrival_end s" r] by (simp add: CR_LF_def MAX_LINE_LENGTH_def)
  next
    case (Cons y ys)
    then have "field_ok y" using Cons.prems(4) by simp
    with Cons show ?thesis
      using that[of "concat (map header_line ys) @ CR_LF @ r"] u header_line_read[of y] by simp
  qed
  obtain lr1 s1 where s1: "line_getline lr s = (True, lr1, s1)" "line_text lr1 = ?next" "unread s1 = rest" "stream_ok s1"
    "arrival_end s1 = arrival_end s" "sent s1 = sent s" "send_results s1 = send_results s"
    using line_getline_read_line[OF Cons.prems(1), of lr] rest(1) by (metis prod.inject)
  let ?d = "list_ex (case_equal (fst x)) declared"
  have "fst (decoded x) = fst x" by (simp add: decoded_def)
  then have step: "trailer_loop declared lr n acc s =
      trailer_loop declared lr1 (if ?d then n + 1 else n) (if ?d then acc @ [decoded x] else acc) s1"
    using ne len(2) Cons.prems(5) p s1(1)
    by (subst trailer_loop.simps) (cases "decoded x"; simp)
  have "line_text lr1 @ unread s1 = concat (map header_line ts) @ CR_LF @ r" using s1(2,3) rest(2) by simp
  moreover have "\<forall>x \<in> set ts. field_ok x" "(if ?d then n + 1 else n) + length ts \<le> HEADER_MAX_COUNT"
    using Cons.prems(4,5) by simp_all
  ultimately show ?case
    using Cons.IH[OF s1(4) _ s1(2), of "if ?d then n + 1 else n" "if ?d then acc @ [decoded x] else acc"] step s1(5-7)
    by (cases ?d) simp_all
qed


subsection \<open>What the writer sends\<close>

definition chunked_text :: "string list \<Rightarrow> headers \<Rightarrow> string" where
  "chunked_text ds ts = concat (map chunk_text ds) @ ''0'' @ CR_LF @ concat (map header_line ts) @ CR_LF"

lemma sink_send_all:
  "send_results (sink_strm sk) = [] \<Longrightarrow>
   sink_send d sk = sk\<lparr>sink_strm := (sink_strm sk)\<lparr>sent := sent (sink_strm sk) @ d\<rparr>\<rparr>"
  by (simp add: sink_send_def write_data_all)

lemma chunked_writes:
  assumes "\<forall>d \<in> set ds. d \<noteq> []" "sink_ok sk" "sink_available sk" "send_results (sink_strm sk) = []"
  shows "\<exists>sk'. chunked_calls (map Sink_write ds @ cs) sk = chunked_calls cs sk' \<and> sink_ok sk' \<and> sink_available sk' \<and>
    sink_strm sk' = (sink_strm sk)\<lparr>sent := sent (sink_strm sk) @ concat (map chunk_text ds)\<rparr>"
  using assms
proof (induction ds arbitrary: sk)
  case (Cons d ds)
  let ?sk = "chunked_write d sk"
  have s: "sink_ok ?sk" "sink_available ?sk" "sink_strm ?sk = (sink_strm sk)\<lparr>sent := sent (sink_strm sk) @ chunk_text d\<rparr>"
    using Cons.prems by (simp_all add: chunked_write_def sink_send_all Let_def)
  with Cons.IH[of ?sk] Cons.prems show ?case by auto
qed auto

lemma done_sends:
  assumes "sink_ok sk" "send_results (sink_strm sk) = []"
  shows "sink_ok (done_with_trailer ts sk)" "\<not> sink_available (done_with_trailer ts sk)"
    "sink_strm (done_with_trailer ts sk) = (sink_strm sk)\<lparr>sent := sent (sink_strm sk) @ chunked_text [] ts\<rparr>"
proof -
  have f: "fold (\<lambda>kv. sink_send (header_line kv)) ts sk =
      sk\<lparr>sink_strm := (sink_strm sk)\<lparr>sent := sent (sink_strm sk) @ concat (map header_line ts)\<rparr>\<rparr>"
    if "send_results (sink_strm sk) = []" for sk
    using that by (induction ts arbitrary: sk) (simp_all add: sink_send_all)
  show "sink_ok (done_with_trailer ts sk)" "\<not> sink_available (done_with_trailer ts sk)"
    "sink_strm (done_with_trailer ts sk) = (sink_strm sk)\<lparr>sent := sent (sink_strm sk) @ chunked_text [] ts\<rparr>"
    using assms by (simp_all add: done_with_trailer_def sink_send_all f chunked_text_def)
qed

lemma chunked_loop_sends:
  assumes "concat turns = map Sink_write ds @ [Sink_done_with_trailer ts]" "\<forall>d \<in> set ds. d \<noteq> []"
    "sink_ok sk" "sink_available sk" "send_results (sink_strm sk) = []"
  shows "\<exists>sk'. available_loop chunked_calls (map (\<lambda>cs. Provided cs True) turns) sk = Some (Write_success, sk') \<and>
    sink_strm sk' = (sink_strm sk)\<lparr>sent := sent (sink_strm sk) @ chunked_text ds ts\<rparr>"
  using assms
proof (induction turns arbitrary: ds sk)
  case (Cons cs turns)
  have "cs @ concat turns = map Sink_write ds @ [Sink_done_with_trailer ts]" using Cons.prems(1) by simp
  then consider ds1 ds2 where "ds = ds1 @ ds2" "cs = map Sink_write ds1" "concat turns = map Sink_write ds2 @ [Sink_done_with_trailer ts]"
    | "cs = map Sink_write ds @ [Sink_done_with_trailer ts]"
  proof (cases "concat turns" rule: rev_cases)
    case Nil
    with that(2) \<open>cs @ concat turns = _\<close> show ?thesis by simp
  next
    case (snoc l c)
    with \<open>cs @ concat turns = _\<close> have l: "cs @ l = map Sink_write ds" "c = Sink_done_with_trailer ts" by simp_all
    then obtain ds1 ds2 where "ds = ds1 @ ds2" "cs = map Sink_write ds1" "l = map Sink_write ds2"
      by (auto simp: append_eq_map_conv)
    with that(1) l(2) snoc show ?thesis by simp
  qed
  then show ?case
  proof cases
    case 1
    then obtain sk1 where s: "chunked_calls cs sk = Some sk1" "sink_ok sk1" "sink_available sk1"
      "sink_strm sk1 = (sink_strm sk)\<lparr>sent := sent (sink_strm sk) @ concat (map chunk_text ds1)\<rparr>"
      using chunked_writes[of ds1 sk "[]"] Cons.prems(2-5) by auto
    have step: "available_loop chunked_calls (map (\<lambda>cs. Provided cs True) (cs # turns)) sk =
        available_loop chunked_calls (map (\<lambda>cs. Provided cs True) turns) sk1"
      using Cons.prems(4) s by (subst available_loop.simps) simp
    have "\<forall>d \<in> set ds2. d \<noteq> []" "send_results (sink_strm sk1) = []" using Cons.prems(2,5) 1 s(4) by simp_all
    from Cons.IH[OF 1(3) this(1) s(2,3) this(2)] step s(4) 1(1) show ?thesis by (simp add: chunked_text_def)
  next
    case 2
    obtain sk1 where s: "chunked_calls cs sk = chunked_calls [Sink_done_with_trailer ts] sk1" "sink_ok sk1"
      "sink_strm sk1 = (sink_strm sk)\<lparr>sent := sent (sink_strm sk) @ concat (map chunk_text ds)\<rparr>"
      using chunked_writes[OF Cons.prems(2-5), of "[Sink_done_with_trailer ts]"] 2 by auto
    let ?sk = "done_with_trailer ts sk1"
    have e: "send_results (sink_strm sk1) = []" using Cons.prems(5) s(3) by simp
    note d = done_sends[OF s(2) e, of ts]
    have "available_loop chunked_calls (map (\<lambda>cs. Provided cs True) (cs # turns)) sk =
        available_loop chunked_calls (map (\<lambda>cs. Provided cs True) turns) ?sk"
      using Cons.prems(4) s(1) d(1) by (subst available_loop.simps) simp
    then have "available_loop chunked_calls (map (\<lambda>cs. Provided cs True) (cs # turns)) sk = Some (Write_success, ?sk)"
      using d(2) by (simp add: available_loop.simps[of chunked_calls _ ?sk])
    then show ?thesis using d(3) s(3) by (simp add: chunked_text_def)
  qed
qed simp

lemma read_chunked_text:
  assumes "stream_ok s" "unread s = chunked_text ds ts @ r" "\<forall>d \<in> set ds. d \<noteq> []" "\<forall>x \<in> set ts. field_ok x"
    "length ts \<le> HEADER_MAX_COUNT" "length (concat ds) \<le> most" "length (concat ds) < 2 ^ 64 - 1"
  shows "\<exists>s'. read_content_chunked append_receiver ord hs most [] s = (Success, concat ds,
      map decoded (filter (\<lambda>x. list_ex (case_equal (fst x)) (declared_trailers ord hs)) ts), s') \<and> unread s' = r"
proof -
  let ?after = "concat (map header_line ts) @ CR_LF @ r"
  have u: "unread s = next_size ds @ after_size ds @ ?after"
    using assms(2) chunks_as_lines[of ds] by (simp add: chunked_text_def)
  have "(case ds of [] \<Rightarrow> 0 | d # _ \<Rightarrow> length d) < (2::nat) ^ 64" using assms(7) by (cases ds) simp_all
  note rl = size_line_read[OF this, of "arrival_end s" "after_size ds @ ?after"]
  obtain lr1 s1 where s1: "line_getline (line_reader 16) s = (True, lr1, s1)" "line_text lr1 = next_size ds"
    "unread s1 = after_size ds @ ?after" "stream_ok s1"
    using line_getline_read_line[OF assms(1), of "line_reader 16"] u rl unfolding next_size_def
    by (metis append_assoc prod.inject)
  obtain lr2 s2 where s2: "chunk_loop append_receiver most lr1 0 [] s1 = (Success, concat ds, lr2, s2)"
    "unread s2 = ?after" "stream_ok s2"
    using chunk_loop_reads[OF s1(4,3,2) assms(3) _ assms(7), of 0 most "[]"] assms(6) by auto
  let ?first = "case ts of [] \<Rightarrow> CR_LF | x # _ \<Rightarrow> header_line x"
  obtain rest where rest: "read_line (arrival_end s2) ?after = (True, ?first, rest)" "?first @ rest = ?after"
  proof (cases ts)
    case Nil
    then show ?thesis
      using that[of r] read_line_crlf[of "[]" "arrival_end s2" r] by (simp add: CR_LF_def MAX_LINE_LENGTH_def)
  next
    case (Cons y ys)
    then have "field_ok y" using assms(4) by simp
    with Cons show ?thesis
      using that[of "concat (map header_line ys) @ CR_LF @ r"] header_line_read[of y] by simp
  qed
  obtain lr3 s3 where s3: "line_getline lr2 s2 = (True, lr3, s3)" "line_text lr3 = ?first" "unread s3 = rest" "stream_ok s3"
    using line_getline_read_line[OF s2(3), of lr2] s2(2) rest(1) by (metis prod.inject)
  have "line_text lr3 @ unread s3 = ?after" using s3(2,3) rest(2) by simp
  from trailer_loop_reads[OF s3(4) this s3(2) assms(4), of 0 "declared_trailers ord hs" "[]"] assms(5)
  obtain s4 where "trailer_loop (declared_trailers ord hs) lr3 0 [] s3 = (Success,
      map decoded (filter (\<lambda>x. list_ex (case_equal (fst x)) (declared_trailers ord hs)) ts), s4)" "unread s4 = r"
    by auto
  with s1(1) s2(1) s3(1) show ?thesis by (simp add: read_content_chunked_def)
qed

text \<open>
  C13. Content in chunks: whatever pieces the provider writes, in however many turns, the content that
  is read is these pieces joined, with the trailer fields the header section has announced, and not a
  byte of what follows is taken.
\<close>

theorem chunked_content_read:
  assumes "concat turns = map Sink_write ds @ [Sink_done_with_trailer ts]" "\<forall>d \<in> set ds. d \<noteq> []"
    "\<forall>x \<in> set ts. field_ok x" "length ts \<le> HEADER_MAX_COUNT"
    "length (concat ds) \<le> most" "length (concat ds) < 2 ^ 64 - 1" "send_results strm = []"
    "is_chunked_transfer_encoding ord hs" "\<not> encoding_unsupported ord hs"
  shows "\<exists>raw sk. write_content_chunked (map (\<lambda>cs. Provided cs True) turns) strm = Some (Write_success, sk) \<and>
    sink_strm sk = strm\<lparr>sent := sent strm @ raw\<rparr> \<and>
    (\<forall>s r. stream_ok s \<and> unread s = raw @ r \<longrightarrow>
       (\<exists>s'. read_content append_receiver ord hs most [] s = (None, concat ds,
           map decoded (filter (\<lambda>x. list_ex (case_equal (fst x)) (declared_trailers ord hs)) ts), s') \<and> unread s' = r))"
proof -
  obtain sk where sk: "write_content_chunked (map (\<lambda>cs. Provided cs True) turns) strm = Some (Write_success, sk)"
    "sink_strm sk = strm\<lparr>sent := sent strm @ chunked_text ds ts\<rparr>"
    using chunked_loop_sends[OF assms(1,2), of "new_sink 0 strm"] assms(7)
    by (auto simp: write_content_chunked_def new_sink_def)
  have "\<exists>s'. read_content append_receiver ord hs most [] s = (None, concat ds,
      map decoded (filter (\<lambda>x. list_ex (case_equal (fst x)) (declared_trailers ord hs)) ts), s') \<and> unread s' = r"
    if "stream_ok s" "unread s = chunked_text ds ts @ r" for s r
    using read_chunked_text[OF that assms(2-6), of ord hs] assms(8,9) by (auto simp: read_content_def)
  with sk show ?thesis by blast
qed

lemma chunked_content_read_witness:
  "\<exists>raw sk. write_content_chunked (map (\<lambda>cs. Provided cs True)
        [[Sink_write ''ab''], [], [Sink_write ''cde'', Sink_done_with_trailer [(''Sum'', ''5'')]]]) buffer_stream =
      Some (Write_success, sk) \<and> sink_strm sk = buffer_stream\<lparr>sent := sent buffer_stream @ raw\<rparr> \<and>
    (\<forall>s r. stream_ok s \<and> unread s = raw @ r \<longrightarrow>
       (\<exists>s'. read_content append_receiver (\<lambda>x. x) [(''Transfer-Encoding'', ''chunked''), (''Trailer'', ''Sum'')] 10 [] s =
          (None, concat [''ab'', ''cde''], map decoded (filter (\<lambda>x. list_ex (case_equal (fst x))
             (declared_trailers (\<lambda>x. x) [(''Transfer-Encoding'', ''chunked''), (''Trailer'', ''Sum'')])) [(''Sum'', ''5'')]), s') \<and>
        unread s' = r))"
proof (rule chunked_content_read)
  show "\<forall>x \<in> set [(''Sum'', ''5'')]. field_ok x"
    by (simp add: field_ok_def field_name field_value header_line_def CR_LF_def HEADER_MAX_LENGTH_def)
  show "is_chunked_transfer_encoding (\<lambda>x. x) [(''Transfer-Encoding'', ''chunked''), (''Trailer'', ''Sum'')]"
    by (simp add: is_chunked_transfer_encoding_def get_header_value_def equal_range_def case_equal_def)
  show "\<not> encoding_unsupported (\<lambda>x. x) [(''Transfer-Encoding'', ''chunked''), (''Trailer'', ''Sum'')]"
    by (simp add: encoding_unsupported_def get_header_value_def equal_range_def case_equal_def)
qed (simp_all add: buffer_stream_def HEADER_MAX_COUNT_def)

end
