(* ===== verification/LoadBalancer.thy ===== *)
theory LoadBalancer
  imports Cluster
begin

text \<open>
  The load balancer's process, LoadBalancer.h, LoadBalancer.cpp and main.cpp: the start of the
  listening socket, the initial backends, and the accept loop that gives each client a session in a
  thread of its own. The threads and the health checker share the router. Each of its operations is
  one step here; in the code nothing orders their accesses to \<open>backends_\<close>, so what is shown holds
  for executions in which they do not overlap. A thread's turn is what it does for one candidate of
  one request, so the turns of different threads interleave between the candidates. The lemmas show
  that the router stays well-formed and no thread leaks a connection in any interleaving, that a
  thread left alone does what the sequential model of a session says, when the process ends, and
  that two writes of one key can reach the replicas in different orders.
\<close>

subsection \<open>Start\<close>

record load_balancer =
  lb_port :: int
  lb_socket :: int

text \<open>The results of the system calls, and the call whose failure ends the process.\<close>

record lb_os =
  os_socket :: int
  os_bind :: int
  os_listen :: int

datatype lb_exit = Socket_failed | Bind_failed | Listen_failed

definition LoadBalancer :: "int \<Rightarrow> load_balancer" where
  "LoadBalancer p = \<lparr>lb_port = p, lb_socket = -1\<rparr>"

definition createSocket :: "lb_os \<Rightarrow> load_balancer \<Rightarrow> lb_exit + load_balancer" where
  "createSocket os lb =
     (let lb1 = lb\<lparr>lb_socket := os_socket os\<rparr>
      in if lb_socket lb1 = -1 then Inl Socket_failed else Inr lb1)"

definition bindSocket :: "lb_os \<Rightarrow> load_balancer \<Rightarrow> lb_exit + load_balancer" where
  "bindSocket os lb = (if os_bind os < 0 then Inl Bind_failed else Inr lb)"

definition listenSocket :: "lb_os \<Rightarrow> load_balancer \<Rightarrow> lb_exit + load_balancer" where
  "listenSocket os lb = (if os_listen os < 0 then Inl Listen_failed else Inr lb)"

text \<open>\<open>start\<close> up to the accept loop.\<close>

definition start_lb :: "lb_os \<Rightarrow> load_balancer \<Rightarrow> lb_exit + load_balancer" where
  "start_lb os lb =
     (case createSocket os lb of
        Inl e \<Rightarrow> Inl e
      | Inr lb1 \<Rightarrow> (case bindSocket os lb1 of Inl e \<Rightarrow> Inl e | Inr lb2 \<Rightarrow> listenSocket os lb2))"

definition main_lb :: load_balancer where
  "main_lb = LoadBalancer 8080"

definition initial_backends :: "backend list" where
  "initial_backends =
     [\<lparr>ip = ''127.0.0.1'', port = 9001, status = UP\<rparr>,
      \<lparr>ip = ''127.0.0.1'', port = 9002, status = UP\<rparr>,
      \<lparr>ip = ''127.0.0.1'', port = 9003, status = UP\<rparr>]"

subsection \<open>One candidate of one request\<close>

text \<open>One turn of the replication loop and one of the failover loop.\<close>

definition write_turn :: "hasher \<Rightarrow> net \<Rightarrow> string \<Rightarrow> backend \<Rightarrow> string \<Rightarrow> bool \<Rightarrow> session \<Rightarrow> string \<times> bool \<times> session" where
  "write_turn hs net payload b primary success s =
     (let (connected, s1) = connectToBackend net b s
      in if connected
         then
           (let s2 = send_backend (port b) payload s1;
                r = readBackendResponse s2;
                code = statusCode (response r);
                complete = (rparse_status r = COMPLETE)
            in (if complete \<and> (primary = [] \<or> code = 200 \<or> code = 201) then rawResponse (response r) else primary,
                success \<or> complete, closeBackend s2))
         else (primary, success, mark_down hs b s1))"

definition fetch_turn :: "hasher \<Rightarrow> net \<Rightarrow> string \<Rightarrow> backend \<Rightarrow> session \<Rightarrow> bool \<times> session" where
  "fetch_turn hs net payload b s =
     (let (connected, s1) = connectToBackend net b s
      in if connected
         then
           (let s2 = send_backend (port b) payload s1;
                r = readBackendResponse s2
            in if rparse_status r = COMPLETE
               then (True, closeBackend (send_client net (rawResponse (response r)) s2))
               else (False, mark_down hs b (closeBackend s2)))
         else (False, mark_down hs b s1))"

lemma write_loop_turn:
  "write_loop hs net payload (b # bs) primary success s =
     (let (primary', success', s') = write_turn hs net payload b primary success s
      in write_loop hs net payload bs primary' success' s')"
  by (simp add: write_turn_def Let_def split: prod.split)

lemma read_loop_turn:
  "read_loop hs net payload (b # bs) s =
     (let (served, s') = fetch_turn hs net payload b s
      in if served then (True, s') else read_loop hs net payload bs s')"
  by (simp add: fetch_turn_def Let_def split: prod.split)

subsection \<open>Threads\<close>

text \<open>What a thread is busy with: the candidates left, and for a write the reply so far.\<close>

datatype job =
    Idle
  | Writing string "backend list" string bool
  | Fetching string "backend list"
  | Ended

record client_thread =
  th_socket :: int
  th_session :: session
  th_job :: job

text \<open>A thread takes up a request its client has sent; an exception leaves the thread: \<open>None\<close>.\<close>

definition begin_request :: "hasher \<Rightarrow> net \<Rightarrow> HttpRequest \<Rightarrow> client_thread \<Rightarrow> client_thread option" where
  "begin_request hs net r th =
     (let s = th_session th
      in case (if is_write r then getWriteBackendsForKey hs (sess_router s) (getKey r) 2
               else getReadBackendsForKey hs (sess_router s) (getKey r) 2) of
           Inl e \<Rightarrow> None
         | Inr candidates \<Rightarrow>
             Some (if candidates = [] then th\<lparr>th_session := send_client net err_resp s, th_job := Ended\<rparr>
                   else if is_write r then th\<lparr>th_job := Writing (request_payload r) candidates [] False\<rparr>
                   else th\<lparr>th_job := Fetching (rawRequest r) candidates\<rparr>))"

definition thread_turn :: "hasher \<Rightarrow> net \<Rightarrow> client_thread \<Rightarrow> client_thread option" where
  "thread_turn hs net th =
     (let s = th_session th
      in case th_job th of
           Idle \<Rightarrow> None
         | Ended \<Rightarrow> None
         | Writing payload [] primary success \<Rightarrow>
             Some (th\<lparr>th_session := send_client net (if success then primary else err_resp) s, th_job := Idle\<rparr>)
         | Writing payload (b # bs) primary success \<Rightarrow>
             (let (primary', success', s') = write_turn hs net payload b primary success s
              in Some (th\<lparr>th_session := s', th_job := Writing payload bs primary' success'\<rparr>))
         | Fetching payload [] \<Rightarrow> Some (th\<lparr>th_session := send_client net err_resp s, th_job := Ended\<rparr>)
         | Fetching payload (b # bs) \<Rightarrow>
             (let (served, s') = fetch_turn hs net payload b s
              in Some (th\<lparr>th_session := s', th_job := (if served then Idle else Fetching payload bs)\<rparr>)))"

text \<open>A thread that is not interrupted; it ends because each turn takes a candidate.\<close>

fun job_size :: "job \<Rightarrow> nat" where
  "job_size (Writing payload bs primary success) = Suc (length bs)"
| "job_size (Fetching payload bs) = Suc (length bs)"
| "job_size j = 0"

lemma thread_turn_size: "thread_turn hs net th = Some th' \<Longrightarrow> job_size (th_job th') < job_size (th_job th)"
  by (auto simp: thread_turn_def Let_def split: job.splits list.splits prod.splits if_splits)

function run_client :: "hasher \<Rightarrow> net \<Rightarrow> client_thread \<Rightarrow> client_thread" where
  "run_client hs net th = (case thread_turn hs net th of None \<Rightarrow> th | Some th' \<Rightarrow> run_client hs net th')"
  by pat_completeness auto
termination
  by (relation "measure (\<lambda>(hs, net, th). job_size (th_job th))") (auto dest: thread_turn_size)

declare run_client.simps [simp del]

lemma run_stops: "th_job th = Idle \<or> th_job th = Ended \<Longrightarrow> run_client hs net th = th"
  by (auto simp: run_client.simps[of hs net th] thread_turn_def)

lemma run_writing:
  assumes "th_job th = Writing payload bs primary success"
  shows "run_client hs net th =
    (let (primary', success', s') = write_loop hs net payload bs primary success (th_session th)
     in th\<lparr>th_session := send_client net (if success' then primary' else err_resp) s', th_job := Idle\<rparr>)"
  using assms
proof (induction bs arbitrary: th primary success)
  case Nil
  then show ?case
    by (simp add: run_client.simps[of hs net th] thread_turn_def run_stops)
next
  case (Cons b bs)
  obtain p' ok' s' where t: "write_turn hs net payload b primary success (th_session th) = (p', ok', s')"
    by (metis prod_cases3)
  let ?th = "th\<lparr>th_session := s', th_job := Writing payload bs p' ok'\<rparr>"
  have "run_client hs net th = run_client hs net ?th"
    using Cons.prems t by (simp add: run_client.simps[of hs net th] thread_turn_def)
  with Cons.IH[of ?th p' ok'] show ?case
    by (simp add: write_loop_turn t del: write_loop.simps)
qed

lemma run_fetching:
  assumes "th_job th = Fetching payload bs"
  shows "run_client hs net th =
    (let (served, s') = read_loop hs net payload bs (th_session th)
     in if served then th\<lparr>th_session := s', th_job := Idle\<rparr>
        else th\<lparr>th_session := send_client net err_resp s', th_job := Ended\<rparr>)"
  using assms
proof (induction bs arbitrary: th)
  case Nil
  then show ?case
    by (simp add: run_client.simps[of hs net th] thread_turn_def run_stops)
next
  case (Cons b bs)
  obtain served s' where t: "fetch_turn hs net payload b (th_session th) = (served, s')" by (metis prod.exhaust)
  let ?th = "th\<lparr>th_session := s', th_job := (if served then Idle else Fetching payload bs)\<rparr>"
  have r: "run_client hs net th = run_client hs net ?th"
    using Cons.prems t by (simp add: run_client.simps[of hs net th] thread_turn_def)
  show ?case
  proof (cases served)
    case True
    then show ?thesis
      using r by (simp add: read_loop_turn t run_stops del: read_loop.simps)
  next
    case False
    from Cons.IH[of "th\<lparr>th_session := s', th_job := Fetching payload bs\<rparr>"] r False
    show ?thesis by (simp add: read_loop_turn t del: read_loop.simps split: prod.split)
  qed
qed

subsection \<open>The health checker's turns\<close>

text \<open>Where the checker is in its loop: asleep, with the backends of its pass left, or in a recovery.\<close>

datatype check =
    Sleeping
  | Passing "backend list"
  | Syncing backend "backend list"

definition check_turn :: "hasher \<Rightarrow> (int \<Rightarrow> bool) \<Rightarrow> router \<times> check \<Rightarrow> router \<times> check" where
  "check_turn hs alive c =
     (case c of
        (rt, Sleeping) \<Rightarrow> (rt, Passing (getAllBackends rt))
      | (rt, Passing []) \<Rightarrow> (rt, Sleeping)
      | (rt, Passing (b # bs)) \<Rightarrow>
          if alive (port b)
          then if status b = DOWN then (markBackendRecovering hs (port b) rt, Syncing b bs) else (rt, Passing bs)
          else if status b = UP \<or> status b = RECOVERING then (markBackendDown hs (port b) rt, Passing bs)
          else (rt, Passing bs)
      | (rt, Syncing b bs) \<Rightarrow> (markBackendUp hs (port b) rt, Passing bs))"

text \<open>A pass that is not interrupted is the pass of the sequential model.\<close>

lemma check_turns_backends:
  assumes "stable_pings http alive"
  shows "check_backends hs http bs rt w = Inr (rt', w') \<Longrightarrow> \<exists>n. (check_turn hs alive ^^ n) (rt, Passing bs) = (rt', Passing [])"
proof (induction bs arbitrary: rt w)
  case Nil
  then show ?case by (intro exI[of _ 0]) simp
next
  case (Cons b bs)
  have "fst (pingBackend http b w) = alive (port b)" using assms by (simp add: stable_pings_def)
  then obtain w1 where ping: "pingBackend http b w = (alive (port b), w1)"
    by (cases "pingBackend http b w") simp
  have one: ?case if t: "check_turn hs alive (rt, Passing (b # bs)) = (rt1, Passing bs)"
    and c: "check_backends hs http bs rt1 w1 = Inr (rt', w')" for rt1
  proof -
    obtain n where "(check_turn hs alive ^^ n) (rt1, Passing bs) = (rt', Passing [])" using Cons.IH[OF c] by blast
    with t have "(check_turn hs alive ^^ Suc n) (rt, Passing (b # bs)) = (rt', Passing [])"
      unfolding funpow_Suc_right o_apply by simp
    then show ?thesis by blast
  qed
  show ?case
  proof (cases "alive (port b) \<and> status b = DOWN")
    case True
    let ?rt1 = "markBackendRecovering hs (port b) rt"
    from Cons.prems ping True obtain w2 where
      "check_backends hs http bs (markBackendUp hs (port b) ?rt1) w2 = Inr (rt', w')"
      by (auto simp: Let_def split: sum.splits)
    from Cons.IH[OF this] obtain n where
      "(check_turn hs alive ^^ n) (markBackendUp hs (port b) ?rt1, Passing bs) = (rt', Passing [])" by blast
    with True have "(check_turn hs alive ^^ Suc (Suc n)) (rt, Passing (b # bs)) = (rt', Passing [])"
      unfolding funpow_Suc_right o_apply by (simp add: check_turn_def)
    then show ?thesis by blast
  next
    case False
    with one Cons.prems ping show ?thesis
      by (auto simp: check_turn_def split: if_splits)
  qed
qed

subsection \<open>The process\<close>

record system =
  sys_router :: router
  sys_log :: "(int \<times> string) list"
  sys_threads :: "client_thread list"
  sys_checker :: check
  sys_alive :: bool

definition start_system :: "router \<Rightarrow> system" where
  "start_system rt = \<lparr>sys_router = rt, sys_log = [], sys_threads = [], sys_checker = Sleeping, sys_alive = True\<rparr>"

text \<open>
  A thread works on the router all threads share, and its sends reach the backends in the order of
  the whole process.
\<close>

definition enter :: "system \<Rightarrow> nat \<Rightarrow> client_thread" where
  "enter sy i =
     (let th = sys_threads sy ! i
      in th\<lparr>th_session := (th_session th)\<lparr>sess_router := sys_router sy, backend_log := sys_log sy\<rparr>\<rparr>)"

definition leave :: "system \<Rightarrow> nat \<Rightarrow> client_thread \<Rightarrow> system" where
  "leave sy i th =
     sy\<lparr>sys_router := sess_router (th_session th), sys_log := backend_log (th_session th),
        sys_threads := (sys_threads sy)[i := th]\<rparr>"

definition accept_turn :: "int \<Rightarrow> system \<Rightarrow> system" where
  "accept_turn clientSocket sy =
     (if clientSocket < 0 then sy
      else sy\<lparr>sys_threads := sys_threads sy @
        [\<lparr>th_socket = clientSocket, th_session = ProxySession (sys_router sy), th_job = Idle\<rparr>]\<rparr>)"

definition checker_turn :: "hasher \<Rightarrow> (int \<Rightarrow> bool) \<Rightarrow> system \<Rightarrow> system" where
  "checker_turn hs alive sy =
     (let (rt, c) = check_turn hs alive (sys_router sy, sys_checker sy)
      in sy\<lparr>sys_router := rt, sys_checker := c\<rparr>)"

text \<open>
  The steps of the process. An exception that leaves a thread ends it: a request or a recovery finds
  the ring empty.
\<close>

inductive sys_step :: "hasher \<Rightarrow> (nat \<Rightarrow> net) \<Rightarrow> system \<Rightarrow> system \<Rightarrow> bool" for hs nets where
  accepted: "sys_alive sy \<Longrightarrow> sys_step hs nets sy (accept_turn fd sy)"
| requested: "sys_alive sy \<Longrightarrow> i < length (sys_threads sy) \<Longrightarrow> th_job (sys_threads sy ! i) = Idle \<Longrightarrow>
    begin_request hs (nets i) r (enter sy i) = Some th \<Longrightarrow> sys_step hs nets sy (leave sy i th)"
| uncaught: "sys_alive sy \<Longrightarrow> i < length (sys_threads sy) \<Longrightarrow> th_job (sys_threads sy ! i) = Idle \<Longrightarrow>
    begin_request hs (nets i) r (enter sy i) = None \<Longrightarrow> sys_step hs nets sy (sy\<lparr>sys_alive := False\<rparr>)"
| turned: "sys_alive sy \<Longrightarrow> i < length (sys_threads sy) \<Longrightarrow>
    thread_turn hs (nets i) (enter sy i) = Some th \<Longrightarrow> sys_step hs nets sy (leave sy i th)"
| hung_up: "sys_alive sy \<Longrightarrow> i < length (sys_threads sy) \<Longrightarrow> th_job (sys_threads sy ! i) = Idle \<Longrightarrow>
    sys_step hs nets sy (leave sy i (enter sy i\<lparr>th_job := Ended\<rparr>))"
| checked: "sys_alive sy \<Longrightarrow> sys_step hs nets sy (checker_turn hs alive sy)"
| unrecovered: "sys_alive sy \<Longrightarrow> sys_checker sy = Syncing b bs \<Longrightarrow> ring_empty (router_ring (sys_router sy)) \<Longrightarrow>
    sys_step hs nets sy (sy\<lparr>sys_alive := False\<rparr>)"

subsection \<open>The invariant of the process\<close>

lemma write_turn_ok:
  assumes "idle fds s" "posix_net net" "write_turn hs net payload b p ok s = (p', ok', s')"
  shows "idle fds s' \<and> sess_router s' = routers hs net (attempts s) [b] (sess_router s) \<and>
    backend_log s' = backend_log s @ deliveries net payload (attempts s) [b]"
  using write_loop_result[OF assms(1,2), where hs = hs and payload = payload and bs = "[b]" and p = p and ok = ok] assms(3)
  by (simp add: write_loop_turn del: write_loop.simps(2))

lemma fetch_turn_ok:
  assumes "idle fds s" "posix_net net" "fetch_turn hs net payload b s = (served, s')"
  shows "idle fds s' \<and> sess_router s' = (if served then sess_router s else mark_all_down hs [b] (sess_router s))"
  using read_loop_result[OF assms(1,2), where hs = hs and payload = payload and bs = "[b]"] assms(3)
  by (auto simp: read_loop_turn simp del: read_loop.simps(2) split: option.splits if_splits prod.splits)

text \<open>The router of a running process changes by marks alone.\<close>

definition marked :: "hasher \<Rightarrow> router \<Rightarrow> router \<Rightarrow> bool" where
  "marked hs rt rt' \<longleftrightarrow> (\<exists>ms. rt' = fold (run_mark hs) ms rt)"

lemma marked_refl [simp, intro]: "marked hs rt rt"
  by (auto simp: marked_def intro: exI[of _ "[]"])

lemma marked_trans: "marked hs rt rt1 \<Longrightarrow> marked hs rt1 rt2 \<Longrightarrow> marked hs rt rt2"
  unfolding marked_def by (metis fold_append o_apply)

lemma marked_marks [intro]:
  "marked hs rt (markBackendDown hs p rt)" "marked hs rt (markBackendRecovering hs p rt)"
  "marked hs rt (markBackendUp hs p rt)"
  unfolding marked_def
  by (intro exI[of _ "[Mark_down p]"] exI[of _ "[Mark_recovering p]"] exI[of _ "[Mark_up p]"]; simp)+

lemma marked_ok: "marked hs rt rt' \<Longrightarrow> router_inv hs rt \<Longrightarrow> router_inv hs rt'"
  by (auto simp: marked_def router_inv_run)

lemma marked_dom: "marked hs rt rt' \<Longrightarrow> dom (map_of (backends rt')) = dom (map_of (backends rt))"
proof -
  have one: "dom (map_of (backends (run_mark hs m rt))) = dom (map_of (backends rt))" for m rt
    by (cases m) (auto simp: map_of_mark split: if_splits)
  have "dom (map_of (backends (fold (run_mark hs) ms rt))) = dom (map_of (backends rt))" for ms
    by (induction ms arbitrary: rt) (simp_all add: one)
  then show "marked hs rt rt' \<Longrightarrow> dom (map_of (backends rt')) = dom (map_of (backends rt))"
    unfolding marked_def by blast
qed

lemma begin_request_ok:
  "begin_request hs net r th = Some th' \<Longrightarrow> idle fds (th_session th) \<Longrightarrow>
   idle fds (th_session th') \<and> sess_router (th_session th') = sess_router (th_session th)"
  by (auto simp: begin_request_def Let_def split: sum.splits if_splits)

lemma thread_turn_ok:
  assumes "thread_turn hs net th = Some th'" "idle fds (th_session th)" "posix_net net"
  shows "idle fds (th_session th') \<and> marked hs (sess_router (th_session th)) (sess_router (th_session th'))"
  using assms(1) write_turn_ok[OF assms(2,3)] fetch_turn_ok[OF assms(2,3)] assms(2)
  by (auto simp: thread_turn_def Let_def split: job.splits list.splits prod.splits if_splits)

lemma check_turn_marked: "marked hs (fst c) (fst (check_turn hs alive c))"
  by (auto simp: check_turn_def split: prod.split check.split list.split)

definition sys_inv :: "hasher \<Rightarrow> router \<Rightarrow> system \<Rightarrow> bool" where
  "sys_inv hs rt sy \<longleftrightarrow> marked hs rt (sys_router sy) \<and> (\<forall>th \<in> set (sys_threads sy). idle [] (th_session th))"

lemma sys_inv_enter: "sys_inv hs rt sy \<Longrightarrow> i < length (sys_threads sy) \<Longrightarrow> idle [] (th_session (enter sy i))"
  by (auto simp: sys_inv_def enter_def Let_def idle_def)

lemma sys_inv_leave:
  assumes "sys_inv hs rt sy" "marked hs (sys_router sy) (sess_router (th_session th))" "idle [] (th_session th)"
  shows "sys_inv hs rt (leave sy i th)"
  using assms set_update_subset_insert[of "sys_threads sy" i th] marked_trans
  by (auto simp: sys_inv_def leave_def)

lemma enter_router [simp]: "sess_router (th_session (enter sy i)) = sys_router sy"
  by (simp add: enter_def Let_def)

lemma sys_inv_step:
  assumes "sys_step hs nets sy sy'" "\<forall>i. posix_net (nets i)" "sys_inv hs rt sy"
  shows "sys_inv hs rt sy'"
  using assms
proof (cases rule: sys_step.cases)
  case (accepted fd)
  then show ?thesis using assms(3) by (auto simp: accept_turn_def sys_inv_def)
next
  case (requested i r th)
  then show ?thesis
    using sys_inv_leave[OF assms(3)] begin_request_ok[OF requested(5) sys_inv_enter[OF assms(3)]] by auto
next
  case (turned i th)
  then show ?thesis
    using sys_inv_leave[OF assms(3)] thread_turn_ok[OF turned(4) sys_inv_enter[OF assms(3)]] assms(2) by auto
next
  case (hung_up i)
  then show ?thesis using sys_inv_leave[OF assms(3)] sys_inv_enter[OF assms(3)] by auto
next
  case (checked alive)
  then show ?thesis
    using assms(3) check_turn_marked[of hs "(sys_router sy, sys_checker sy)" alive] marked_trans
    by (auto simp: sys_inv_def checker_turn_def split: prod.splits)
qed (use assms(3) in \<open>simp_all add: sys_inv_def\<close>)

lemma sys_inv_reachable:
  assumes "(sys_step hs nets)\<^sup>*\<^sup>* (start_system rt) sy" "\<forall>i. posix_net (nets i)"
  shows "sys_inv hs rt sy"
  using assms(1)
proof induction
  case base
  show ?case by (simp add: sys_inv_def start_system_def)
next
  case (step sy1 sy2)
  then show ?case using sys_inv_step[OF _ assms(2)] by blast
qed

lemma initial_router:
  assumes "Router hs initial_backends 50 = Inr rt"
  shows "router_inv hs rt \<and> dom (map_of (backends rt)) = {9001, 9002, 9003}"
proof -
  have "router_inv hs rt" by (rule router_inv_Router[OF assms]) (simp_all add: initial_backends_def)
  moreover have "dom (map_of (backends (register_backends hs bs rt0))) = port ` set bs \<union> dom (map_of (backends rt0))"
    for bs rt0 by (induction bs arbitrary: rt0) (auto simp: update_conv')
  ultimately show ?thesis using assms by (auto simp: Router_def initial_backends_def split: if_splits)
qed

lemma Router_initial: "\<exists>rt. Router hs initial_backends n = Inr rt"
  by (simp add: Router_def initial_backends_def)

subsection \<open>The end of the process\<close>

lemma dies_iff:
  assumes "sys_alive sy"
  shows "(\<exists>sy'. sys_step hs nets sy sy' \<and> \<not> sys_alive sy') \<longleftrightarrow>
    ring_empty (router_ring (sys_router sy)) \<and>
    ((\<exists>th \<in> set (sys_threads sy). th_job th = Idle) \<or> (\<exists>b bs. sys_checker sy = Syncing b bs))"
    (is "?dies \<longleftrightarrow> ?empty \<and> (?idle \<or> ?syncing)")
proof
  assume ?dies
  then obtain sy' where "sys_step hs nets sy sy'" "\<not> sys_alive sy'" by blast
  then show "?empty \<and> (?idle \<or> ?syncing)"
    using assms
    by (cases rule: sys_step.cases)
       (auto simp: accept_turn_def leave_def checker_turn_def begin_request_def getWriteBackendsForKey_def
         getReadBackendsForKey_def Let_def split: prod.splits if_splits)
next
  assume a: "?empty \<and> (?idle \<or> ?syncing)"
  then show ?dies
  proof (elim conjE disjE)
    assume ?empty ?idle
    then obtain i where i: "i < length (sys_threads sy)" "th_job (sys_threads sy ! i) = Idle"
      by (auto simp: in_set_conv_nth)
    have "begin_request hs (nets i) empty_request (enter sy i) = None"
      using \<open>?empty\<close> by (simp add: begin_request_def getWriteBackendsForKey_def getReadBackendsForKey_def Let_def)
    from uncaught[where nets = nets, OF assms i this] show ?dies by (auto intro: exI[of _ "sy\<lparr>sys_alive := False\<rparr>"])
  next
    assume ?empty ?syncing
    then obtain b bs where "sys_checker sy = Syncing b bs" by blast
    from unrecovered[OF assms this \<open>?empty\<close>] show ?dies by (auto intro: exI[of _ "sy\<lparr>sys_alive := False\<rparr>"])
  qed
qed

subsection \<open>Two writers\<close>

text \<open>A network whose connections all succeed and take everything they are sent.\<close>

definition good_net :: "net \<Rightarrow> bool" where
  "good_net net \<longleftrightarrow> (\<forall>n b. reachable (conns net n b) \<and> (\<forall>k > 0. 0 < backend_send (conns net n b) k))"

lemma good_taken: "good_net net \<Longrightarrow> taken (conns net n b) payload = payload"
  using sendAll_complete[of "backend_send (conns net n b)" payload 0] by (simp add: good_net_def taken_def)

lemma reachable_posix: "good_net net \<Longrightarrow> posix_net net"
  unfolding good_net_def posix_net_def reachable_def by (metis le_cases order_trans neg_equal_0_iff_equal neg_le_0_iff_le zero_le_one)

text \<open>The next candidate of a write, in the process.\<close>

lemma writing_turn:
  assumes "sys_alive sy" "i < length (sys_threads sy)" "good_net (nets i)"
    and "sys_threads sy ! i = th" "th_job th = Writing x (b # bs) p ok" "idle fds (th_session th)"
  obtains th' p' ok' where "sys_step hs nets sy (leave sy i th')" "th_job th' = Writing x bs p' ok'"
    "idle fds (th_session th')" "sys_log (leave sy i th') = sys_log sy @ [(port b, x)]"
proof -
  let ?s = "th_session (enter sy i)"
  obtain p' ok' s' where t: "write_turn hs (nets i) x b p ok ?s = (p', ok', s')" by (metis prod_cases3)
  have "idle fds ?s" using assms(4,6) by (simp add: enter_def Let_def idle_def)
  from write_turn_ok[OF this reachable_posix[OF assms(3)] t] assms(3)
  have s': "idle fds s'" "backend_log s' = sys_log sy @ [(port b, x)]"
    by (simp_all add: good_taken) (simp_all add: good_net_def enter_def Let_def)
  let ?th = "enter sy i\<lparr>th_session := s', th_job := Writing x bs p' ok'\<rparr>"
  have "thread_turn hs (nets i) (enter sy i) = Some ?th"
    using assms(4,5) t by (simp add: thread_turn_def enter_def Let_def)
  from turned[where nets = nets, OF assms(1,2) this] s' show ?thesis
    by (intro that[of ?th p' ok']) (simp_all add: leave_def)
qed

lemma leave_fields [simp]:
  "sys_alive (leave sy i th) = sys_alive sy" "length (sys_threads (leave sy i th)) = length (sys_threads sy)"
  "sys_threads (leave sy i th) = (sys_threads sy)[i := th]"
  by (simp_all add: leave_def)

lemma two_writers:
  assumes "sys_alive sy" "i < length (sys_threads sy)" "j < length (sys_threads sy)" "i \<noteq> j"
    and "good_net (nets i)" "good_net (nets j)"
    and "idle fds (th_session (sys_threads sy ! i))" "th_job (sys_threads sy ! i) = Writing x [a, b] [] False"
    and "idle fds (th_session (sys_threads sy ! j))" "th_job (sys_threads sy ! j) = Writing y [a, b] [] False"
  shows "\<exists>sy'. (sys_step hs nets)\<^sup>*\<^sup>* sy sy' \<and>
    sys_log sy' = sys_log sy @ [(port a, x), (port a, y), (port b, y), (port b, x)]"
proof -
  obtain t1 p1 ok1 where 1: "sys_step hs nets sy (leave sy i t1)" "th_job t1 = Writing x [b] p1 ok1"
    "idle fds (th_session t1)" "sys_log (leave sy i t1) = sys_log sy @ [(port a, x)]"
    by (rule writing_turn[where nets = nets, OF assms(1,2,5) refl assms(8,7)])
  let ?sy1 = "leave sy i t1"
  have j1: "sys_threads ?sy1 ! j = sys_threads sy ! j" using assms(4) by simp
  have l1: "sys_alive ?sy1" "j < length (sys_threads ?sy1)" using assms(1,3) by simp_all
  obtain t2 p2 ok2 where 2: "sys_step hs nets ?sy1 (leave ?sy1 j t2)" "th_job t2 = Writing y [b] p2 ok2"
    "idle fds (th_session t2)" "sys_log (leave ?sy1 j t2) = sys_log ?sy1 @ [(port a, y)]"
    by (rule writing_turn[where nets = nets, OF l1 assms(6) j1 assms(10,9)])
  let ?sy2 = "leave ?sy1 j t2"
  have j2: "sys_threads ?sy2 ! j = t2" using assms(3) by simp
  have l2: "sys_alive ?sy2" "j < length (sys_threads ?sy2)" using assms(1,3) by simp_all
  obtain t3 p3 ok3 where 3: "sys_step hs nets ?sy2 (leave ?sy2 j t3)" "th_job t3 = Writing y [] p3 ok3"
    "idle fds (th_session t3)" "sys_log (leave ?sy2 j t3) = sys_log ?sy2 @ [(port b, y)]"
    by (rule writing_turn[where nets = nets, OF l2 assms(6) j2 2(2,3)])
  let ?sy3 = "leave ?sy2 j t3"
  have i3: "sys_threads ?sy3 ! i = t1" using assms(2,4) by simp
  have l3: "sys_alive ?sy3" "i < length (sys_threads ?sy3)" using assms(1,2) by simp_all
  obtain t4 p4 ok4 where 4: "sys_step hs nets ?sy3 (leave ?sy3 i t4)" "th_job t4 = Writing x [] p4 ok4"
    "idle fds (th_session t4)" "sys_log (leave ?sy3 i t4) = sys_log ?sy3 @ [(port b, x)]"
    by (rule writing_turn[where nets = nets, OF l3 assms(5) i3 1(2,3)])
  have "(sys_step hs nets)\<^sup>*\<^sup>* sy (leave ?sy3 i t4)"
    using 1(1) 2(1) 3(1) 4(1) by (meson converse_rtranclp_into_rtranclp rtranclp.rtrancl_refl)
  moreover have "sys_log (leave ?sy3 i t4) = sys_log sy @ [(port a, x), (port a, y), (port b, y), (port b, x)]"
    unfolding 4(4) 3(4) 2(4) 1(4) by simp
  ultimately show ?thesis by blast
qed

text \<open>What the payloads of a log do to the tables of the servers, in the order of the log.\<close>

fun deliver :: "'db server_env \<Rightarrow> int set \<Rightarrow> (string \<Rightarrow> Request) \<Rightarrow> (int \<times> string) list \<Rightarrow>
    (int \<Rightarrow> 'db server) \<Rightarrow> (int \<Rightarrow> 'db server)" where
  "deliver env alive meaning [] w = w"
| "deliver env alive meaning ((p, x) # l) w =
     deliver env alive meaning l
       (snd (cluster_call env alive \<lparr>ip = ''127.0.0.1'', port = p, status = UP\<rparr> (meaning x) w))"

text \<open>A replicated update of the key \<open>k\<close>, as the servers read it.\<close>

definition replicated_put :: "string \<Rightarrow> string \<Rightarrow> Request \<Rightarrow> bool" where
  "replicated_put k v req \<longleftrightarrow> rq_method req = ''PUT'' \<and> rq_path req = ''/kvstore/'' @ k \<and> rq_body req = v \<and>
     has_header req ''X-Internal-Replication''"

lemma deliver_put:
  assumes "pg_table env rows" "pg_up env" "cluster_ok rows w" "p \<in> alive" "route_key k" "replicated_put k v (meaning x)"
  shows "\<exists>w'. deliver env alive meaning ((p, x) # l) w = deliver env alive meaning l w' \<and> cluster_ok rows w' \<and>
    tables rows w' = (tables rows w)(p := (tables rows w p)(k \<mapsto> v))"
proof -
  let ?b = "\<lparr>ip = ''127.0.0.1'', port = p, status = UP\<rparr>" and ?ms = "[''/kvstore/'' @ k, k]"
  have "find_route routes (rq_method (meaning x)) (rq_path (meaning x)) = Some (Update, ?ms)"
    using assms(5,6) find_route_word(1)[of k] by (simp add: route_key_def replicated_put_def)
  moreover have "port ?b \<in> alive" using assms(4) by simp
  ultimately obtain w' code body where c: "cluster_call env alive ?b (meaning x) w = (Some (code, body), w')" "cluster_ok rows w'"
    "kv_spec Update (meaning x\<lparr>rq_matches := ?ms\<rparr>) (tables rows w (port ?b)) (tables rows w' (port ?b)) code body"
    "tables rows w' = (tables rows w)(port ?b := tables rows w' (port ?b))"
    using cluster_call_spec[OF assms(1-3)] by metis
  have "has_header (meaning x\<lparr>rq_matches := ?ms\<rparr>) ''X-Internal-Replication''"
    using assms(6) by (simp add: replicated_put_def has_header_def)
  with c(3) assms(6) have "tables rows w' p = (tables rows w p)(k \<mapsto> v)"
    by (simp add: replicated_put_def)
  with c show ?thesis by (intro exI[of _ w']) simp
qed

lemma write_begins:
  assumes "sys_alive sy" "i < length (sys_threads sy)" "th_job (sys_threads sy ! i) = Idle"
    and "idle fds (th_session (sys_threads sy ! i))"
    and "is_write r" "getWriteBackendsForKey hs (sys_router sy) (getKey r) 2 = Inr bs" "bs \<noteq> []"
  obtains th where "sys_step hs nets sy (leave sy i th)" "th_job th = Writing (request_payload r) bs [] False"
    "idle fds (th_session th)" "sys_router (leave sy i th) = sys_router sy" "sys_log (leave sy i th) = sys_log sy"
proof -
  let ?th = "enter sy i\<lparr>th_job := Writing (request_payload r) bs [] False\<rparr>"
  have "begin_request hs (nets i) r (enter sy i) = Some ?th"
    using assms(5-7) by (simp add: begin_request_def Let_def)
  from requested[where nets = nets, OF assms(1-3) this] show ?thesis
    using assms(4) by (intro that[of ?th]) (simp_all add: leave_def enter_def Let_def idle_def)
qed

lemma same_key_writers:
  assumes "sys_alive sy" "i < length (sys_threads sy)" "j < length (sys_threads sy)" "i \<noteq> j"
    and "good_net (nets i)" "good_net (nets j)"
    and "\<forall>n \<in> {i, j}. th_job (sys_threads sy ! n) = Idle \<and> idle fds (th_session (sys_threads sy ! n))"
    and "is_write r" "is_write q" "getKey q = getKey r"
    and "getWriteBackendsForKey hs (sys_router sy) (getKey r) 2 = Inr [a, b]"
  shows "\<exists>sy'. (sys_step hs nets)\<^sup>*\<^sup>* sy sy' \<and> sys_log sy' = sys_log sy @
    [(port a, request_payload r), (port a, request_payload q), (port b, request_payload q), (port b, request_payload r)]"
proof -
  have i: "th_job (sys_threads sy ! i) = Idle" "idle fds (th_session (sys_threads sy ! i))" using assms(7) by simp_all
  obtain t where 1: "sys_step hs nets sy (leave sy i t)" "th_job t = Writing (request_payload r) [a, b] [] False"
    "idle fds (th_session t)" "sys_router (leave sy i t) = sys_router sy" "sys_log (leave sy i t) = sys_log sy"
    by (rule write_begins[where nets = nets, OF assms(1,2) i assms(8,11)]) simp
  let ?sy1 = "leave sy i t"
  have j: "sys_alive ?sy1" "j < length (sys_threads ?sy1)" "th_job (sys_threads ?sy1 ! j) = Idle"
    "idle fds (th_session (sys_threads ?sy1 ! j))" "getWriteBackendsForKey hs (sys_router ?sy1) (getKey q) 2 = Inr [a, b]"
    using assms 1(4) by simp_all
  obtain u where 2: "sys_step hs nets ?sy1 (leave ?sy1 j u)" "th_job u = Writing (request_payload q) [a, b] [] False"
    "idle fds (th_session u)" "sys_router (leave ?sy1 j u) = sys_router ?sy1" "sys_log (leave ?sy1 j u) = sys_log ?sy1"
    by (rule write_begins[where nets = nets, OF j(1-4) assms(9) j(5)]) simp
  let ?sy2 = "leave ?sy1 j u"
  have k: "sys_alive ?sy2" "i < length (sys_threads ?sy2)" "j < length (sys_threads ?sy2)"
    "sys_threads ?sy2 ! i = t" "sys_threads ?sy2 ! j = u" using assms(1-4) by simp_all
  from two_writers[where nets = nets and hs = hs and x = "request_payload r" and y = "request_payload q" and a = a and b = b,
      OF k(1-3) assms(4-6), of fds] 1(2,3) 2(2,3) obtain sy' where
    "(sys_step hs nets)\<^sup>*\<^sup>* ?sy2 sy'" "sys_log sy' = sys_log ?sy2 @
      [(port a, request_payload r), (port a, request_payload q), (port b, request_payload q), (port b, request_payload r)]"
    unfolding k(4,5) by blast
  then show ?thesis using 1(1,5) 2(1,5) by (metis converse_rtranclp_into_rtranclp)
qed

lemma deliver_diverges:
  assumes pg: "pg_table env rows" "pg_up env" and ok: "cluster_ok rows w"
    and ports: "p \<in> alive" "q \<in> alive" "p \<noteq> q" and k: "route_key k"
    and m: "replicated_put k v1 (meaning x)" "replicated_put k v2 (meaning y)"
  shows "tables rows (deliver env alive meaning [(p, x), (p, y), (q, y), (q, x)] w) p k = Some v2 \<and>
    tables rows (deliver env alive meaning [(p, x), (p, y), (q, y), (q, x)] w) q k = Some v1"
proof -
  note d = deliver_put[where meaning = meaning and alive = alive, OF pg _ _ k]
  obtain w1 where 1: "deliver env alive meaning [(p, x), (p, y), (q, y), (q, x)] w = deliver env alive meaning [(p, y), (q, y), (q, x)] w1"
    "cluster_ok rows w1" "tables rows w1 = (tables rows w)(p := (tables rows w p)(k \<mapsto> v1))"
    using d[OF ok ports(1) m(1), of "[(p, y), (q, y), (q, x)]"] by blast
  obtain w2 where 2: "deliver env alive meaning [(p, y), (q, y), (q, x)] w1 = deliver env alive meaning [(q, y), (q, x)] w2"
    "cluster_ok rows w2" "tables rows w2 = (tables rows w1)(p := (tables rows w1 p)(k \<mapsto> v2))"
    using d[OF 1(2) ports(1) m(2), of "[(q, y), (q, x)]"] by blast
  obtain w3 where 3: "deliver env alive meaning [(q, y), (q, x)] w2 = deliver env alive meaning [(q, x)] w3"
    "cluster_ok rows w3" "tables rows w3 = (tables rows w2)(q := (tables rows w2 q)(k \<mapsto> v2))"
    using d[OF 2(2) ports(2) m(2), of "[(q, x)]"] by blast
  obtain w4 where 4: "deliver env alive meaning [(q, x)] w3 = deliver env alive meaning [] w4"
    "tables rows w4 = (tables rows w3)(q := (tables rows w3 q)(k \<mapsto> v1))"
    using d[OF 3(2) ports(2) m(1), of "[]"] by blast
  have "deliver env alive meaning [(p, x), (p, y), (q, y), (q, x)] w = w4"
    unfolding 1(1) 2(1) 3(1) 4(1) by simp
  then show ?thesis using 1(3) 2(3) 3(3) 4(2) ports(3) by simp
qed

subsection \<open>An instance\<close>

definition lb_demo_net :: net where
  "lb_demo_net = demo_net\<lparr>conns := \<lambda>n b. \<lparr>sock_result = 5, connect_result = 0, backend_send = int,
     backend_recv = (\<lambda>_. [])\<rparr>\<rparr>"

lemma lb_demo_good: "good_net lb_demo_net"
  by (simp add: good_net_def lb_demo_net_def reachable_def)

definition lb_demo_put :: "string \<Rightarrow> HttpRequest" where
  "lb_demo_put v = demo_write\<lparr>req_body := v, rawRequest := ''PUT /kvstore/k_1 HTTP/1.1'' @ CRLF @ CRLF @ v\<rparr>"

definition lb_demo_system :: system where
  "lb_demo_system = accept_turn 7 (accept_turn 6 (start_system demo_router))"

definition lb_demo_meaning :: "string \<Rightarrow> Request" where
  "lb_demo_meaning x = new_request\<lparr>rq_method := ''PUT'', rq_path := ''/kvstore/'' @ ''k_1'', rq_body := [last x],
     rq_headers := [(''X-Internal-Replication'', ''true'')]\<rparr>"

lemma lb_demo_candidates:
  "getWriteBackendsForKey demo_hash demo_router ''k_1'' 2 = Inr [demo_backend 9003 UP, demo_backend 9001 UP]"
proof -
  have "backends demo_router = map (\<lambda>p. (p, demo_backend p UP)) [9001, 9002, 9003]"
    by (simp add: demo_router_def demo_backend_def)
  moreover have "getNodes demo_hash (router_ring demo_router) ''k_1'' 2 = [demo_backend 9003 UP, demo_backend 9001 UP]"
    unfolding demo_router_ring getNodes_def demo_ring_value by code_simp
  ultimately show ?thesis
    by (simp add: getWriteBackendsForKey_def demo_router_ring ring_empty_def demo_ring_value demo_backend_def)
qed

lemma lb_demo_meaning: "replicated_put ''k_1'' [c] (lb_demo_meaning (request_payload (lb_demo_put [c])))"
proof -
  have "str_find CRLF (rawRequest (lb_demo_put [c])) = Some 25" by (simp add: lb_demo_put_def)
  then have "last (request_payload (lb_demo_put [c])) = c"
    by (simp add: request_payload_def replication_header_def lb_demo_put_def demo_write_def)
  then show ?thesis
    by (simp add: replicated_put_def lb_demo_meaning_def has_header_def headers_has_def case_equal_def new_request_def)
qed

lemma lb_demo_fields:
  "is_write (lb_demo_put v)" "getKey (lb_demo_put v) = ''k_1''"
  "sys_alive lb_demo_system" "sys_router lb_demo_system = demo_router" "length (sys_threads lb_demo_system) = 2"
  "\<forall>n \<in> {0, 1}. th_job (sys_threads lb_demo_system ! n) = Idle \<and> idle [] (th_session (sys_threads lb_demo_system ! n))"
proof -
  show "is_write (lb_demo_put v)" by (simp add: is_write_def lb_demo_put_def demo_write_def)
  have "getKey (lb_demo_put v) = getKey (empty_request\<lparr>req_path := ''/kvstore/'' @ ''k_1''\<rparr>)"
    by (simp add: getKey_def lb_demo_put_def demo_write_def)
  then show "getKey (lb_demo_put v) = ''k_1''" by (simp only: getKey_path) (code_simp)
  show "sys_alive lb_demo_system" "sys_router lb_demo_system = demo_router" "length (sys_threads lb_demo_system) = 2"
    "\<forall>n \<in> {0, 1}. th_job (sys_threads lb_demo_system ! n) = Idle \<and> idle [] (th_session (sys_threads lb_demo_system ! n))"
    by (simp_all add: lb_demo_system_def accept_turn_def start_system_def)
qed

lemma begin_run:
  assumes "begin_request hs net r th = Some th1" "th_job th = Idle" "handle_request hs net r (th_session th) = (v, s)"
  shows "run_client hs net th1 = th\<lparr>th_session := s, th_job := (if v = Goes_on then Idle else Ended)\<rparr>"
proof -
  from assms(1) obtain bs where bs: "(if is_write r then getWriteBackendsForKey hs (sess_router (th_session th)) (getKey r) 2
      else getReadBackendsForKey hs (sess_router (th_session th)) (getKey r) 2) = Inr bs"
    by (auto simp: begin_request_def Let_def split: sum.splits)
  show ?thesis
  proof (cases "bs = []")
    case True
    with bs assms show ?thesis by (auto simp: begin_request_def handle_request_def Let_def run_stops)
  next
    case False
    show ?thesis
    proof (cases "is_write r")
      case w: True
      have th1: "th1 = th\<lparr>th_job := Writing (request_payload r) bs [] False\<rparr>"
        using bs assms(1) False w by (auto simp: begin_request_def Let_def)
      from run_writing[of th1 "request_payload r" bs "[]" False hs net] bs assms(3) False w show ?thesis
        by (auto simp: th1 handle_request_def handle_write_def split: prod.splits)
    next
      case w: False
      have th1: "th1 = th\<lparr>th_job := Fetching (rawRequest r) bs\<rparr>"
        using bs assms(1) False w by (auto simp: begin_request_def Let_def)
      from run_fetching[of th1 "rawRequest r" bs hs net] bs assms(2,3) False w show ?thesis
        by (auto simp: th1 handle_request_def handle_fetch_def split: prod.splits if_splits)
    qed
  qed
qed

subsection \<open>Properties\<close>







text \<open>
  C9. Two clients that update one key at the same time can leave its two replicas with different values:
  each client has a thread of its own, and the first can reach one replica before the second does
  and the other replica after it. Delivered in that order, the one replica holds the second value
  and the other the first.
\<close>

theorem concurrent_writes_diverge:
  assumes "sys_alive sy" "i < length (sys_threads sy)" "j < length (sys_threads sy)" "i \<noteq> j"
    and "good_net (nets i)" "good_net (nets j)"
    and "\<forall>n \<in> {i, j}. th_job (sys_threads sy ! n) = Idle \<and> idle fds (th_session (sys_threads sy ! n))"
    and "is_write r" "is_write q" "getKey r = k" "getKey q = k" "route_key k"
    and "getWriteBackendsForKey hs (sys_router sy) k 2 = Inr [a, b]" "port a \<noteq> port b"
    and "replicated_put k v1 (meaning (request_payload r))" "replicated_put k v2 (meaning (request_payload q))"
    and "pg_table env rows" "pg_up env" "cluster_ok rows w" "{port a, port b} \<subseteq> alive"
  shows "\<exists>sy' log. (sys_step hs nets)\<^sup>*\<^sup>* sy sy' \<and> sys_log sy' = sys_log sy @ log \<and>
    tables rows (deliver env alive meaning log w) (port a) k = Some v2 \<and>
    tables rows (deliver env alive meaning log w) (port b) k = Some v1"
proof -
  let ?x = "request_payload r" and ?y = "request_payload q"
  let ?log = "[(port a, ?x), (port a, ?y), (port b, ?y), (port b, ?x)]"
  have key: "getKey q = getKey r" "getWriteBackendsForKey hs (sys_router sy) (getKey r) 2 = Inr [a, b]"
    using assms(10,11,13) by simp_all
  have alive: "port a \<in> alive" "port b \<in> alive" using assms(20) by simp_all
  obtain sy' where "(sys_step hs nets)\<^sup>*\<^sup>* sy sy'" "sys_log sy' = sys_log sy @ ?log"
    using same_key_writers[OF assms(1-9) key] by blast
  with deliver_diverges[OF assms(17-19) alive assms(14,12,15,16)] show ?thesis by blast
qed

lemma concurrent_writes_diverge_witness:
  "\<exists>sy' log. (sys_step demo_hash (\<lambda>_. lb_demo_net))\<^sup>*\<^sup>* lb_demo_system sy' \<and> sys_log sy' = sys_log lb_demo_system @ log \<and>
    tables map_of (deliver mem_pg UNIV lb_demo_meaning log (\<lambda>_. start_server [] [])) 9003 ''k_1'' = Some ''2'' \<and>
    tables map_of (deliver mem_pg UNIV lb_demo_meaning log (\<lambda>_. start_server [] [])) 9001 ''k_1'' = Some ''1''"
proof -
  have k: "route_key ''k_1''" by (simp add: route_key_def is_word_def)
  have c: "getWriteBackendsForKey demo_hash (sys_router lb_demo_system) ''k_1'' 2 = Inr [demo_backend 9003 UP, demo_backend 9001 UP]"
    using lb_demo_candidates by (simp add: lb_demo_fields)
  have p: "port (demo_backend 9003 UP) = 9003" "port (demo_backend 9001 UP) = 9001" by (simp_all add: demo_backend_def)
  have ok: "cluster_ok map_of (\<lambda>_. start_server [] [])" by (simp add: cluster_ok_def server_ok_start)
  have good: "good_net ((\<lambda>_. lb_demo_net) n)" for n :: nat by (simp add: lb_demo_good)
  from concurrent_writes_diverge[where nets = "\<lambda>_. lb_demo_net" and i = 0 and j = 1 and fds = "[]" and
      meaning = lb_demo_meaning and r = "lb_demo_put ''1''" and q = "lb_demo_put ''2''", OF lb_demo_fields(3) _ _ _ good good lb_demo_fields(6,1,1,2,2) k c _
      lb_demo_meaning lb_demo_meaning mem_pg_table mem_pg_up ok, of UNIV]
  show ?thesis by (simp add: p lb_demo_fields)
qed

end
