(* ===== verification/KvClient.thy ===== *)
theory KvClient
  imports Cluster
begin

text \<open>
  The command-line client, kvclient.cpp: the loop that reads a command, sends the request it stands
  for to the load balancer and prints the reply. The HTTP client is a parameter: it gives the body
  of the response, or nothing when the request fails, and changes a world of its own. The standard
  input is the characters not yet read and the state of the stream. The lemmas show when the loop
  ends, and that a typed command is the operation it names on the table of a server.
\<close>

subsection \<open>The requests\<close>

datatype call =
    Post_create string
  | Delete_path string
  | Get_path string
  | Put_path string string

type_synonym 'w http_client = "call \<Rightarrow> 'w \<Rightarrow> string option \<times> 'w"

record 'w shell =
  sh_in :: string
  sh_good :: bool
  user_input :: string
  sh_out :: string
  sh_world :: 'w

definition start_shell :: "string \<Rightarrow> 'w \<Rightarrow> 'w shell" where
  "start_shell inp w = \<lparr>sh_in = inp, sh_good = True, user_input = [], sh_out = [], sh_world = w\<rparr>"

subsection \<open>Reading a command\<close>

text \<open>
  \<open>std::getline(std::cin, user_input)\<close>. On a stream that is not good the string stays as it is;
  otherwise it is emptied first, and the end of the input makes the stream bad.
\<close>

definition cin_getline :: "'w shell \<Rightarrow> 'w shell" where
  "cin_getline sh =
     (if \<not> sh_good sh then sh
      else if CHR 0x0A \<in> set (sh_in sh)
      then sh\<lparr>user_input := takeWhile (\<lambda>c. c \<noteq> CHR 0x0A) (sh_in sh),
              sh_in := drop 1 (dropWhile (\<lambda>c. c \<noteq> CHR 0x0A) (sh_in sh))\<rparr>
      else sh\<lparr>user_input := sh_in sh, sh_in := [], sh_good := False\<rparr>)"

text \<open>The parts of a command: \<open>>> cmd >> key\<close>, then the rest of the line less one space.\<close>

definition split_command :: "string \<Rightarrow> string \<times> string \<times> string" where
  "split_command line =
     (let (cmd, r) = stream_word line;
          (key, r1) = stream_word r;
          value = (case getline (CHR 0x0A) r1 of None \<Rightarrow> [] | Some (l, _) \<Rightarrow> l)
      in (cmd, key, if value \<noteq> [] \<and> value ! 0 = CHR '' '' then drop 1 value else value))"

subsection \<open>The commands\<close>

definition print :: "string \<Rightarrow> 'w shell \<Rightarrow> 'w shell" where
  "print s sh = sh\<lparr>sh_out := sh_out sh @ s\<rparr>"

definition perform :: "'w http_client \<Rightarrow> call \<Rightarrow> 'w shell \<Rightarrow> 'w shell" where
  "perform cl c sh =
     (let (res, w) = cl c (sh_world sh); sh1 = sh\<lparr>sh_world := w\<rparr>
      in case res of
           Some body \<Rightarrow> print (''Server replied: '' @ body @ [CHR 0x0A]) sh1
         | None \<Rightarrow> print (''Request failed'' @ [CHR 0x0A]) sh1)"

text \<open>One turn of the loop after the command has been read.\<close>

definition client_turn :: "'w http_client \<Rightarrow> 'w shell \<Rightarrow> 'w shell" where
  "client_turn cl sh =
     (let (cmd, key, value) = split_command (user_input sh)
      in if cmd = ''create''
         then if key = [] \<or> value = [] then print (''Usage: create <key> <value>'' @ [CHR 0x0A]) sh
              else perform cl (Post_create (key @ '' '' @ value)) sh
         else if cmd = ''delete''
         then if key = [] then print (''Usage: delete <key>'' @ [CHR 0x0A]) sh
              else perform cl (Delete_path (c_str (''/kvstore/'' @ key))) sh
         else if cmd = ''read''
         then if key = [] then print (''Usage: read <key>'' @ [CHR 0x0A]) sh
              else perform cl (Get_path (c_str (''/kvstore/'' @ key))) sh
         else if cmd = ''update''
         then if key = [] \<or> value = [] then print (''Usage: update <key> <value>'' @ [CHR 0x0A]) sh
              else perform cl (Put_path (c_str (''/kvstore/'' @ key)) value) sh
         else print (''Unknown command. Use create/read/update/delete/exit.'' @ [CHR 0x0A]) sh)"

definition prompt :: "'w shell \<Rightarrow> 'w shell" where
  "prompt sh = cin_getline (print ''>> '' sh)"

text \<open>The loop of \<open>main\<close>; \<open>None\<close> when it never ends.\<close>

partial_function (option) client_main :: "'w http_client \<Rightarrow> 'w shell \<Rightarrow> 'w shell option" where
  "client_main cl sh =
     (if user_input (prompt sh) = ''exit'' then Some (prompt sh)
      else client_main cl (client_turn cl (prompt sh)))"

subsection \<open>When the loop ends\<close>

lemma client_turn_fields [simp]:
  "sh_in (client_turn cl sh) = sh_in sh" "sh_good (client_turn cl sh) = sh_good sh"
  "user_input (client_turn cl sh) = user_input sh"
  by (simp_all add: client_turn_def perform_def print_def Let_def case_prod_beta' split: option.split)

text \<open>What is left to read when the loop starts a turn: at the end of the input, the last command again.\<close>

definition commands :: "'w shell \<Rightarrow> string list" where
  "commands sh = (if sh_good sh then lines (sh_in sh) else [user_input sh])"

lemma lines_newline:
  assumes "CHR 0x0A \<in> set s"
  shows "lines s = takeWhile (\<lambda>c. c \<noteq> CHR 0x0A) s # lines (drop 1 (dropWhile (\<lambda>c. c \<noteq> CHR 0x0A) s))"
  using assms by (subst lines.simps) (auto simp: getline_def)

lemma lines_last: "CHR 0x0A \<notin> set s \<Longrightarrow> lines s = (if s = [] then [] else [s])"
  using getline_last[of "CHR 0x0A" s] by (cases "s = []") (simp_all add: lines.simps[of s])

lemma prompt_cases:
  obtains (line) "sh_good sh" "sh_good (prompt sh)" "commands sh = user_input (prompt sh) # commands (prompt sh)"
      "length (sh_in (prompt sh)) < length (sh_in sh)"
  | (last) "\<not> sh_good (prompt sh)" "\<And>c. c \<noteq> [] \<Longrightarrow> c \<in> set (commands sh) \<longleftrightarrow> c = user_input (prompt sh)"
      "commands (prompt sh) = [user_input (prompt sh)]"
proof (cases "sh_good sh \<and> CHR 0x0A \<in> set (sh_in sh)")
  case True
  have "length (drop 1 (dropWhile (\<lambda>c. c \<noteq> CHR 0x0A) (sh_in sh))) < length (sh_in sh)"
    using True length_dropWhile_le[of "\<lambda>c. c \<noteq> CHR 0x0A" "sh_in sh"] by (cases "sh_in sh") auto
  with True show ?thesis
    using lines_newline[of "sh_in sh"]
    by (intro line) (simp_all add: prompt_def print_def cin_getline_def commands_def)
next
  case False
  then show ?thesis
    by (intro last) (auto simp: prompt_def print_def cin_getline_def commands_def lines_last)
qed

lemma commands_turn [simp]: "commands (client_turn cl sh) = commands sh"
  by (simp add: commands_def)

lemma ends_only_on_exit:
  assumes "client_main cl sh = Some sh'"
  shows "''exit'' \<in> set (commands sh)"
proof (rule client_main.raw_induct[where P = "\<lambda>cl sh sh'. ''exit'' \<in> set (commands sh)", OF _ assms], goal_cases)
  case (1 main cl sh sh')
  have ex: "''exit'' \<in> insert (user_input (prompt sh)) (set (commands (prompt sh)))"
  proof (cases "user_input (prompt sh) = ''exit''")
    case False
    with 1(2) have "main cl (client_turn cl (prompt sh)) = Some sh'" by simp
    from 1(1)[OF this] show ?thesis by simp
  qed simp
  then show ?case
  proof (cases rule: prompt_cases[of sh])
    case last
    have "''exit'' \<in> set (commands sh) \<longleftrightarrow> ''exit'' = user_input (prompt sh)" by (rule last(2)) simp
    then show ?thesis using ex unfolding last(3) by (simp only: list.set insert_iff empty_iff simp_thms)
  qed (use ex in simp)
qed

lemma ends_on_exit: "''exit'' \<in> set (commands sh) \<Longrightarrow> \<exists>sh'. client_main cl sh = Some sh'"
proof (induction "length (sh_in sh)" arbitrary: sh rule: less_induct)
  case less
  show ?case
  proof (cases "user_input (prompt sh) = ''exit''")
    case False
    show ?thesis
    proof (cases rule: prompt_cases[of sh])
      case line
      then have "\<exists>sh'. client_main cl (client_turn cl (prompt sh)) = Some sh'"
        using less False by simp
      then show ?thesis using False by (simp add: client_main.simps[of cl sh])
    next
      case last
      then show ?thesis using less.prems False by simp
    qed
  qed (simp add: client_main.simps[of cl sh])
qed

subsection \<open>What the commands mean\<close>

datatype command =
    Create_cmd string string
  | Read_cmd string
  | Update_cmd string string
  | Delete_cmd string

fun command_text :: "command \<Rightarrow> string" where
  "command_text (Create_cmd k v) = ''create '' @ k @ '' '' @ v"
| "command_text (Read_cmd k) = ''read '' @ k"
| "command_text (Update_cmd k v) = ''update '' @ k @ '' '' @ v"
| "command_text (Delete_cmd k) = ''delete '' @ k"

definition value_ok :: "string \<Rightarrow> bool" where
  "value_ok v \<longleftrightarrow> v \<noteq> [] \<and> CHR 0x0A \<notin> set v"

fun command_ok :: "command \<Rightarrow> bool" where
  "command_ok (Create_cmd k v) \<longleftrightarrow> route_key k \<and> value_ok v"
| "command_ok (Read_cmd k) \<longleftrightarrow> route_key k"
| "command_ok (Update_cmd k v) \<longleftrightarrow> route_key k \<and> value_ok v"
| "command_ok (Delete_cmd k) \<longleftrightarrow> route_key k"

fun command_table :: "command \<Rightarrow> (string \<rightharpoonup> string) \<Rightarrow> (string \<rightharpoonup> string)" where
  "command_table (Create_cmd k v) m = (if m k = None then m(k \<mapsto> v) else m)"
| "command_table (Read_cmd k) m = m"
| "command_table (Update_cmd k v) m = (if m k = None then m else m(k \<mapsto> v))"
| "command_table (Delete_cmd k) m = m(k := None)"

fun command_reply :: "command \<Rightarrow> (string \<rightharpoonup> string) \<Rightarrow> string" where
  "command_reply (Create_cmd k v) m = (if m k = None then ''Created Successfully'' else ''Error: Key already exists'')"
| "command_reply (Read_cmd k) m = (case m k of Some v \<Rightarrow> v | None \<Rightarrow> ''Key not Found'' @ [CHR 0x0A])"
| "command_reply (Update_cmd k v) m = (if m k = None then ''Key not found in DB'' else ''Updated Successfully'') @ [CHR 0x0A]"
| "command_reply (Delete_cmd k) m = (if m k = None then ''Key Not Found'' else ''Deleted Successfully'') @ [CHR 0x0A]"

text \<open>The call a command makes, and the request a server reads of a call.\<close>

fun command_call :: "command \<Rightarrow> call" where
  "command_call (Create_cmd k v) = Post_create (k @ '' '' @ v)"
| "command_call (Read_cmd k) = Get_path (''/kvstore/'' @ k)"
| "command_call (Update_cmd k v) = Put_path (''/kvstore/'' @ k) v"
| "command_call (Delete_cmd k) = Delete_path (''/kvstore/'' @ k)"

fun call_request :: "call \<Rightarrow> Request" where
  "call_request (Post_create body) = client_request ''POST'' ''/kvstore/create'' body"
| "call_request (Get_path path) = client_request ''GET'' path []"
| "call_request (Put_path path body) = client_request ''PUT'' path body"
| "call_request (Delete_path path) = client_request ''DELETE'' path []"

definition server_client :: "'db server_env \<Rightarrow> int set \<Rightarrow> backend \<Rightarrow> (int \<Rightarrow> 'db server) http_client" where
  "server_client env alive b c w = map_prod (map_option snd) id (cluster_call env alive b (call_request c) w)"

lemma word_no_space: "list_all is_word k \<Longrightarrow> c \<in> set k \<Longrightarrow> \<not> is_space c \<and> c \<noteq> CHR 0x00"
  by (auto simp: list_all_iff is_word_def is_space_def)

lemma stream_word_first:
  assumes "w \<noteq> []" "\<forall>c \<in> set w. \<not> is_space c" "r \<noteq> [] \<Longrightarrow> is_space (hd r)"
  shows "stream_word (w @ r) = (w, r)" "stream_word (CHR '' '' # w @ r) = (w, r)"
proof -
  have "dropWhile is_space (w @ r) = w @ r" using assms(1,2) by (cases w) simp_all
  moreover have "takeWhile (\<lambda>c. \<not> is_space c) (w @ r) = w" "dropWhile (\<lambda>c. \<not> is_space c) (w @ r) = r"
    using assms(2,3) by (cases r; simp)+
  moreover have "is_space (CHR '' '')" by (simp add: is_space_def)
  ultimately show "stream_word (w @ r) = (w, r)" "stream_word (CHR '' '' # w @ r) = (w, r)"
    by (simp_all add: stream_word_def)
qed

lemma split_command_text:
  assumes "cmd \<noteq> []" "\<forall>c \<in> set cmd. \<not> is_space c" "route_key k"
  shows "split_command (cmd @ '' '' @ k) = (cmd, k, [])"
    and "value_ok v \<Longrightarrow> split_command (cmd @ '' '' @ k @ '' '' @ v) = (cmd, k, v)"
proof -
  have sp: "is_space (CHR '' '')" by (simp add: is_space_def)
  have k: "k \<noteq> []" "\<forall>c \<in> set k. \<not> is_space c" using assms(3) word_no_space by (auto simp: route_key_def)
  from stream_word_first(1)[OF assms(1,2), of "'' '' @ r" for r] sp
  have cmd: "stream_word (cmd @ '' '' @ r) = (cmd, '' '' @ r)" for r by simp
  from stream_word_first(2)[OF k, of "[]"] cmd[of k] show "split_command (cmd @ '' '' @ k) = (cmd, k, [])"
    by (simp add: split_command_def getline_def)
  assume v: "value_ok v"
  from stream_word_first(2)[OF k, of "'' '' @ v"] sp have "stream_word (CHR '' '' # k @ '' '' @ v) = (k, '' '' @ v)" by simp
  moreover have "getline (CHR 0x0A) ('' '' @ v) = Some ('' '' @ v, [])"
    by (rule getline_last) (use v in \<open>simp_all add: value_ok_def\<close>)
  ultimately show "split_command (cmd @ '' '' @ k @ '' '' @ v) = (cmd, k, v)"
    using cmd[of "k @ '' '' @ v"] by (simp add: split_command_def)
qed

lemma c_str_path: "route_key k \<Longrightarrow> c_str (''/kvstore/'' @ k) = ''/kvstore/'' @ k"
  using word_no_space[of k] by (auto simp: c_str_def takeWhile_eq_all_conv route_key_def)

lemma turn_command:
  assumes "command_ok c" "user_input sh = command_text c"
  shows "client_turn cl sh = perform cl (command_call c) sh"
proof (cases c)
  case (Create_cmd k v)
  with assms have "split_command (user_input sh) = (''create'', k, v)"
    using split_command_text(2)[of "''create''" k v] by (simp add: is_space_def)
  with assms(1) Create_cmd show ?thesis by (simp add: client_turn_def route_key_def value_ok_def)
next
  case (Read_cmd k)
  with assms have "split_command (user_input sh) = (''read'', k, [])"
    using split_command_text(1)[of "''read''" k] by (simp add: is_space_def)
  with assms(1) Read_cmd c_str_path[of k] show ?thesis by (simp add: client_turn_def route_key_def)
next
  case (Update_cmd k v)
  with assms have "split_command (user_input sh) = (''update'', k, v)"
    using split_command_text(2)[of "''update''" k v] by (simp add: is_space_def)
  with assms(1) Update_cmd c_str_path[of k] show ?thesis by (simp add: client_turn_def route_key_def value_ok_def)
next
  case (Delete_cmd k)
  with assms have "split_command (user_input sh) = (''delete'', k, [])"
    using split_command_text(1)[of "''delete''" k] by (simp add: is_space_def)
  with assms(1) Delete_cmd c_str_path[of k] show ?thesis by (simp add: client_turn_def route_key_def)
qed

text \<open>A command against a server is the operation it names.\<close>

lemma split_create_parts:
  assumes "route_key k" "value_ok v"
  shows "split_create (k @ '' '' @ v) = (k, v)"
proof -
  have "CHR '' '' \<notin> set k" using assms(1) word_no_space[of k "CHR '' ''"] by (auto simp: route_key_def is_space_def)
  with assms(2) show ?thesis
    using getline_append[of "CHR '' ''" k v] getline_last[of "CHR 0x0A" v] by (simp add: split_create_def value_ok_def)
qed

fun command_route :: "command \<Rightarrow> handler \<times> string list" where
  "command_route (Create_cmd k v) = (Create, [''/kvstore/create''])"
| "command_route (Read_cmd k) = (Read, [''/kvstore/'' @ k, k])"
| "command_route (Update_cmd k v) = (Update, [''/kvstore/'' @ k, k])"
| "command_route (Delete_cmd k) = (Delete, [''/kvstore/'' @ k, k])"

lemma command_routed:
  assumes "command_ok c"
  shows "find_route routes (rq_method (call_request (command_call c))) (rq_path (call_request (command_call c))) =
    Some (command_route c)"
proof -
  have r: "k \<noteq> [] \<and> list_all is_word k \<and> k \<noteq> ''allkeys''" if "route_key k" for k using that by (simp add: route_key_def)
  show ?thesis
  proof (cases c)
    case (Create_cmd k v)
    with assms r[of k] find_route_word(6)[of k] show ?thesis by simp
  next
    case (Read_cmd k)
    with assms r[of k] find_route_word(3)[of k] show ?thesis by simp
  next
    case (Update_cmd k v)
    with assms r[of k] find_route_word(1)[of k] show ?thesis by simp
  next
    case (Delete_cmd k)
    with assms r[of k] find_route_word(2)[of k] show ?thesis by simp
  qed
qed

lemma client_request_headers [simp]: "\<not> has_header (client_request m p b\<lparr>rq_matches := ms\<rparr>) key"
  by (simp add: client_request_def has_header_def headers_has_def new_request_def)

lemma command_spec:
  assumes "command_ok c" "command_route c = (h, ms)"
    and "kv_spec h (call_request (command_call c)\<lparr>rq_matches := ms\<rparr>) m m' code body"
  shows "m' = command_table c m \<and> body = command_reply c m"
  using assms split_create_parts by (cases c) (auto simp: Let_def split: if_splits option.splits)

lemma command_on_server:
  assumes "pg_table env rows" "pg_up env" "cluster_ok rows w" "port b \<in> alive" "command_ok c"
  shows "\<exists>w'. server_client env alive b (command_call c) w = (Some (command_reply c (tables rows w (port b))), w') \<and>
    cluster_ok rows w' \<and> tables rows w' = (tables rows w)(port b := command_table c (tables rows w (port b)))"
proof -
  obtain h ms where r: "command_route c = (h, ms)" by fastforce
  note route = command_routed[OF assms(5), unfolded r]
  obtain w' code body where c: "cluster_call env alive b (call_request (command_call c)) w = (Some (code, body), w')"
    "cluster_ok rows w'"
    "kv_spec h (call_request (command_call c)\<lparr>rq_matches := ms\<rparr>) (tables rows w (port b)) (tables rows w' (port b)) code body"
    "tables rows w' = (tables rows w)(port b := tables rows w' (port b))"
    by (rule cluster_call_spec[OF assms(1-4) route])
  with command_spec[OF assms(5) r c(3)] show ?thesis by (intro exI[of _ w']) (simp add: server_client_def)
qed

subsection \<open>Properties\<close>




end
