(* ===== verification/LoadGen.thy ===== *)
theory LoadGen
  imports KvClient "HOL-Library.Multiset"
begin

text \<open>
  The load generator, load_gen.cpp: the parameters read from the standard input, the workers that
  send requests until their time is up, and the totals. The workers are threads that share one
  atomic counter; a worker's turn ends at each of its accesses to the counter and at each reply, and
  the turns of different workers interleave in any order. The clock, the replies and the printing of
  floating-point quotients are parameters. The lemmas show that the statistics add up in every
  interleaving, that every number is taken by exactly one worker, and what the workloads leave on a
  server.
\<close>

subsection \<open>Data\<close>

record Stats =
  total_requests :: int
  total_success :: int
  total_fail :: int
  total_latency_ns :: int

definition no_stats :: Stats where
  "no_stats = \<lparr>total_requests = 0, total_success = 0, total_fail = 0, total_latency_ns = 0\<rparr>"

datatype Workload = PUT_ALL | GET_ALL | GET_POPULAR | GET_PUT

definition key_text :: "int \<Rightarrow> string" where
  "key_text n = ''k_'' @ string_of_int n"

definition value_text :: "int \<Rightarrow> string" where
  "value_text n = ''v_'' @ string_of_int n"

definition popular_keys :: "string list" where
  "popular_keys = map (\<lambda>i. ''popular_'' @ string_of_int (int i)) [0..<15]"

definition create_call :: "int \<Rightarrow> call" where
  "create_call n = Post_create (key_text n @ '' '' @ value_text n)"

definition read_call :: "string \<Rightarrow> call" where
  "read_call key = Get_path (c_str (''/kvstore/'' @ key))"

text \<open>Which statuses count as a success; \<open>None\<close> is a request that failed.\<close>

fun reply_ok :: "call \<Rightarrow> int option \<Rightarrow> bool" where
  "reply_ok c None = False"
| "reply_ok (Post_create body) (Some code) = (code = 201 \<or> code = 409)"
| "reply_ok c (Some code) = (code = 200 \<or> code = 404)"

subsection \<open>A worker\<close>

text \<open>
  Where a worker is: at the test of the clock, at its first access to the counter, between the two
  loads of a read of \<open>GET_PUT\<close>, waiting for a reply, or returned.
\<close>

datatype phase = At_test | At_choice | At_reload | At_reply call | Returned

text \<open>\<open>numbers\<close> and \<open>calls\<close> record what the worker has taken and sent.\<close>

record lg_worker =
  stats :: Stats
  turn_counter :: int
  phase :: phase
  numbers :: "int list"
  calls :: "call list"

definition new_worker :: lg_worker where
  "new_worker = \<lparr>stats = no_stats, turn_counter = 0, phase = At_test, numbers = [], calls = []\<rparr>"

definition send_call :: "call \<Rightarrow> lg_worker \<Rightarrow> lg_worker" where
  "send_call c w = w\<lparr>phase := At_reply c, calls := calls w @ [c]\<rparr>"

text \<open>\<open>global_key_counter++\<close>: the number taken, and the counter afterwards.\<close>

definition take_number :: "int \<Rightarrow> lg_worker \<Rightarrow> int \<times> lg_worker" where
  "take_number g w = (g + 1, w\<lparr>numbers := numbers w @ [g]\<rparr>)"

text \<open>The choice of the next request, up to the access after which it is known.\<close>

definition choose_request :: "Workload \<Rightarrow> int \<Rightarrow> lg_worker \<Rightarrow> int \<times> lg_worker" where
  "choose_request type g w =
     (case type of
        PUT_ALL \<Rightarrow> (let (g', w') = take_number g w in (g', send_call (create_call g) w'))
      | GET_ALL \<Rightarrow> (let (g', w') = take_number g w in (g', send_call (read_call (key_text g)) w'))
      | GET_POPULAR \<Rightarrow>
          (g, send_call (read_call (popular_keys ! nat (turn_counter w mod int (length popular_keys)))) w)
      | GET_PUT \<Rightarrow>
          if turn_counter w mod 2 = 0
          then (let (g', w') = take_number g w in (g', send_call (create_call g) w'))
          else if 0 < g then (g, w\<lparr>phase := At_reload\<rparr>)
          else (g, send_call (read_call (key_text 0)) w))"

text \<open>What happens to a worker: the clock, its turn, or a reply after a time.\<close>

datatype lg_event = Clock bool | Turn | Reply "int option" int

definition count_request :: "lg_worker \<Rightarrow> lg_worker" where
  "count_request w = w\<lparr>stats := (stats w)\<lparr>total_requests := total_requests (stats w) + 1\<rparr>, phase := At_choice\<rparr>"

definition count_reply :: "bool \<Rightarrow> int \<Rightarrow> lg_worker \<Rightarrow> lg_worker" where
  "count_reply ok latency w =
     (let st = (stats w)\<lparr>total_latency_ns := total_latency_ns (stats w) + latency\<rparr>;
          st1 = (if ok then st\<lparr>total_success := total_success st + 1\<rparr> else st\<lparr>total_fail := total_fail st + 1\<rparr>)
      in w\<lparr>stats := st1, turn_counter := turn_counter w + 1, phase := At_test\<rparr>)"

fun worker_turn :: "Workload \<Rightarrow> lg_event \<Rightarrow> int \<Rightarrow> phase \<Rightarrow> lg_worker \<Rightarrow> (int \<times> lg_worker) option" where
  "worker_turn type (Clock before_end) g At_test w =
     Some (g, if before_end then count_request w else w\<lparr>phase := Returned\<rparr>)"
| "worker_turn type Turn g At_choice w = Some (choose_request type g w)"
| "worker_turn type Turn g At_reload w = Some (g, send_call (read_call (key_text (g - 1))) w)"
| "worker_turn type (Reply code latency) g (At_reply c) w = Some (g, count_reply (reply_ok c code) latency w)"
| "worker_turn type e g p w = None"

subsection \<open>The workers together\<close>

record load =
  global_key_counter :: int
  lg_workers :: "lg_worker list"

definition start_load :: "nat \<Rightarrow> load" where
  "start_load threads = \<lparr>global_key_counter = 0, lg_workers = replicate threads new_worker\<rparr>"

inductive load_step :: "Workload \<Rightarrow> load \<Rightarrow> load \<Rightarrow> bool" for type where
  step: "i < length (lg_workers l) \<Longrightarrow>
    worker_turn type e (global_key_counter l) (phase (lg_workers l ! i)) (lg_workers l ! i) = Some (g, w) \<Longrightarrow>
    load_step type l \<lparr>global_key_counter = g, lg_workers = (lg_workers l)[i := w]\<rparr>"

text \<open>A run that satisfies a property of the counter and each worker keeps it.\<close>

lemma load_step_all:
  assumes "load_step type l l'" "\<forall>w \<in> set (lg_workers l). P (global_key_counter l) w"
    and "\<And>g w e g' w'. P g w \<Longrightarrow> worker_turn type e g (phase w) w = Some (g', w') \<Longrightarrow> P g' w' \<and> (\<forall>v. P g v \<longrightarrow> P g' v)"
  shows "\<forall>w \<in> set (lg_workers l'). P (global_key_counter l') w"
  using assms(1)
proof cases
  case (step i e g w)
  then have "P g w" "\<And>v. P (global_key_counter l) v \<Longrightarrow> P g v" using assms(2,3) nth_mem by blast+
  with step assms(2) show ?thesis by (auto dest!: set_update_subset_insert[THEN subsetD])
qed

lemma reachable_all:
  assumes "(load_step type)\<^sup>*\<^sup>* (start_load n) l" "P 0 new_worker"
    and "\<And>g w e g' w'. P g w \<Longrightarrow> worker_turn type e g (phase w) w = Some (g', w') \<Longrightarrow> P g' w' \<and> (\<forall>v. P g v \<longrightarrow> P g' v)"
  shows "\<forall>w \<in> set (lg_workers l). P (global_key_counter l) w"
  using assms(1)
proof induction
  case base
  show ?case using assms(2) by (simp add: start_load_def)
next
  case (step l1 l2)
  then show ?case using load_step_all[of type l1 l2 P] assms(3) by blast
qed

subsection \<open>The statistics of a worker\<close>

definition pending :: "phase \<Rightarrow> int" where
  "pending p = (if p = At_test \<or> p = Returned then 0 else 1)"

definition stats_ok :: "lg_worker \<Rightarrow> bool" where
  "stats_ok w \<longleftrightarrow> total_requests (stats w) = total_success (stats w) + total_fail (stats w) + pending (phase w) \<and>
     turn_counter w = total_success (stats w) + total_fail (stats w) \<and>
     0 \<le> total_success (stats w) \<and> 0 \<le> total_fail (stats w)"

lemma worker_turn_cases [consumes 1, case_names clock chosen reload reply]:
  assumes "worker_turn type e g (phase w) w = Some (g', w')"
  obtains (clock) before_end where "phase w = At_test" "e = Clock before_end" "g' = g"
      "w' = (if before_end then count_request w else w\<lparr>phase := Returned\<rparr>)"
  | (chosen) "phase w = At_choice" "e = Turn" "choose_request type g w = (g', w')"
  | (reload) "phase w = At_reload" "e = Turn" "g' = g" "w' = send_call (read_call (key_text (g - 1))) w"
  | (reply) c code latency where "phase w = At_reply c" "e = Reply code latency" "g' = g"
      "w' = count_reply (reply_ok c code) latency w"
proof (cases "phase w")
  case At_test
  with assms show ?thesis using clock by (cases e) simp_all
next
  case At_choice
  with assms show ?thesis using chosen by (cases e) simp_all
next
  case At_reload
  with assms show ?thesis by (cases e) (auto intro: reload)
next
  case (At_reply c)
  with assms show ?thesis using reply by (cases e) simp_all
next
  case Returned
  with assms show ?thesis by (cases e) auto
qed

lemma choose_request_cases:
  assumes "choose_request type g w = (g', w')"
  obtains (create) "type = PUT_ALL \<or> type = GET_PUT" "g' = g + 1"
      "w' = w\<lparr>numbers := numbers w @ [g], phase := At_reply (create_call g), calls := calls w @ [create_call g]\<rparr>"
  | (read) "type = GET_ALL" "g' = g + 1"
      "w' = w\<lparr>numbers := numbers w @ [g], phase := At_reply (read_call (key_text g)), calls := calls w @ [read_call (key_text g)]\<rparr>"
  | (popular) i where "type = GET_POPULAR" "g' = g" "w' = send_call (read_call (popular_keys ! i)) w" "i < length popular_keys"
  | (reload) "type = GET_PUT" "g' = g" "0 < g" "w' = w\<lparr>phase := At_reload\<rparr>"
  | (first) "type = GET_PUT" "g' = g" "g \<le> 0" "w' = send_call (read_call (key_text 0)) w"
proof (cases type)
  case GET_POPULAR
  let ?i = "nat (turn_counter w mod int (length popular_keys))"
  have "?i < length popular_keys" by (simp add: popular_keys_def nat_less_iff)
  with GET_POPULAR assms popular[of ?i] show ?thesis by (simp add: choose_request_def)
qed (use assms create read reload first in \<open>auto simp: choose_request_def take_number_def send_call_def split: if_splits\<close>)

lemma stats_ok_turn:
  assumes "stats_ok w" "worker_turn type e g (phase w) w = Some (g', w')"
  shows "stats_ok w'"
  using assms(2)
proof (cases rule: worker_turn_cases)
  case clock
  with assms(1) show ?thesis by (auto simp: stats_ok_def count_request_def pending_def)
next
  case chosen
  from chosen(3) show ?thesis
    by (cases rule: choose_request_cases) (use assms(1) chosen in \<open>simp_all add: stats_ok_def pending_def send_call_def\<close>)
next
  case reload
  with assms(1) show ?thesis by (simp add: stats_ok_def pending_def send_call_def)
next
  case reply
  with assms(1) show ?thesis by (simp add: stats_ok_def count_reply_def pending_def Let_def)
qed

lemma reachable_stats:
  assumes "(load_step type)\<^sup>*\<^sup>* (start_load n) l" "w \<in> set (lg_workers l)"
  shows "stats_ok w"
proof -
  have "stats_ok new_worker" by (simp add: stats_ok_def new_worker_def no_stats_def pending_def)
  then have "\<forall>w \<in> set (lg_workers l). stats_ok w"
    using reachable_all[OF assms(1), of "\<lambda>g. stats_ok"] stats_ok_turn by blast
  with assms(2) show ?thesis by blast
qed

subsection \<open>The numbers\<close>

definition numbers_ok :: "load \<Rightarrow> bool" where
  "numbers_ok l \<longleftrightarrow> 0 \<le> global_key_counter l \<and>
     mset (concat (map numbers (lg_workers l))) = mset [0..global_key_counter l - 1]"

lemma mset_concat_update:
  "i < length ws \<Longrightarrow> mset (concat (map f (ws[i := w]))) + mset (f (ws ! i)) = mset (concat (map f ws)) + mset (f w)"
proof (induction ws arbitrary: i)
  case (Cons v ws)
  then show ?case by (cases i) (simp_all add: ac_simps)
qed simp

lemma numbers_turn:
  assumes "worker_turn type e g (phase w) w = Some (g', w')"
  shows "g' = g \<and> numbers w' = numbers w \<or> g' = g + 1 \<and> numbers w' = numbers w @ [g]"
  using assms
proof (cases rule: worker_turn_cases)
  case chosen
  from chosen(3) show ?thesis by (cases rule: choose_request_cases) (simp_all add: send_call_def)
qed (simp_all add: count_request_def send_call_def count_reply_def Let_def)

lemma numbers_ok_step:
  assumes "load_step type l l'" "numbers_ok l"
  shows "numbers_ok l'"
  using assms(1)
proof cases
  case (step i e g w)
  note u = mset_concat_update[OF step(2), of numbers w]
  have "g = global_key_counter l \<and> numbers w = numbers (lg_workers l ! i) \<or>
    g = global_key_counter l + 1 \<and> numbers w = numbers (lg_workers l ! i) @ [global_key_counter l]"
    by (rule numbers_turn[OF step(3)])
  then show ?thesis
  proof
    assume "g = global_key_counter l \<and> numbers w = numbers (lg_workers l ! i)"
    with u assms(2) step(1) show ?thesis by (simp add: numbers_ok_def)
  next
    assume n: "g = global_key_counter l + 1 \<and> numbers w = numbers (lg_workers l ! i) @ [global_key_counter l]"
    have "[0..global_key_counter l] = [0..global_key_counter l - 1] @ [global_key_counter l]"
      using assms(2) upto_rec2 by (simp add: numbers_ok_def)
    with n u assms(2) step(1) show ?thesis by (simp add: numbers_ok_def)
  qed
qed

lemma reachable_numbers: "(load_step type)\<^sup>*\<^sup>* (start_load n) l \<Longrightarrow> numbers_ok l"
proof (induction rule: rtranclp_induct)
  case base
  show ?case by (induction n) (simp_all add: numbers_ok_def start_load_def new_worker_def)
next
  case (step l1 l2)
  then show ?case using numbers_ok_step by blast
qed

subsection \<open>The requests\<close>

fun is_create :: "call \<Rightarrow> bool" where
  "is_create (Post_create body) = True"
| "is_create c = False"

lemma is_create_calls [simp]: "is_create (create_call n)" "\<not> is_create (read_call key)"
  by (simp_all add: create_call_def read_call_def)

text \<open>What a worker has sent, by workload; \<open>g\<close> is the counter.\<close>

definition calls_ok :: "Workload \<Rightarrow> int \<Rightarrow> lg_worker \<Rightarrow> bool" where
  "calls_ok type g w \<longleftrightarrow> 0 \<le> g \<and> (phase w = At_reload \<longrightarrow> type = GET_PUT \<and> 0 < g) \<and>
     (case type of
        PUT_ALL \<Rightarrow> calls w = map create_call (numbers w)
      | GET_ALL \<Rightarrow> calls w = map (\<lambda>n. read_call (key_text n)) (numbers w)
      | GET_POPULAR \<Rightarrow> set (calls w) \<subseteq> read_call ` set popular_keys
      | GET_PUT \<Rightarrow> filter is_create (calls w) = map create_call (numbers w) \<and>
          set (filter (\<lambda>c. \<not> is_create c) (calls w)) \<subseteq> (\<lambda>n. read_call (key_text n)) ` {0..max 0 (g - 1)})"

lemma calls_ok_mono:
  assumes "calls_ok type g w" "g \<le> g'"
  shows "calls_ok type g' w"
proof -
  have im: "(\<lambda>n. read_call (key_text n)) ` {0..max 0 (g - 1)} \<subseteq> (\<lambda>n. read_call (key_text n)) ` {0..max 0 (g' - 1)}"
    using assms(2) by (intro image_mono) simp
  show ?thesis
  proof (cases type)
    case GET_PUT
    with assms im show ?thesis unfolding calls_ok_def by (simp only: Workload.case) (meson order_trans less_le_trans)
  qed (use assms in \<open>simp_all add: calls_ok_def\<close>)
qed

lemma calls_ok_turn:
  assumes "calls_ok type g w" "worker_turn type e g (phase w) w = Some (g', w')"
  shows "calls_ok type g' w'"
  using assms(2)
proof (cases rule: worker_turn_cases)
  case clock
  with assms(1) show ?thesis by (cases type) (auto simp: calls_ok_def count_request_def)
next
  case chosen
  from chosen(3) show ?thesis
  proof (cases rule: choose_request_cases)
    case create
    have "calls_ok type (g + 1) w" using calls_ok_mono[OF assms(1)] by simp
    with create show ?thesis by (auto simp: calls_ok_def)
  next
    case (popular i)
    then have "popular_keys ! i \<in> set popular_keys" by simp
    with popular assms(1) show ?thesis by (auto simp: calls_ok_def send_call_def)
  next
    case first
    with assms(1) show ?thesis by (auto simp: calls_ok_def send_call_def)
  qed (use assms(1) in \<open>auto simp: calls_ok_def\<close>)
next
  case reload
  then have "type = GET_PUT" "0 < g" using assms(1) by (simp_all add: calls_ok_def)
  with reload assms(1) show ?thesis by (auto simp: calls_ok_def send_call_def)
next
  case reply
  with assms(1) show ?thesis by (cases type) (auto simp: calls_ok_def count_reply_def Let_def)
qed

lemma reachable_calls:
  assumes "(load_step type)\<^sup>*\<^sup>* (start_load n) l" "w \<in> set (lg_workers l)"
  shows "calls_ok type (global_key_counter l) w"
proof -
  have "calls_ok type 0 new_worker" by (cases type) (simp_all add: calls_ok_def new_worker_def)
  moreover have "g \<le> g'" if "worker_turn type e g (phase w) w = Some (g', w')" for e g w g' w'
    using numbers_turn[OF that] by auto
  ultimately have "\<forall>w \<in> set (lg_workers l). calls_ok type (global_key_counter l) w"
    using reachable_all[OF assms(1), of "calls_ok type"] calls_ok_turn calls_ok_mono by metis
  with assms(2) show ?thesis by blast
qed

subsection \<open>The keys on a server\<close>

lemma number_chars: "0 \<le> n \<Longrightarrow> c \<in> set (string_of_int n) \<Longrightarrow> is_digit c"
  by (auto simp: string_of_int_def string_of_nat_digits)

lemma key_text_ok: "0 \<le> n \<Longrightarrow> route_key (key_text n)" "0 \<le> n \<Longrightarrow> value_ok (value_text n)"
proof -
  assume n: "0 \<le> n"
  have w: "is_word c \<and> c \<noteq> CHR 0x0A" if "c \<in> set (string_of_int n)" for c
    using number_chars[OF n that] by (auto simp: is_word_def is_digit_def Let_def)
  then show "route_key (key_text n)" by (auto simp: route_key_def key_text_def list_all_iff is_word_def)
  from w show "value_ok (value_text n)" by (auto simp: value_ok_def value_text_def)
qed

lemma create_call_inj: "inj_on create_call {0..}"
proof (rule inj_onI)
  fix n m :: int
  assume a: "n \<in> {0..}" "m \<in> {0..}" "create_call n = create_call m"
  then have "split_create (key_text n @ '' '' @ value_text n) = split_create (key_text m @ '' '' @ value_text m)"
    by (simp add: create_call_def)
  with a(1,2) have "key_text n = key_text m" by (simp only: split_create_parts key_text_ok atLeast_iff) simp
  then show "n = m" by (simp add: key_text_def string_of_int_inject)
qed

definition run_calls :: "'w http_client \<Rightarrow> call list \<Rightarrow> 'w \<Rightarrow> 'w" where
  "run_calls cl cs = fold (\<lambda>c w. snd (cl c w)) cs"

lemma run_creates:
  assumes pg: "pg_table env rows" "pg_up env" and b: "port b \<in> alive"
  shows "cluster_ok rows w \<Longrightarrow> distinct ns \<Longrightarrow> \<forall>n \<in> set ns. 0 \<le> n \<and> tables rows w (port b) (key_text n) = None \<Longrightarrow>
    (\<forall>n \<in> set ns. tables rows (run_calls (server_client env alive b) (map create_call ns) w) (port b) (key_text n) = Some (value_text n)) \<and>
    (\<forall>p k. p \<noteq> port b \<or> k \<notin> key_text ` set ns \<longrightarrow>
      tables rows (run_calls (server_client env alive b) (map create_call ns) w) p k = tables rows w p k)"
proof (induction ns arbitrary: w)
  case Nil
  show ?case by (simp add: run_calls_def)
next
  case (Cons n ns)
  let ?c = "Create_cmd (key_text n) (value_text n)"
  have c: "command_ok ?c" "create_call n = command_call ?c" using Cons.prems(3) key_text_ok by (simp_all add: create_call_def)
  obtain w1 where w1: "snd (server_client env alive b (create_call n) w) = w1" "cluster_ok rows w1"
    "tables rows w1 = (tables rows w)(port b := (tables rows w (port b))(key_text n \<mapsto> value_text n))"
  proof -
    obtain w1 where "server_client env alive b (command_call ?c) w = (Some (command_reply ?c (tables rows w (port b))), w1)"
      "cluster_ok rows w1" "tables rows w1 = (tables rows w)(port b := command_table ?c (tables rows w (port b)))"
      using command_on_server[OF pg Cons.prems(1) b c(1)] by blast
    with that[of w1] Cons.prems(3) show ?thesis unfolding c(2) by simp
  qed
  have neq: "key_text m \<noteq> key_text n" if "m \<in> set ns" for m
    using that Cons.prems(2) by (auto simp: key_text_def string_of_int_inject)
  then have "\<forall>m \<in> set ns. 0 \<le> m \<and> tables rows w1 (port b) (key_text m) = None"
    using Cons.prems(3) w1(3) by simp
  from Cons.IH[OF w1(2) _ this] Cons.prems(2) have ih:
    "\<forall>m \<in> set ns. tables rows (run_calls (server_client env alive b) (map create_call ns) w1) (port b) (key_text m) = Some (value_text m)"
    "\<forall>p k. p \<noteq> port b \<or> k \<notin> key_text ` set ns \<longrightarrow>
      tables rows (run_calls (server_client env alive b) (map create_call ns) w1) p k = tables rows w1 p k"
    by simp_all
  have "run_calls (server_client env alive b) (map create_call (n # ns)) w = run_calls (server_client env alive b) (map create_call ns) w1"
    using w1(1) by (simp add: run_calls_def)
  moreover have "key_text n \<notin> key_text ` set ns" using neq by fastforce
  ultimately show ?case using ih w1(3) by simp
qed

lemma create_numbers:
  assumes "mset cs = mset (map create_call [0..g - 1])"
  shows "\<exists>ns. cs = map create_call ns \<and> distinct ns \<and> set ns = {0..g - 1}"
proof -
  have set: "set cs = create_call ` {0..g - 1}" using mset_eq_setD[OF assms] by simp
  then have "cs \<in> lists (create_call ` {0..g - 1})" by (intro in_listsI) blast
  then obtain ns where "cs = map create_call ns" "ns \<in> lists {0..g - 1}" unfolding lists_image by blast
  then have ns: "cs = map create_call ns" "set ns \<subseteq> {0..g - 1}" by (auto dest: in_listsD)
  have inj: "inj_on create_call {0..g - 1}" by (rule inj_on_subset[OF create_call_inj]) auto
  have "distinct (map create_call [0..g - 1])" using inj by (simp add: distinct_map)
  then have "distinct cs" using mset_eq_imp_distinct_iff[OF assms] by simp
  moreover have "create_call ` set ns = create_call ` {0..g - 1}" using set ns(1) by simp
  then have "set ns = {0..g - 1}" by (simp only: inj_on_image_eq_iff[OF inj ns(2) order_refl])
  ultimately show ?thesis using ns(1) by (auto simp: distinct_map)
qed

lemma reachable_creates:
  assumes "(load_step PUT_ALL)\<^sup>*\<^sup>* (start_load n) l"
  shows "mset (concat (map calls (lg_workers l))) = mset (map create_call [0..global_key_counter l - 1])"
proof -
  have "map calls (lg_workers l) = map (map create_call) (map numbers (lg_workers l))"
    using reachable_calls[OF assms] by (auto simp: calls_ok_def)
  then have "concat (map calls (lg_workers l)) = map create_call (concat (map numbers (lg_workers l)))"
    by (simp only: map_concat)
  then show ?thesis using reachable_numbers[OF assms] by (simp add: numbers_ok_def)
qed

subsection \<open>The main program\<close>

fun parse_workload :: "string \<Rightarrow> Workload option" where
  "parse_workload s =
     (if s = ''put_all'' then Some PUT_ALL
      else if s = ''get_all'' then Some GET_ALL
      else if s = ''get_popular'' then Some GET_POPULAR
      else if s = ''get_put'' then Some GET_PUT
      else None)"

text \<open>
  The three inputs. Once an extraction has failed the stream extracts nothing more, so the name of
  the workload stays empty. \<open>None\<close> is the message about an invalid workload.
\<close>

definition read_parameters :: "string \<Rightarrow> (int \<times> int \<times> string \<times> Workload) option" where
  "read_parameters inp =
     (let (threads, r1, failed1) = stream_int inp
      in if failed1 then None
         else
           (let (duration, r2, failed2) = stream_int r1
            in if failed2 then None
               else
                 (let (workload_str, r3) = stream_word r2
                  in map_option (\<lambda>type. (threads, duration, workload_str, type)) (parse_workload workload_str))))"

text \<open>The popular keys: a client that gives the status of a reply.\<close>

fun seed_keys :: "(call \<Rightarrow> 'w \<Rightarrow> int option \<times> 'w) \<Rightarrow> string list \<Rightarrow> 'w \<Rightarrow> string \<times> 'w" where
  "seed_keys cl [] w = ([], w)"
| "seed_keys cl (key # keys) w =
     (let (res, w1) = cl (Post_create (key @ '' '' @ ''v_'' @ key)) w;
          failed = (case res of None \<Rightarrow> True | Some code \<Rightarrow> code \<noteq> 201 \<and> code \<noteq> 409);
          (_, w2) = cl (read_call key) w1;
          (out, w3) = seed_keys cl keys w2
      in ((if failed then ''Adding Failed'' @ key @ [CHR 0x0A] else []) @ out, w3))"

text \<open>
  The workers at the start; a negative number of threads is a length of more than the vector can
  have, and the exception ends the program: \<open>None\<close>.
\<close>

definition start_workers :: "int \<Rightarrow> load option" where
  "start_workers threads = (if threads < 0 then None else Some (start_load (nat threads)))"

fun add_totals :: "Stats list \<Rightarrow> int \<times> int \<times> int \<Rightarrow> int \<times> int \<times> int" where
  "add_totals [] t = t"
| "add_totals (s # ss) (req, ok, latency) =
     add_totals ss (req + total_requests s, ok + total_success s, latency + total_latency_ns s)"

definition csv_header :: string where
  "csv_header = ''threads,workload,total_requests,total_success,total_fail,throughput,avg_latency_ms'' @ [CHR 0x0A]"

text \<open>
  The printed quotients: \<open>quot a b\<close> is what the stream prints of the floating-point number \<open>a / b\<close>,
  and \<open>quot_ms a b\<close> of \<open>(a / b) / 1e6\<close>.
\<close>

record quotients =
  quot :: "int \<Rightarrow> int \<Rightarrow> string"
  quot_ms :: "int \<Rightarrow> int \<Rightarrow> string"

definition csv_row :: "quotients \<Rightarrow> int \<Rightarrow> int \<Rightarrow> string \<Rightarrow> Stats list \<Rightarrow> string" where
  "csv_row q threads duration workload_str ss =
     (let (total_req, total_ok, total_latency) = add_totals ss (0, 0, 0)
      in string_of_int threads @ '','' @ workload_str @ '','' @ string_of_int total_req @ '','' @
         string_of_int total_ok @ '','' @ string_of_int (total_req - total_ok) @ '','' @
         quot q total_ok duration @ '','' @ quot_ms q total_latency total_ok @ [CHR 0x0A])"

definition results_text :: "quotients \<Rightarrow> int \<Rightarrow> Stats list \<Rightarrow> string" where
  "results_text q duration ss =
     (let (total_req, total_ok, total_latency) = add_totals ss (0, 0, 0); nl = [CHR 0x0A]
      in nl @ ''RESULTS'' @ nl @ ''Total Requests: '' @ string_of_int total_req @ nl @
         ''Successful Requests: '' @ string_of_int total_ok @ nl @
         ''Failed Requests:'' @ string_of_int (total_req - total_ok) @ nl @
         ''Average Troughput: '' @ quot q total_ok duration @ ''req/sec'' @ nl @
         ''Average Response Time: '' @ quot_ms q total_latency total_ok @ ''ms'' @ nl @ nl)"

text \<open>The file after the run; it is opened for appending.\<close>

definition append_row :: "string \<Rightarrow> string \<Rightarrow> string" where
  "append_row csv row = (if csv = [] then csv_header else csv) @ row"

lemma add_totals_sums:
  "add_totals ss (req, ok, lat) =
     (req + sum_list (map total_requests ss), ok + sum_list (map total_success ss), lat + sum_list (map total_latency_ns ss))"
  by (induction ss arbitrary: req ok lat) simp_all

subsection \<open>Running a schedule\<close>

text \<open>The state after a schedule of workers and events; \<open>None\<close> when a worker cannot take its turn.\<close>

fun run_events :: "Workload \<Rightarrow> (nat \<times> lg_event) list \<Rightarrow> load \<Rightarrow> load option" where
  "run_events type [] l = Some l"
| "run_events type ((i, e) # es) l =
     (if i < length (lg_workers l)
      then (case worker_turn type e (global_key_counter l) (phase (lg_workers l ! i)) (lg_workers l ! i) of
              None \<Rightarrow> None
            | Some (g, w) \<Rightarrow> run_events type es \<lparr>global_key_counter = g, lg_workers = (lg_workers l)[i := w]\<rparr>)
      else None)"

lemma run_events_reachable: "run_events type es l = Some l' \<Longrightarrow> (load_step type)\<^sup>*\<^sup>* l l'"
proof (induction es arbitrary: l)
  case (Cons x es)
  obtain i e where x: "x = (i, e)" by fastforce
  from Cons.prems obtain g w where s: "i < length (lg_workers l)"
    "worker_turn type e (global_key_counter l) (phase (lg_workers l ! i)) (lg_workers l ! i) = Some (g, w)"
    "run_events type es \<lparr>global_key_counter = g, lg_workers = (lg_workers l)[i := w]\<rparr> = Some l'"
    by (auto simp: x split: if_splits option.splits)
  from step[OF s(1,2)] Cons.IH[OF s(3)] show ?case by (rule converse_rtranclp_into_rtranclp)
qed simp

definition demo_load :: load where
  "demo_load = the (run_events PUT_ALL
     [(0, Clock True), (1, Clock True), (1, Turn), (0, Turn), (0, Reply (Some 201) 5), (1, Reply None 7),
      (0, Clock False), (1, Clock False)] (start_load 2))"

lemma demo_load_reachable: "(load_step PUT_ALL)\<^sup>*\<^sup>* (start_load 2) demo_load"
proof (rule run_events_reachable)
  show "run_events PUT_ALL
     [(0, Clock True), (1, Clock True), (1, Turn), (0, Turn), (0, Reply (Some 201) 5), (1, Reply None 7),
      (0, Clock False), (1, Clock False)] (start_load 2) = Some demo_load"
    by (simp add: demo_load_def start_load_def numeral_2_eq_2 new_worker_def choose_request_def take_number_def
        send_call_def count_request_def count_reply_def Let_def)
qed

lemma demo_load_fields:
  "global_key_counter demo_load = 2" "map numbers (lg_workers demo_load) = [[1], [0]]"
  "map calls (lg_workers demo_load) = [[create_call 1], [create_call 0]]"
  "map (\<lambda>w. total_requests (stats w)) (lg_workers demo_load) = [1, 1]"
  "map (\<lambda>w. total_fail (stats w)) (lg_workers demo_load) = [0, 1]"
  "\<forall>w \<in> set (lg_workers demo_load). phase w = Returned"
  by (simp_all add: demo_load_def start_load_def numeral_2_eq_2 new_worker_def no_stats_def choose_request_def take_number_def
      send_call_def count_request_def count_reply_def Let_def create_call_def)

subsection \<open>Properties\<close>

text \<open>
  In every interleaving each number is taken by exactly one worker, whatever the workload: all
  workers together have taken the numbers below the counter, each once.
\<close>

theorem numbers_taken_once:
  assumes "(load_step type)\<^sup>*\<^sup>* (start_load n) l"
  shows "mset (concat (map numbers (lg_workers l))) = mset [0..global_key_counter l - 1]"
  using reachable_numbers[OF assms] by (simp add: numbers_ok_def)

lemma numbers_taken_once_witness:
  "mset (concat (map numbers (lg_workers demo_load))) = mset [0..global_key_counter demo_load - 1] \<and>
   global_key_counter demo_load = 2"
  using numbers_taken_once[OF demo_load_reachable] demo_load_fields(1) by simp

text \<open>
  C18. When every worker has returned, the failed requests the program reports, the total less the
  successes, are the failures the workers have counted: in every interleaving each request is counted
  once, as a success or as a failure, and the totals are the sums over the workers.
\<close>

theorem totals_add_up:
  assumes "(load_step type)\<^sup>*\<^sup>* (start_load n) l" "\<forall>w \<in> set (lg_workers l). phase w = Returned"
  shows "\<exists>req ok latency. add_totals (map stats (lg_workers l)) (0, 0, 0) = (req, ok, latency) \<and>
    req - ok = sum_list (map (\<lambda>w. total_fail (stats w)) (lg_workers l)) \<and> 0 \<le> ok \<and> ok \<le> req"
proof -
  have "stats_ok w" if "w \<in> set (lg_workers l)" for w by (rule reachable_stats[OF assms(1) that])
  then have w: "total_requests (stats w) = total_success (stats w) + total_fail (stats w) \<and>
      0 \<le> total_success (stats w) \<and> 0 \<le> total_fail (stats w)" if "w \<in> set (lg_workers l)" for w
    using assms(2) that by (simp add: stats_ok_def pending_def)
  have sums: "sum_list (map (\<lambda>w. total_requests (stats w)) ws) =
      sum_list (map (\<lambda>w. total_success (stats w)) ws) + sum_list (map (\<lambda>w. total_fail (stats w)) ws) \<and>
      0 \<le> sum_list (map (\<lambda>w. total_success (stats w)) ws) \<and> 0 \<le> sum_list (map (\<lambda>w. total_fail (stats w)) ws)"
    if "set ws \<subseteq> set (lg_workers l)" for ws
    using that w by (induction ws) auto
  from sums[OF order_refl] show ?thesis by (simp add: add_totals_sums o_def)
qed

lemma totals_add_up_witness:
  "\<exists>ok latency. add_totals (map stats (lg_workers demo_load)) (0, 0, 0) = (2, ok, latency) \<and> 2 - ok = 1"
proof -
  have "sum_list (map total_requests (map stats (lg_workers demo_load))) = 2"
    using demo_load_fields(4) by (simp add: o_def)
  with totals_add_up[OF demo_load_reachable demo_load_fields(6)] demo_load_fields(5) show ?thesis
    by (auto simp: add_totals_sums)
qed



text \<open>
  A read of \<open>get_put\<close> asks for a key whose number some worker has taken, or for \<open>k_0\<close>: the two loads
  of the counter, though not atomic together, never give a negative number.
\<close>

lemma get_put_reads:
  assumes "(load_step GET_PUT)\<^sup>*\<^sup>* (start_load n) l" "w \<in> set (lg_workers l)" "c \<in> set (calls w)" "\<not> is_create c"
  shows "\<exists>i \<in> {0..max 0 (global_key_counter l - 1)}. c = read_call (key_text i)"
  using reachable_calls[OF assms(1,2)] assms(3,4) by (auto simp: calls_ok_def)

end
