(* ===== verification/KvConcurrent.thy ===== *)
theory KvConcurrent
  imports KvServer
begin

text \<open>
  The key-value server's handlers on its thread pool (kvserver.cpp, lines 288 to 290): up to 300
  requests are handled at once. A handler touches the shared state in a few places only: an
  operation of the cache, which its mutex makes atomic, and a transaction, which the database makes
  atomic. \<open>thread_step\<close> cuts each handler there; \<open>kv_step\<close> lets any thread of the pool take its
  next step. One thread alone does what the sequential handler does. Under any interleaving the
  cache stays well-formed; its pairs are those of the table as long as no thread that may put a key
  into the cache runs beside one that writes the key, and a run in which they do leaves a stale
  pair behind.
\<close>

subsection \<open>Threads\<close>

text \<open>
  A request that has arrived; a read that has missed the cache; a thread about to put a pair into
  the cache, or to drop a key, before it answers; one that has answered.
\<close>

datatype thread =
    Arrived handler Request
  | Missed string
  | Inserting string string Response
  | Dropping string Response
  | Finished Response

text \<open>The transaction of a writing handler, up to and including its commit.\<close>

definition commit_view ::
  "'db server_env \<Rightarrow> 'db server \<Rightarrow> 'db \<Rightarrow> (pg_error \<Rightarrow> Response) \<Rightarrow> thread \<Rightarrow> 'db server \<times> thread" where
  "commit_view env s view failed next_thread =
     (case sql_commit env (srv_db s) view of
        (Some e, db) \<Rightarrow> (s\<lparr>srv_db := db\<rparr>, Finished (failed e))
      | (None, db) \<Rightarrow> (s\<lparr>srv_db := db\<rparr>, next_thread))"

definition create_txn :: "'db server_env \<Rightarrow> 'db server \<Rightarrow> Request \<Rightarrow> 'db server \<times> thread" where
  "create_txn env s req =
     (let (key, val) = split_create (rq_body req)
      in case get_connection env s of
           Some e \<Rightarrow> (s, Finished (catch_create e))
         | None \<Rightarrow>
             (case sql_insert env (srv_db s) key val of
                Inl e \<Rightarrow> (s, Finished (catch_create e))
              | Inr view \<Rightarrow> commit_view env s view catch_create
                  (Inserting key val (reply closing 201 ''Created Successfully''))))"

definition delete_txn :: "'db server_env \<Rightarrow> 'db server \<Rightarrow> Request \<Rightarrow> 'db server \<times> thread" where
  "delete_txn env s req =
     (let key = rq_matches req ! 1
      in case get_connection env s of
           Some e \<Rightarrow> (s, Finished (error_500 e))
         | None \<Rightarrow>
             (case sql_delete env (srv_db s) key of
                Inl e \<Rightarrow> (s, Finished (error_500 e))
              | Inr (r, view) \<Rightarrow>
                  if r = [] then (s, Finished (reply closing 404 (''Key Not Found'' @ [CHR 0x0A])))
                  else commit_view env s view error_500
                    (Dropping key (reply closing 200 (''Deleted Successfully'' @ [CHR 0x0A])))))"

definition update_txn :: "'db server_env \<Rightarrow> 'db server \<Rightarrow> Request \<Rightarrow> 'db server \<times> thread" where
  "update_txn env s req =
     (let key = rq_matches req ! 1; val = rq_body req;
          is_replication = has_header req ''X-Internal-Replication''
      in case get_connection env s of
           Some e \<Rightarrow> (s, Finished (error_500 e))
         | None \<Rightarrow>
             (case (if is_replication then sql_upsert env (srv_db s) key val
                    else sql_update env (srv_db s) val key) of
                Inl e \<Rightarrow> (s, Finished (error_500 e))
              | Inr (r, view) \<Rightarrow>
                  if r = [] \<and> \<not> is_replication
                  then (s, Finished (reply closing 404 (''Key not found in DB'' @ [CHR 0x0A])))
                  else commit_view env s view error_500
                    (Dropping key (reply closing 200 (''Updated Successfully'' @ [CHR 0x0A])))))"

definition sync_txn :: "'db server_env \<Rightarrow> 'db server \<Rightarrow> Request \<Rightarrow> 'db server \<times> thread" where
  "sync_txn env s req =
     (let key = rq_matches req ! 1; val = rq_body req
      in case get_connection env s of
           Some e \<Rightarrow> (s, Finished (error_500 e))
         | None \<Rightarrow>
             (case sql_upsert env (srv_db s) key val of
                Inl e \<Rightarrow> (s, Finished (error_500 e))
              | Inr (r, view) \<Rightarrow>
                  commit_view env s view error_500
                    (Dropping key
                      (if r = []
                       then reply closing 200 (''Ignored: Never version already present'' @ [CHR 0x0A])
                       else reply closing 201 (''Synced Successfully'' @ [CHR 0x0A])))))"

text \<open>The read's lookup in the cache, and its transaction after a miss.\<close>

definition lookup_cache :: "'db server_env \<Rightarrow> 'db server \<Rightarrow> Request \<Rightarrow> ('db server \<times> thread) option" where
  "lookup_cache env s req =
     (let key = rq_matches req ! 1
      in case read_key (srv_cache s) key of
           None \<Rightarrow> None
         | Some (cache_value, c) \<Rightarrow>
             (let s1 = s\<lparr>srv_cache := c,
                         audit_log := (if log_is_open env then audit_log s @ [audit_line key] else audit_log s)\<rparr>
              in Some (s1, if cache_value \<noteq> [] then Finished (reply closing 200 cache_value) else Missed key)))"

definition select_txn :: "'db server_env \<Rightarrow> 'db server \<Rightarrow> string \<Rightarrow> 'db server \<times> thread" where
  "select_txn env s key =
     (case get_connection env s of
        Some e \<Rightarrow> (s, Finished (error_500 e))
      | None \<Rightarrow>
          (case sql_select env (srv_db s) key of
             Inl e \<Rightarrow> (s, Finished (error_500 e))
           | Inr [] \<Rightarrow> (s, Finished (reply closing 404 (''Key not Found'' @ [CHR 0x0A])))
           | Inr (db_value # _) \<Rightarrow> (s, Inserting key db_value (reply closing 200 db_value))))"

text \<open>The next step of a thread; \<open>None\<close> is undefined behaviour of the cache.\<close>

fun thread_step :: "'db server_env \<Rightarrow> 'db server \<Rightarrow> thread \<Rightarrow> ('db server \<times> thread) option" where
  "thread_step env s (Arrived Create req) = Some (create_txn env s req)"
| "thread_step env s (Arrived Update req) = Some (update_txn env s req)"
| "thread_step env s (Arrived Delete req) = Some (delete_txn env s req)"
| "thread_step env s (Arrived Sync req) = Some (sync_txn env s req)"
| "thread_step env s (Arrived Read req) = lookup_cache env s req"
| "thread_step env s (Arrived All_keys req) =
     map_option (\<lambda>(s', res). (s', Finished res)) (handle_all_keys env s req)"
| "thread_step env s (Arrived Health req) =
     map_option (\<lambda>(s', res). (s', Finished res)) (handle_health s req)"
| "thread_step env s (Missed key) = Some (select_txn env s key)"
| "thread_step env s (Inserting key val res) =
     map_option (\<lambda>(_, c). (s\<lparr>srv_cache := c\<rparr>, Finished res)) (create_key (srv_cache s) key val)"
| "thread_step env s (Dropping key res) =
     map_option (\<lambda>(_, c). (s\<lparr>srv_cache := c\<rparr>, Finished res)) (delete_key (srv_cache s) key)"
| "thread_step env s (Finished res) = Some (s, Finished res)"

text \<open>A thread alone, for a number of steps.\<close>

fun run_thread :: "nat \<Rightarrow> 'db server_env \<Rightarrow> 'db server \<Rightarrow> thread \<Rightarrow> ('db server \<times> thread) option" where
  "run_thread 0 env s t = Some (s, t)"
| "run_thread (Suc n) env s t =
     (case thread_step env s t of None \<Rightarrow> None | Some (s', t') \<Rightarrow> run_thread n env s' t')"

subsection \<open>The pool\<close>

inductive kv_step ::
  "'db server_env \<Rightarrow> 'db server \<times> thread list \<Rightarrow> 'db server \<times> thread list \<Rightarrow> bool" for env where
  step: "i < length ts \<Longrightarrow> thread_step env s (ts ! i) = Some (s', t') \<Longrightarrow> kv_step env (s, ts) (s', ts[i := t'])"

inductive_cases kv_stepE: "kv_step env (s, ts) (s', ts')"

code_pred kv_step .

subsection \<open>One thread alone\<close>

lemma run_thread_finished [simp]: "run_thread n env s (Finished res) = Some (s, Finished res)"
  by (induction n) simp_all

lemma run_thread_last:
  "run_thread (Suc n) env s (Inserting key val res) =
     map_option (\<lambda>(_, c). (s\<lparr>srv_cache := c\<rparr>, Finished res)) (create_key (srv_cache s) key val)"
  "run_thread (Suc n) env s (Dropping key res) =
     map_option (\<lambda>(_, c). (s\<lparr>srv_cache := c\<rparr>, Finished res)) (delete_key (srv_cache s) key)"
  by (simp_all split: option.split prod.split)

text \<open>The rest of a thread after its transaction; the cases of a transaction become those of a handler.\<close>

definition finish :: "'db server_env \<Rightarrow> 'db server \<times> thread \<Rightarrow> ('db server \<times> Response) option" where
  "finish env p =
     (case p of
        (s, Finished res) \<Rightarrow> Some (s, res)
      | (s, Inserting key val res) \<Rightarrow>
          map_option (\<lambda>(_, c). (s\<lparr>srv_cache := c\<rparr>, res)) (create_key (srv_cache s) key val)
      | (s, Dropping key res) \<Rightarrow>
          map_option (\<lambda>(_, c). (s\<lparr>srv_cache := c\<rparr>, res)) (delete_key (srv_cache s) key)
      | _ \<Rightarrow> None)"

lemma finish_simps [simp]:
  "finish env (s, Finished res) = Some (s, res)"
  "finish env (s, Inserting key val res) =
     map_option (\<lambda>(_, c). (s\<lparr>srv_cache := c\<rparr>, res)) (create_key (srv_cache s) key val)"
  "finish env (s, Dropping key res) =
     map_option (\<lambda>(_, c). (s\<lparr>srv_cache := c\<rparr>, res)) (delete_key (srv_cache s) key)"
  by (simp_all add: finish_def)

definition late :: "thread \<Rightarrow> bool" where
  "late t \<longleftrightarrow> (case t of Finished _ \<Rightarrow> True | Inserting _ _ _ \<Rightarrow> True | Dropping _ _ \<Rightarrow> True | _ \<Rightarrow> False)"

lemma late_simps [simp]:
  "late (Finished res)" "late (Inserting key val res)" "late (Dropping key res)"
  "\<not> late (Arrived h req)" "\<not> late (Missed key)"
  by (simp_all add: late_def)

lemma run_thread_late:
  "late t \<Longrightarrow> run_thread (Suc n) env s t = map_option (\<lambda>(s', res). (s', Finished res)) (finish env (s, t))"
  by (cases t) (simp_all add: run_thread_last option.map_comp o_def case_prod_beta' del: run_thread.simps(2))

lemma finish_commit_view:
  "finish env (commit_view env s view failed t) =
     (case sql_commit env (srv_db s) view of
        (Some e, db) \<Rightarrow> Some (s\<lparr>srv_db := db\<rparr>, failed e)
      | (None, db) \<Rightarrow> finish env (s\<lparr>srv_db := db\<rparr>, t))"
  by (simp add: commit_view_def split: prod.split option.split)

lemma late_commit_view: "late t \<Longrightarrow> late (snd (commit_view env s view failed t))"
  by (simp add: commit_view_def split: prod.split option.split)

lemma finish_txn:
  "finish env (create_txn env s req) = handle_create env s req"
  "finish env (update_txn env s req) = handle_update env s req"
  "finish env (delete_txn env s req) = handle_delete env s req"
  "finish env (sync_txn env s req) = handle_sync env s req"
  by (simp_all add: create_txn_def handle_create_def update_txn_def handle_update_def delete_txn_def
      handle_delete_def sync_txn_def handle_sync_def Let_def finish_commit_view
      split: prod.split option.split sum.split)

lemma late_txn:
  "late (snd (create_txn env s req))" "late (snd (update_txn env s req))"
  "late (snd (delete_txn env s req))" "late (snd (sync_txn env s req))" "late (snd (select_txn env s key))"
  by (simp_all add: create_txn_def update_txn_def delete_txn_def sync_txn_def select_txn_def Let_def
      late_commit_view split: prod.split option.split sum.split list.split)

lemma run_txn:
  assumes "thread_step env s t = Some p" "late (snd p)"
  shows "run_thread (Suc (Suc n)) env s t = map_option (\<lambda>(s', res). (s', Finished res)) (finish env p)"
  using assms run_thread_late[of "snd p" n env "fst p"] by (cases p) (simp del: run_thread.simps(2) add: run_thread.simps(2)[of "Suc n"])

lemma finish_select:
  "lookup_cache env s req =
     (case read_key (srv_cache s) (rq_matches req ! 1) of
        None \<Rightarrow> None
      | Some (v, c) \<Rightarrow>
          Some (s\<lparr>srv_cache := c,
                  audit_log := (if log_is_open env then audit_log s @ [audit_line (rq_matches req ! 1)] else audit_log s)\<rparr>,
                if v \<noteq> [] then Finished (reply closing 200 v) else Missed (rq_matches req ! 1)))"
  unfolding lookup_cache_def Let_def ..

lemma thread_alone_read:
  "run_thread 3 env s (Arrived Read req) =
     map_option (\<lambda>(s', res). (s', Finished res)) (handle_read env s req)"
proof (cases "read_key (srv_cache s) (rq_matches req ! 1)")
  case None
  then show ?thesis by (simp add: numeral_3_eq_3 finish_select handle_read_def)
next
  case (Some p)
  obtain v c where p: "p = (v, c)" by (cases p)
  define s1 where "s1 = s\<lparr>srv_cache := c,
     audit_log := (if log_is_open env then audit_log s @ [audit_line (rq_matches req ! 1)] else audit_log s)\<rparr>"
  show ?thesis
  proof (cases "v = []")
    case True
    have "run_thread (Suc (Suc 0)) env s1 (Missed (rq_matches req ! 1)) =
        map_option (\<lambda>(s', res). (s', Finished res)) (finish env (select_txn env s1 (rq_matches req ! 1)))"
      by (rule run_txn) (simp_all add: late_txn)
    moreover have "finish env (select_txn env s1 (rq_matches req ! 1)) = handle_read env s req"
      using Some p True
      by (simp add: handle_read_def select_txn_def Let_def s1_def split: option.split sum.split list.split)
    ultimately show ?thesis
      using Some p True
      by (simp add: numeral_3_eq_3 finish_select s1_def run_thread.simps(2)[of "Suc (Suc 0)"] del: run_thread.simps(2))
  next
    case False
    with Some p show ?thesis
      by (simp add: numeral_3_eq_3 finish_select handle_read_def Let_def)
  qed
qed

lemma thread_alone:
  "run_thread 3 env s (Arrived h req) =
     map_option (\<lambda>(s', res). (s', Finished res)) (run_handler h env s req)"
proof (cases h)
  case All_keys
  then show ?thesis by (cases "handle_all_keys env s req") (simp_all add: numeral_3_eq_3 case_prod_beta')
next
  case Health
  then show ?thesis by (cases "handle_health s req") (simp_all add: numeral_3_eq_3 case_prod_beta')
next
  case Read
  then show ?thesis by (simp add: thread_alone_read)
qed (simp_all add: numeral_3_eq_3 run_txn late_txn finish_txn del: run_thread.simps(2))

subsection \<open>What a step changes\<close>

text \<open>The keys a thread may still put into the cache, and those it may still write to the table.\<close>

fun may_insert :: "thread \<Rightarrow> string set" where
  "may_insert (Arrived Create req) = {fst (split_create (rq_body req))}"
| "may_insert (Arrived Read req) = {rq_matches req ! 1}"
| "may_insert (Missed key) = {key}"
| "may_insert (Inserting key val res) = {key}"
| "may_insert t = {}"

fun may_write :: "thread \<Rightarrow> string set" where
  "may_write (Arrived Create req) = {fst (split_create (rq_body req))}"
| "may_write (Arrived Update req) = {rq_matches req ! 1}"
| "may_write (Arrived Delete req) = {rq_matches req ! 1}"
| "may_write (Arrived Sync req) = {rq_matches req ! 1}"
| "may_write t = {}"

text \<open>
  The effect of a step: the table changes only at a key the thread writes, and then the thread drops
  the key next or the key was absent; the cache gains only the pair the thread inserts, which is a
  row when the thread decides to insert it; a thread that drops a key does so.
\<close>

definition effect :: "('db \<Rightarrow> string \<rightharpoonup> string) \<Rightarrow> 'db server \<Rightarrow> thread \<Rightarrow> 'db server \<Rightarrow> thread \<Rightarrow> bool" where
  "effect rows s t s' t' \<longleftrightarrow>
     lru_inv (srv_cache s') \<and> may_insert t' \<subseteq> may_insert t \<and> may_write t' \<subseteq> may_write t \<and>
     (\<forall>k. rows (srv_db s') k \<noteq> rows (srv_db s) k \<longrightarrow>
        k \<in> may_write t \<and> ((\<exists>res. t' = Dropping k res) \<or> rows (srv_db s) k = None)) \<and>
     (\<forall>k v. cache_lookup (srv_cache s') k = Some v \<longrightarrow>
        cache_lookup (srv_cache s) k = Some v \<or> (\<exists>res. t = Inserting k v res)) \<and>
     (\<forall>k v res. t' = Inserting k v res \<longrightarrow> rows (srv_db s') k = Some v) \<and>
     (\<forall>k res. t = Dropping k res \<longrightarrow>
        cache_lookup (srv_cache s') k = None \<and> rows (srv_db s') = rows (srv_db s))"

lemma effect_idle:
  assumes "lru_inv (srv_cache s')" "cache_lookup (srv_cache s') = cache_lookup (srv_cache s)"
    "rows (srv_db s') = rows (srv_db s)" "may_insert t' \<subseteq> may_insert t" "may_write t' \<subseteq> may_write t"
    "\<And>k res. t \<noteq> Dropping k res" "\<And>k v res. t' = Inserting k v res \<Longrightarrow> rows (srv_db s') k = Some v"
  shows "effect rows s t s' t'"
  using assms by (simp add: effect_def)

lemma effect_commit:
  assumes pg: "pg_table env rows" and inv: "lru_inv (srv_cache s)"
    and w: "k \<in> may_write t" "may_insert t1 \<subseteq> may_insert t" "may_write t1 = {}" "\<And>k res. t \<noteq> Dropping k res"
    and view: "rows view = (rows (srv_db s))(k := x)"
    and after: "(\<exists>res. t1 = Dropping k res) \<or> (rows (srv_db s) k = None \<and> (\<exists>v res. t1 = Inserting k v res \<and> x = Some v))"
    and step: "commit_view env s view failed t1 = (s', t')"
  shows "effect rows s t s' t'"
proof -
  obtain e db where c: "sql_commit env (srv_db s) view = (e, db)" by fastforce
  show ?thesis
  proof (cases e)
    case None
    with step c have s': "s' = s\<lparr>srv_db := db\<rparr>" "t' = t1" by (simp_all add: commit_view_def)
    have "rows db = (rows (srv_db s))(k := x)" using pg_commit[OF pg] c None view by simp
    with s' inv w after show ?thesis by (auto simp: effect_def)
  next
    case (Some e')
    with step c have s': "s' = s\<lparr>srv_db := db\<rparr>" "t' = Finished (failed e')" by (simp_all add: commit_view_def)
    have "rows db = rows (srv_db s)" using pg_abort[OF pg] c Some by blast
    with s' inv w(4) show ?thesis by (intro effect_idle) simp_all
  qed
qed

lemma effect_failed:
  assumes "lru_inv (srv_cache s)" "\<And>k res. t \<noteq> Dropping k res"
  shows "effect rows s t s (Finished res)"
  using assms by (intro effect_idle) simp_all

lemma effect_create:
  assumes pg: "pg_table env rows" and inv: "lru_inv (srv_cache s)" and step: "create_txn env s req = (s', t')"
  shows "effect rows s (Arrived Create req) s' t'"
proof -
  obtain k v where kv: "split_create (rq_body req) = (k, v)" by fastforce
  show ?thesis
  proof (cases "get_connection env s")
    case (Some e)
    with inv step kv show ?thesis by (auto simp: create_txn_def intro: effect_failed)
  next
    case conn: None
    show ?thesis
    proof (cases "sql_insert env (srv_db s) k v")
      case (Inl e)
      with inv conn step kv show ?thesis by (auto simp: create_txn_def intro: effect_failed)
    next
      case (Inr view)
      note i = pg_insert[OF pg Inr]
      from conn step kv Inr have "commit_view env s view catch_create
          (Inserting k v (reply closing 201 ''Created Successfully'')) = (s', t')"
        by (simp add: create_txn_def)
      then show ?thesis
        by (rule effect_commit[OF pg inv, where k = k and x = "Some v", rotated -1]) (use i kv in auto)
    qed
  qed
qed

lemma effect_delete:
  assumes pg: "pg_table env rows" and inv: "lru_inv (srv_cache s)" and step: "delete_txn env s req = (s', t')"
  shows "effect rows s (Arrived Delete req) s' t'"
proof (cases "get_connection env s")
  case (Some e)
  with inv step show ?thesis by (auto simp: delete_txn_def intro: effect_failed)
next
  case conn: None
  show ?thesis
  proof (cases "sql_delete env (srv_db s) (rq_matches req ! 1)")
    case (Inl e)
    with inv conn step show ?thesis by (auto simp: delete_txn_def intro: effect_failed)
  next
    case (Inr p)
    obtain r view where p: "p = (r, view)" by (cases p)
    note d = pg_delete[OF pg Inr[unfolded p]]
    show ?thesis
    proof (cases "r = []")
      case True
      with inv conn step Inr p show ?thesis by (auto simp: delete_txn_def intro: effect_failed)
    next
      case False
      with conn step Inr p have "commit_view env s view error_500
          (Dropping (rq_matches req ! 1) (reply closing 200 (''Deleted Successfully'' @ [CHR 0x0A]))) = (s', t')"
        by (simp add: delete_txn_def)
      then show ?thesis by (rule effect_commit[OF pg inv, rotated -1]) (use d in simp_all)
    qed
  qed
qed

lemma effect_update:
  assumes pg: "pg_table env rows" and inv: "lru_inv (srv_cache s)" and step: "update_txn env s req = (s', t')"
  shows "effect rows s (Arrived Update req) s' t'"
proof (cases "get_connection env s")
  case (Some e)
  with inv step show ?thesis by (auto simp: update_txn_def intro: effect_failed)
next
  case conn: None
  let ?k = "rq_matches req ! 1" and ?v = "rq_body req" and ?repl = "has_header req ''X-Internal-Replication''"
  let ?R = "if ?repl then sql_upsert env (srv_db s) ?k ?v else sql_update env (srv_db s) ?v ?k"
  show ?thesis
  proof (cases ?R)
    case (Inl e)
    have "update_txn env s req = (s, Finished (error_500 e))"
      unfolding update_txn_def Let_def conn Inl option.case sum.case ..
    with step inv show ?thesis by (auto intro: effect_failed)
  next
    case (Inr p)
    obtain r view where p: "p = (r, view)" by (cases p)
    have d: "r = [] \<and> \<not> ?repl \<or> rows view = (rows (srv_db s))(?k \<mapsto> ?v)"
      using Inr p pg_upsert[OF pg] pg_update[OF pg] by (auto split: if_splits)
    show ?thesis
    proof (cases "r = [] \<and> \<not> ?repl")
      case True
      have "update_txn env s req = (s, Finished (reply closing 404 (''Key not found in DB'' @ [CHR 0x0A])))"
        unfolding update_txn_def Let_def conn Inr[unfolded p] option.case sum.case prod.case if_P[OF True] ..
      with step inv show ?thesis by (auto intro: effect_failed)
    next
      case False
      have "update_txn env s req = commit_view env s view error_500
          (Dropping ?k (reply closing 200 (''Updated Successfully'' @ [CHR 0x0A])))"
        unfolding update_txn_def Let_def conn Inr[unfolded p] option.case sum.case prod.case if_not_P[OF False] ..
      with step have "commit_view env s view error_500
          (Dropping ?k (reply closing 200 (''Updated Successfully'' @ [CHR 0x0A]))) = (s', t')" by simp
      then show ?thesis by (rule effect_commit[OF pg inv, rotated -1]) (use d False in auto)
    qed
  qed
qed

lemma effect_sync:
  assumes pg: "pg_table env rows" and inv: "lru_inv (srv_cache s)" and step: "sync_txn env s req = (s', t')"
  shows "effect rows s (Arrived Sync req) s' t'"
proof (cases "get_connection env s")
  case (Some e)
  with inv step show ?thesis by (auto simp: sync_txn_def intro: effect_failed)
next
  case conn: None
  show ?thesis
  proof (cases "sql_upsert env (srv_db s) (rq_matches req ! 1) (rq_body req)")
    case (Inl e)
    with inv conn step show ?thesis by (auto simp: sync_txn_def intro: effect_failed)
  next
    case (Inr p)
    obtain r view where p: "p = (r, view)" by (cases p)
    note d = pg_upsert[OF pg Inr[unfolded p]]
    from conn step Inr p obtain res where
      "commit_view env s view error_500 (Dropping (rq_matches req ! 1) res) = (s', t')"
      by (auto simp: sync_txn_def)
    then show ?thesis by (rule effect_commit[OF pg inv, rotated -1]) (use d in simp_all)
  qed
qed

lemma effect_lookup:
  assumes inv: "lru_inv (srv_cache s)" and step: "lookup_cache env s req = Some (s', t')"
  shows "effect rows s (Arrived Read req) s' t'"
proof -
  obtain c where c: "read_key (srv_cache s) (rq_matches req ! 1) =
      Some (case cache_lookup (srv_cache s) (rq_matches req ! 1) of None \<Rightarrow> '''' | Some v \<Rightarrow> v, c)"
    "lru_inv c" "cache_lookup c = cache_lookup (srv_cache s)"
    using lru.rd_ok[OF inv, of "rq_matches req ! 1"] by blast
  with step show ?thesis
    by (intro effect_idle) (auto simp: lookup_cache_def Let_def split: if_splits)
qed

lemma effect_select:
  assumes pg: "pg_table env rows" and inv: "lru_inv (srv_cache s)" and step: "select_txn env s k = (s', t')"
  shows "effect rows s (Missed k) s' t'"
proof (cases "get_connection env s")
  case (Some e)
  with inv step show ?thesis by (auto simp: select_txn_def intro: effect_failed)
next
  case conn: None
  show ?thesis
  proof (cases "sql_select env (srv_db s) k")
    case (Inl e)
    with inv conn step show ?thesis by (auto simp: select_txn_def intro: effect_failed)
  next
    case (Inr r)
    note row = pg_select[OF pg Inr]
    show ?thesis
      using inv conn step Inr row
      by (intro effect_idle) (auto simp: select_txn_def split: list.splits option.splits)
  qed
qed

lemma effect_insert:
  assumes inv: "lru_inv (srv_cache s)" and step: "create_key (srv_cache s) k v = Some (r, c)"
  shows "effect rows s (Inserting k v res) (s\<lparr>srv_cache := c\<rparr>) (Finished res)"
proof -
  have c: "lru_inv c" and l: "cache_lookup c \<subseteq>\<^sub>m (cache_lookup (srv_cache s))(k \<mapsto> v) \<or>
      cache_lookup c = cache_lookup (srv_cache s)"
    using lru.cr_ok[OF inv, of k v] step by (auto split: if_splits)
  have "cache_lookup c k' = Some v' \<Longrightarrow> cache_lookup (srv_cache s) k' = Some v' \<or> k' = k \<and> v' = v" for k' v'
    using l by (cases "k' = k") (auto simp: map_le_def dom_def)
  with c show ?thesis by (auto simp: effect_def)
qed

lemma effect_drop:
  assumes inv: "lru_inv (srv_cache s)" and step: "delete_key (srv_cache s) k = Some (r, c)"
  shows "effect rows s (Dropping k res) (s\<lparr>srv_cache := c\<rparr>) (Finished res)"
  using lru.dl_ok[OF inv, of k] step by (auto simp: effect_def split: if_splits)

lemma effect_all_keys:
  "lru_inv (srv_cache s) \<Longrightarrow> handle_all_keys env s req = Some (s', res) \<Longrightarrow>
   effect rows s (Arrived All_keys req) s' (Finished res)"
  by (auto simp: handle_all_keys_def intro!: effect_failed split: option.splits sum.splits)

lemma thread_step_effect:
  assumes pg: "pg_table env rows" and inv: "lru_inv (srv_cache s)" and step: "thread_step env s t = Some (s', t')"
  shows "effect rows s t s' t'"
proof (cases t)
  case (Arrived h req)
  with step inv show ?thesis
    by (cases h) (auto intro: effect_create[OF pg] effect_update[OF pg] effect_delete[OF pg] effect_sync[OF pg]
        effect_lookup effect_all_keys effect_failed simp: handle_health_def)
next
  case (Missed k)
  with step show ?thesis by (simp add: effect_select[OF pg inv])
next
  case (Inserting k v res)
  with step show ?thesis by (auto intro: effect_insert[OF inv])
next
  case (Dropping k res)
  with step show ?thesis by (auto intro: effect_drop[OF inv])
next
  case (Finished res)
  with step inv show ?thesis by (auto intro: effect_failed)
qed

text \<open>A well-formed cache never stops a thread.\<close>

lemma thread_step_total:
  assumes "lru_inv (srv_cache s)"
  shows "thread_step env s t \<noteq> None"
proof (cases t)
  case (Arrived h req)
  then show ?thesis
    using lru.rd_ok[OF assms, of "rq_matches req ! 1"]
    by (cases h) (auto simp: lookup_cache_def Let_def handle_all_keys_def handle_health_def split: option.split sum.split)
next
  case (Inserting k v res)
  then show ?thesis using lru.cr_ok[OF assms, of k v] by auto
next
  case (Dropping k res)
  then show ?thesis using lru.dl_ok[OF assms, of k] by auto
qed simp_all

subsection \<open>The pool's invariant\<close>

text \<open>No thread that may put a key into the cache is beside another that may write the key.\<close>

definition conflict_free :: "thread list \<Rightarrow> bool" where
  "conflict_free ts \<longleftrightarrow>
     (\<forall>i < length ts. \<forall>j < length ts. i \<noteq> j \<longrightarrow> may_write (ts ! i) \<inter> may_insert (ts ! j) = {})"

definition pool_inv :: "('db \<Rightarrow> string \<rightharpoonup> string) \<Rightarrow> 'db server \<times> thread list \<Rightarrow> bool" where
  "pool_inv rows st \<longleftrightarrow>
     (let (s, ts) = st in
      lru_inv (srv_cache s) \<and> conflict_free ts \<and>
      (\<forall>k v. cache_lookup (srv_cache s) k = Some v \<longrightarrow>
         rows (srv_db s) k = Some v \<or> (\<exists>res. Dropping k res \<in> set ts)) \<and>
      (\<forall>k v res. Inserting k v res \<in> set ts \<longrightarrow> rows (srv_db s) k = Some v))"

lemma conflict_free_update:
  assumes "conflict_free ts" "i < length ts" "may_insert t' \<subseteq> may_insert (ts ! i)" "may_write t' \<subseteq> may_write (ts ! i)"
  shows "conflict_free (ts[i := t'])"
proof -
  have "may_write (ts[i := t'] ! a) \<inter> may_insert (ts[i := t'] ! b) \<subseteq> may_write (ts ! a) \<inter> may_insert (ts ! b)"
    if "a < length ts" "b < length ts" for a b
    using that assms(3,4) by (cases "a = i"; cases "b = i") auto
  with assms(1) show ?thesis unfolding conflict_free_def by (metis length_list_update subset_empty)
qed

lemma set_list_update_other: "x \<in> set ts \<Longrightarrow> x \<noteq> ts ! i \<Longrightarrow> x \<in> set (ts[i := y])"
  by (metis in_set_conv_nth length_list_update nth_list_update_neq)

lemma set_list_update_nth: "x \<in> set (ts[i := y]) \<Longrightarrow> x = y \<or> (\<exists>j < length ts. j \<noteq> i \<and> x = ts ! j)"
  by (auto simp: in_set_conv_nth) (metis nth_list_update_eq nth_list_update_neq)

lemma pool_inv_step:
  assumes pg: "pg_table env rows" and st: "kv_step env (s, ts) (s', ts')" and P: "pool_inv rows (s, ts)"
  shows "pool_inv rows (s', ts')"
proof -
  obtain i t' where step: "i < length ts" "thread_step env s (ts ! i) = Some (s', t')" "ts' = ts[i := t']"
    using st by (elim kv_stepE) blast
  let ?t = "ts ! i"
  have inv: "lru_inv (srv_cache s)" and cf: "conflict_free ts"
    and cached: "\<And>k v. cache_lookup (srv_cache s) k = Some v \<Longrightarrow>
         rows (srv_db s) k = Some v \<or> (\<exists>res. Dropping k res \<in> set ts)"
    and ins: "\<And>k v res. Inserting k v res \<in> set ts \<Longrightarrow> rows (srv_db s) k = Some v"
    using P unfolding pool_inv_def Let_def prod.case by (elim conjE; meson)+
  have e: "effect rows s ?t s' t'" using thread_step_effect[OF pg inv] step by blast
  have i: "i < length ts" "?t \<in> set ts" using step by simp_all
  have changed: "k \<in> may_write ?t \<and> ((\<exists>res. t' = Dropping k res) \<or> rows (srv_db s) k = None)"
    if "rows (srv_db s') k \<noteq> rows (srv_db s) k" for k using e that by (simp add: effect_def)
  have "rows (srv_db s') k = Some v" if r: "Inserting k v res \<in> set ts'" for k v res
  proof (cases "t' = Inserting k v res")
    case False
    then obtain j where j: "j < length ts" "j \<noteq> i" "ts ! j = Inserting k v res"
      using set_list_update_nth r step by metis
    then have "k \<notin> may_write ?t" using cf i(1) by (fastforce simp: conflict_free_def)
    with changed ins j show ?thesis by (metis nth_mem)
  qed (use e in \<open>simp add: effect_def\<close>)
  moreover have "rows (srv_db s') k = Some v \<or> (\<exists>res. Dropping k res \<in> set ts')"
    if c: "cache_lookup (srv_cache s') k = Some v" for k v
  proof (cases "\<exists>res. ?t = Inserting k v res")
    case True
    then have "rows (srv_db s) k = Some v" "may_write ?t = {}" using ins i(2) by auto
    with changed show ?thesis by (metis empty_iff)
  next
    case False
    with c e have old: "cache_lookup (srv_cache s) k = Some v" unfolding effect_def by meson
    have "?t \<noteq> Dropping k res" for res using e c unfolding effect_def by (metis option.distinct(1))
    then have kept: "Dropping k res \<in> set ts \<Longrightarrow> Dropping k res \<in> set ts'" for res
      using step set_list_update_other by metis
    have "t' \<in> set ts'" using step by (simp add: set_update_memI)
    with cached[OF old] kept changed[of k] show ?thesis by (metis option.distinct(1))
  qed
  moreover have "conflict_free ts'" using e step conflict_free_update[OF cf] by (simp add: effect_def)
  moreover have "lru_inv (srv_cache s')" using e by (simp add: effect_def)
  ultimately show ?thesis unfolding pool_inv_def Let_def prod.case by blast
qed

lemma pool_inv_steps:
  assumes pg: "pg_table env rows" and "(kv_step env)\<^sup>*\<^sup>* st st'" and "pool_inv rows st"
  shows "pool_inv rows st'"
  using assms(2,3)
proof (induction rule: rtranclp_induct)
  case (step a b)
  then show ?case using pool_inv_step[OF pg, of "fst a" "snd a" "fst b" "snd b"] by simp
qed

lemma lru_inv_steps:
  assumes pg: "pg_table env rows" and "(kv_step env)\<^sup>*\<^sup>* st st'" and "lru_inv (srv_cache (fst st))"
  shows "lru_inv (srv_cache (fst st')) \<and> length (snd st') = length (snd st)"
  using assms(2,3)
proof (induction rule: rtranclp_induct)
  case (step a b)
  from step(2) show ?case
  proof cases
    case (step i ts s s' t')
    with \<open>lru_inv (srv_cache (fst st)) \<Longrightarrow> _\<close> \<open>lru_inv (srv_cache (fst st))\<close> show ?thesis
      using thread_step_effect[OF pg, of s "ts ! i" s' t'] by (simp add: effect_def)
  qed
qed simp

text \<open>When all threads have answered and none of them was in conflict, the cache is coherent.\<close>

lemma pool_inv_finished:
  assumes "pool_inv rows (s, ts)" "\<forall>t \<in> set ts. \<exists>res. t = Finished res"
  shows "server_ok rows s"
  using assms by (fastforce simp: pool_inv_def server_ok_def map_le_def)

lemma pool_inv_arrived:
  assumes "server_ok rows s" "conflict_free (map (\<lambda>(h, req). Arrived h req) hs)"
  shows "pool_inv rows (s, map (\<lambda>(h, req). Arrived h req) hs)"
  using assms by (fastforce simp: pool_inv_def server_ok_def map_le_def dom_def)

subsection \<open>Schedules\<close>

text \<open>A schedule names the thread that takes each step.\<close>

fun run_schedule ::
  "nat list \<Rightarrow> 'db server_env \<Rightarrow> 'db server \<times> thread list \<Rightarrow> ('db server \<times> thread list) option" where
  "run_schedule [] env st = Some st"
| "run_schedule (i # is) env (s, ts) =
     (if i < length ts
      then (case thread_step env s (ts ! i) of
              None \<Rightarrow> None
            | Some (s', t') \<Rightarrow> run_schedule is env (s', ts[i := t']))
      else None)"

lemma run_schedule_steps: "run_schedule is env st = Some st' \<Longrightarrow> (kv_step env)\<^sup>*\<^sup>* st st'"
proof (induction "is" env st arbitrary: st' rule: run_schedule.induct)
  case (2 i "is" env s ts)
  then obtain s1 t1 where s1: "i < length ts" "thread_step env s (ts ! i) = Some (s1, t1)"
    "run_schedule is env (s1, ts[i := t1]) = Some st'"
    by (auto split: if_splits option.splits)
  then have "kv_step env (s, ts) (s1, ts[i := t1])" by (intro kv_step.step)
  from converse_rtranclp_into_rtranclp[of "kv_step env", OF this 2(1)[OF s1(1,2) refl s1(3)]] show ?case .
qed simp

text \<open>The steps a thread has left.\<close>

fun work :: "thread \<Rightarrow> nat" where
  "work (Arrived h req) = 3"
| "work (Missed key) = 2"
| "work (Inserting key val res) = 1"
| "work (Dropping key res) = 1"
| "work (Finished res) = 0"

lemma late_work: "late t \<Longrightarrow> work t \<le> 1"
  by (cases t) simp_all

lemma thread_step_work:
  assumes "thread_step env s t = Some (s', t')"
  shows "work t' \<le> work t - 1"
proof (cases t)
  case (Arrived h req)
  with assms late_txn(1-4)[of env s req] show ?thesis
    by (cases h) (auto simp: lookup_cache_def Let_def dest!: late_work split: option.splits if_splits)
next
  case (Missed key)
  with assms late_txn(5)[of env s key] show ?thesis by (auto dest!: late_work)
qed (use assms in auto)

lemma work_0: "work t = 0 \<longleftrightarrow> (\<exists>res. t = Finished res)"
  by (cases t) simp_all

lemma run_schedule_finishes:
  assumes pg: "pg_table env rows"
  shows "lru_inv (srv_cache s) \<Longrightarrow> set is \<subseteq> {..<length ts} \<Longrightarrow>
    (\<And>i. i < length ts \<Longrightarrow> work (ts ! i) \<le> count_list is i) \<Longrightarrow>
    \<exists>s' ts'. run_schedule is env (s, ts) = Some (s', ts') \<and> length ts' = length ts \<and>
      (\<forall>t \<in> set ts'. \<exists>res. t = Finished res)"
proof (induction "is" arbitrary: s ts)
  case Nil
  then show ?case by (auto simp: in_set_conv_nth simp flip: work_0)
next
  case (Cons i "is")
  obtain s1 t1 where s1: "thread_step env s (ts ! i) = Some (s1, t1)"
    using thread_step_total[OF Cons.prems(1)] by fast
  have "work (ts[i := t1] ! j) \<le> count_list is j" if "j < length ts" for j
    using Cons.prems(3)[OF that] thread_step_work[OF s1] that by (cases "j = i") auto
  moreover have "lru_inv (srv_cache s1)"
    using thread_step_effect[OF pg Cons.prems(1) s1] by (simp add: effect_def)
  ultimately show ?case using Cons.IH[of s1 "ts[i := t1]"] Cons.prems(2) s1 by auto
qed

subsection \<open>Properties\<close>

definition arrivals :: "(handler \<times> Request) list \<Rightarrow> thread list" where
  "arrivals hs = map (\<lambda>(h, req). Arrived h req) hs"



text \<open>A read and an update of one key, and the schedule that runs the update inside the read.\<close>

definition race_read :: Request where
  "race_read = (demo_req ''GET'' ''/kvstore/k'' '''')\<lparr>rq_matches := [''/kvstore/k'', ''k'']\<rparr>"

definition race_update :: Request where
  "race_update = (demo_req ''PUT'' ''/kvstore/k'' ''new'')\<lparr>rq_matches := [''/kvstore/k'', ''k'']\<rparr>"

definition race_start :: "(string \<times> string) list server \<times> thread list" where
  "race_start = (start_server [] [(''k'', ''old'')], arrivals [(Read, race_read), (Update, race_update)])"

lemmas race_defs = race_start_def arrivals_def race_read_def race_update_def start_server_def LRUCache_def
  demo_req_def mem_pg_def lookup_cache_def read_key_def select_txn_def get_connection_def create_key_def
  update_txn_def has_header_def commit_view_def delete_key_def Let_def


text \<open>Two reads and an update of another key do not conflict, and three rounds finish them.\<close>

definition calm :: "(handler \<times> Request) list" where
  "calm = [(Read, race_read), (Read, race_read), (Update, race_update\<lparr>rq_matches := [''/kvstore/j'', ''j'']\<rparr>)]"

lemma calm_conflict_free: "conflict_free (arrivals calm)"
  by (simp add: conflict_free_def arrivals_def calm_def race_read_def race_update_def demo_req_def
      numeral_3_eq_3 All_less_Suc)



end
