(* ===== verification/ThreadPool.thy ===== *)
theory ThreadPool
  imports Prelude "HOL-Library.Multiset"
begin

text \<open>
  The task queue of the HTTP server (httplib.h, class ThreadPool): a list of jobs, worker threads
  that take them under a mutex, and a shutdown that lets the workers finish the list. The operations
  under the mutex are the steps of a transition system, taken by the accepting thread and the
  workers in any order. The lemmas show that jobs start in the order they were enqueued, that none
  is lost or run twice, and that after a shutdown the workers run out of steps only when every job
  has been run and every worker has left.
\<close>

subsection \<open>The pool\<close>

text \<open>A worker waits for a job, runs one, or has left its loop.\<close>

datatype 'j worker = Waiting | Running 'j | Exited

text \<open>The lists of accepted, started and finished jobs are the history of the pool.\<close>

record 'j pool =
  jobs :: "'j list"
  threads :: "'j worker list"
  shutdown_flag :: bool
  max_queued_requests :: nat
  accepted :: "'j list"
  started :: "'j list"
  finished :: "'j list"

definition ThreadPool :: "nat \<Rightarrow> nat \<Rightarrow> 'j pool" where
  "ThreadPool n mqr = \<lparr>jobs = [], threads = replicate n Waiting, shutdown_flag = False,
     max_queued_requests = mqr, accepted = [], started = [], finished = []\<rparr>"

definition enqueue :: "'j \<Rightarrow> 'j pool \<Rightarrow> bool \<times> 'j pool" where
  "enqueue fn p =
     (if 0 < max_queued_requests p \<and> max_queued_requests p \<le> length (jobs p) then (False, p)
      else (True, p\<lparr>jobs := jobs p @ [fn], accepted := accepted p @ [fn]\<rparr>))"

definition shutdown :: "'j pool \<Rightarrow> 'j pool" where
  "shutdown p = p\<lparr>shutdown_flag := True\<rparr>"

text \<open>What a worker does next: wait for the condition, take a job or leave; then run the job.\<close>

definition worker_step :: "nat \<Rightarrow> 'j pool \<Rightarrow> 'j pool option" where
  "worker_step i p =
     (case threads p ! i of
        Waiting \<Rightarrow>
          if jobs p = [] \<and> \<not> shutdown_flag p then None
          else if shutdown_flag p \<and> jobs p = [] then Some (p\<lparr>threads := (threads p)[i := Exited]\<rparr>)
          else Some (p\<lparr>jobs := tl (jobs p), threads := (threads p)[i := Running (hd (jobs p))],
                       started := started p @ [hd (jobs p)]\<rparr>)
      | Running fn \<Rightarrow> Some (p\<lparr>threads := (threads p)[i := Waiting], finished := finished p @ [fn]\<rparr>)
      | Exited \<Rightarrow> None)"

inductive pool_step :: "'j pool \<Rightarrow> 'j pool \<Rightarrow> bool" where
  enq: "enqueue fn p = (True, p') \<Longrightarrow> \<not> shutdown_flag p \<Longrightarrow> pool_step p p'"
| down: "\<not> shutdown_flag p \<Longrightarrow> pool_step p (shutdown p)"
| work: "i < length (threads p) \<Longrightarrow> worker_step i p = Some p' \<Longrightarrow> pool_step p p'"

inductive_cases pool_stepE: "pool_step p p'"

code_pred pool_step .

subsection \<open>The invariant\<close>

fun running :: "'j worker \<Rightarrow> 'j list" where
  "running (Running fn) = [fn]"
| "running w = []"

definition active :: "'j pool \<Rightarrow> 'j list" where
  "active p = concat (map running (threads p))"

definition pool_ok :: "'j pool \<Rightarrow> bool" where
  "pool_ok p \<longleftrightarrow> accepted p = started p @ jobs p \<and> mset (started p) = mset (finished p) + mset (active p) \<and>
     (Exited \<in> set (threads p) \<longrightarrow> shutdown_flag p \<and> jobs p = [])"

lemma active_update:
  "i < length ws \<Longrightarrow> mset (concat (map running (ws[i := w]))) + mset (running (ws ! i)) =
     mset (concat (map running ws)) + mset (running w)"
proof (induction ws arbitrary: i)
  case (Cons v ws)
  then show ?case by (cases i) auto
qed simp

lemma pool_ok_ThreadPool: "pool_ok (ThreadPool n mqr)"
  by (auto simp: pool_ok_def ThreadPool_def active_def)

lemma worker_step_ok:
  assumes "pool_ok p" "i < length (threads p)" "worker_step i p = Some p'"
  shows "pool_ok p' \<and> shutdown_flag p' = shutdown_flag p \<and> length (threads p') = length (threads p) \<and> accepted p' = accepted p"
proof (cases "threads p ! i")
  case Waiting
  show ?thesis
  proof (cases "jobs p")
    case Nil
    with Waiting assms(3) have p': "shutdown_flag p" "p' = p\<lparr>threads := (threads p)[i := Exited]\<rparr>"
      by (auto simp: worker_step_def split: if_splits)
    with assms Waiting Nil active_update[OF assms(2), of Exited] show ?thesis
      by (auto simp: pool_ok_def active_def)
  next
    case (Cons j js)
    with Waiting assms(3) have p': "p' = p\<lparr>jobs := js, threads := (threads p)[i := Running j], started := started p @ [j]\<rparr>"
      by (auto simp: worker_step_def)
    have "Exited \<notin> set (threads p)" using assms(1) Cons by (auto simp: pool_ok_def)
    then have "Exited \<notin> set ((threads p)[i := Running j])"
      using set_update_subset_insert[of "threads p" i "Running j"] by auto
    with p' assms Waiting Cons active_update[OF assms(2), of "Running j"] show ?thesis
      by (auto simp: pool_ok_def active_def)
  qed
next
  case (Running fn)
  with assms(3) have p': "p' = p\<lparr>threads := (threads p)[i := Waiting], finished := finished p @ [fn]\<rparr>"
    by (simp add: worker_step_def)
  have "Exited \<in> set ((threads p)[i := Waiting]) \<Longrightarrow> Exited \<in> set (threads p)"
    using set_update_subset_insert[of "threads p" i Waiting] by auto
  with p' assms Running active_update[OF assms(2), of Waiting] show ?thesis
    by (auto simp: pool_ok_def active_def)
next
  case Exited
  with assms(3) show ?thesis by (simp add: worker_step_def)
qed

lemma pool_step_ok: "pool_step p p' \<Longrightarrow> pool_ok p \<Longrightarrow> pool_ok p' \<and> length (threads p') = length (threads p)"
proof (induction rule: pool_step.induct)
  case (enq fn p p')
  then show ?case by (auto simp: enqueue_def pool_ok_def active_def split: if_splits)
next
  case (down p)
  then show ?case by (auto simp: shutdown_def pool_ok_def active_def)
next
  case (work i p p')
  then show ?case using worker_step_ok by blast
qed

lemma pool_steps_ok:
  "pool_step\<^sup>*\<^sup>* p p' \<Longrightarrow> pool_ok p \<Longrightarrow> pool_ok p' \<and> length (threads p') = length (threads p)"
  by (induction rule: rtranclp_induct) (auto dest: pool_step_ok)

subsection \<open>Running dry\<close>

text \<open>After the shutdown every step uses up work.\<close>

fun to_do :: "'j worker \<Rightarrow> nat" where
  "to_do Waiting = 1"
| "to_do (Running fn) = 2"
| "to_do Exited = 0"

definition pool_work :: "'j pool \<Rightarrow> nat" where
  "pool_work p = 2 * length (jobs p) + sum_list (map to_do (threads p))"

lemma to_do_update:
  "i < length ws \<Longrightarrow> sum_list (map to_do (ws[i := w])) + to_do (ws ! i) = sum_list (map to_do ws) + to_do w"
proof (induction ws arbitrary: i)
  case (Cons v ws)
  then show ?case by (cases i) auto
qed simp

lemma worker_step_work:
  "i < length (threads p) \<Longrightarrow> worker_step i p = Some p' \<Longrightarrow> pool_work p' < pool_work p"
  using to_do_update[of i "threads p" Exited] to_do_update[of i "threads p" Waiting]
    to_do_update[of i "threads p" "Running (hd (jobs p))"]
  by (cases "threads p ! i"; cases "jobs p") (auto simp: worker_step_def pool_work_def split: if_splits)

lemma shutdown_step_work:
  "pool_step p p' \<Longrightarrow> shutdown_flag p \<Longrightarrow> pool_work p' < pool_work p \<and> shutdown_flag p' \<and> accepted p' = accepted p"
proof (induction rule: pool_step.induct)
  case (work i p p')
  then show ?case
    using worker_step_work[of i p p'] by (auto simp: worker_step_def split: worker.splits if_splits)
qed simp_all

text \<open>A pool that was shut down and has no step left.\<close>

lemma stuck_pool:
  assumes "shutdown_flag p" "\<And>p'. \<not> pool_step p p'"
  shows "\<forall>w \<in> set (threads p). w = Exited"
proof
  fix w
  assume "w \<in> set (threads p)"
  then obtain i where i: "i < length (threads p)" "threads p ! i = w" by (auto simp: in_set_conv_nth)
  then have "worker_step i p = None" using assms(2) pool_step.work by (metis option.exhaust)
  with i assms(1) show "w = Exited" by (cases w) (auto simp: worker_step_def split: if_splits)
qed

subsection \<open>Properties\<close>

text \<open>
  C39. No job is lost, run twice or overtaken: in every reachable state of a pool the started jobs are
  the first of the accepted ones, in order, the rest waits in the list, and the started jobs are
  those finished and those being run.
\<close>

theorem jobs_run_once_in_order:
  assumes "pool_step\<^sup>*\<^sup>* (ThreadPool n mqr) p"
  shows "accepted p = started p @ jobs p \<and> mset (started p) = mset (finished p) + mset (active p)"
  using pool_steps_ok[OF assms pool_ok_ThreadPool] by (simp add: pool_ok_def)

lemma demo_pool:
  "pool_step\<^sup>*\<^sup>* (ThreadPool 1 0) (shutdown (snd (enqueue (7::nat) (ThreadPool 1 0))))"
proof -
  have "pool_step (ThreadPool 1 0) (snd (enqueue (7::nat) (ThreadPool 1 0)))"
    by (rule pool_step.enq[of 7]) (simp_all add: enqueue_def ThreadPool_def)
  moreover have "pool_step (snd (enqueue (7::nat) (ThreadPool 1 0))) (shutdown (snd (enqueue 7 (ThreadPool 1 0))))"
    by (rule pool_step.down) (simp add: enqueue_def ThreadPool_def)
  ultimately show ?thesis by (meson converse_rtranclp_into_rtranclp r_into_rtranclp)
qed

lemma jobs_run_once_in_order_witness:
  "accepted (shutdown (snd (enqueue (7::nat) (ThreadPool 1 0)))) =
     started (shutdown (snd (enqueue 7 (ThreadPool 1 0)))) @ jobs (shutdown (snd (enqueue 7 (ThreadPool 1 0))))"
  using jobs_run_once_in_order[OF demo_pool] by blast



end
