(* ===== verification/Spec2Isabelle.thy ===== *)
theory Spec2Isabelle
  imports WholeSystem FormUpload HttpChunked LoadBalancer LoadGen KvConcurrent ThreadPool UriCoding
begin

text \<open>
  A verification development of a replicated key-value store in C++.

  The program. \<open>kvserver\<close> is an HTTP server over one PostgreSQL table with an LRU cache in front;
  three of them run on the ports 9001 to 9003. \<open>load_balancer\<close> listens on 8080: a client's
  connection is a \<open>ProxySession\<close> in a thread of its own that parses requests, asks the \<open>Router\<close>
  (a map of backends and a consistent-hash ring) for the two replicas of the request's key, sends a
  write to both and a read to the first that answers. A \<open>HealthChecker\<close> thread pings the backends,
  marks them DOWN, and brings them back over RECOVERING by a \<open>RecoveryManager\<close> that copies the keys
  they own from their peers. \<open>kvclient\<close> is a command-line client, \<open>load_gen\<close> a load generator.
  Servers and clients use the vendored HTTP library \<open>httplib.h\<close>.

  The theories, from the bottom:

  \<^item> \<open>Prelude\<close>, \<open>CppMap\<close>, \<open>CppString\<close>: lists and association lists, \<open>std::map\<close>, and what the
    program uses of \<open>std::string\<close>, streams and number conversions. Undefined behaviour is \<open>None\<close>,
    an exception \<open>Inl\<close>; a number keeps its width where it can wrap (\<open>32 word\<close> ring positions,
    64-bit lengths in the parsers).
  \<^item> \<open>HttpChars\<close>, \<open>UriCoding\<close>, \<open>HttpStream\<close>, \<open>HttpMessage\<close>, \<open>HttpRanges\<close>, \<open>HttpServer\<close>,
    \<open>ThreadPool\<close>: the parts of \<open>httplib.h\<close> a request passes through in the server: text and header
    grammar, percent coding, the socket buffer and the line reader, messages and their three
    framings, byte ranges, matching, routing, writing of responses, the loop over a connection, and
    the task queue. A stream is what arrives, in the pieces the kernel gives, and what the kernel
    takes of each write.
  \<^item> \<open>HttpChunked\<close>: content that a provider writes piece by piece, and chunks that are read back.
  \<^item> \<open>HttpMultipart\<close>, \<open>FormParser\<close>, \<open>FormUpload\<close>: multipart forms: the writer, the parser with its
    buffer and the callbacks of the server; the proof that the parser reads what the writer writes,
    in whatever pieces it comes; and a form that is uploaded to the server.
  \<^item> \<open>HttpClient\<close>: the other end, the library's client: its requests as bytes, and the reading of
    a response.
  \<^item> \<open>RequestWire\<close>, \<open>ResponseWire\<close>: a well-formed request as the server reads it, and a response of
    the server as the load balancer's parser reads it.
  \<^item> \<open>LruCache\<close>, \<open>KvServer\<close>, \<open>KvConcurrent\<close>, \<open>KvWire\<close>: \<open>kvcache.h\<close> and \<open>kvserver.cpp\<close>: the
    cache with its list and its map of iterators, each handler, the same handlers cut at their
    accesses to shared state, and the server with its routes from bytes to bytes.
  \<^item> \<open>HashRing\<close>, \<open>Router\<close>, \<open>HttpParser\<close>, \<open>ProxySession\<close>, \<open>RecoveryManager\<close>, \<open>HealthChecker\<close>,
    \<open>LoadBalancer\<close>: the files of \<open>src/load_balancer\<close> of the same names (\<open>HttpParser\<close> is
    \<open>HttpParser.h\<close> with \<open>HttpHelper.cpp\<close>), the last with the threads of the process interleaved.
  \<^item> \<open>Cluster\<close>, \<open>EndToEnd\<close>: the servers behind the load balancer as one world, and a client's
    request through session, wire and handler and back.
  \<^item> \<open>ClientWire\<close>: a call of the library's client on a server, through both ends as bytes; it is
    the call \<open>cluster_call\<close> of \<open>Cluster\<close>, with which the recovery and the clients are modelled.
  \<^item> \<open>KvClient\<close>, \<open>LoadGen\<close>: \<open>kvclient.cpp\<close> and \<open>load_gen.cpp\<close>.
  \<^item> \<open>WholeSystem\<close>: a program with the library's client, the load balancer and the servers together,
    from the bytes the client writes to the result it gets.

  State and operations. A class is a record with its fields, a method a function on it; the
  functions have the names of the code where Isabelle allows it. The interfaces are locales:
  \<open>cache_store\<close> (what the handlers rely on of the cache), \<open>node_ring\<close> (what the router relies on of
  the ring), \<open>kv_nodes\<close> (what the recovery relies on of the servers), \<open>form_sink\<close> (what the form
  parser relies on of its callbacks) and \<open>percent_coding\<close>; each is interpreted on the model of the
  code that provides it.

  What is shown. Each component keeps its invariant (\<open>lru_inv\<close>, \<open>ring_ok\<close>, \<open>router_inv\<close>,
  \<open>server_ok\<close>, \<open>sess_inv\<close>, \<open>sys_inv\<close>) and its loops compute what a reference definition says
  (\<open>ring_walk\<close>, the most recently used keys, the lines of a stream). The handlers refine the
  operations \<open>kv_spec\<close> of a table; the server on bytes refines the handlers; commands of the client
  are operations on that table; an update or a read through the load balancer acts on the tables of
  the candidates and gives the client its answer, from bytes to bytes. Parsers and writers are
  inverse on well-formed messages, and reading does not depend on how bytes are cut, but for the text
  after a multipart form. The concurrent models say what holds in every interleaving
  and give the schedules in which it fails: a stale value in the cache, two replicas that differ,
  the end of the process when every backend is DOWN.

  Loops and bounds. Every loop is a total function with a measure, with two exceptions: the command
  loop of \<open>kvclient\<close> is a \<open>partial_function\<close>, since it can run forever, and the loops over a
  connection recurse over what the peer sends, which the model has as a finite list. No fuel is
  used. Small instances (\<open>demo_...\<close>) show that the hypotheses of the properties can hold.

  Parameters. PostgreSQL is \<open>server_env\<close> with the law \<open>pg_table\<close> (a statement acts on a table as
  its SQL says) and \<open>pg_up\<close> where the database answers; \<open>std::hash\<close> is \<open>hasher\<close>; the iteration
  order of an unordered container, \<open>std::regex_match\<close> on the patterns of the routes, \<open>std::stod\<close> and
  the boundary of a response with several ranges are the record \<open>http_lib\<close>; the network of a session
  is \<open>net\<close>, the HTTP client of the recovery \<open>http\<close>; the printing of floating-point numbers is \<open>quotients\<close>.

  Not modelled: the socket set-up and name resolution, TLS, compression, file serving, and redirects,
  authentication and proxies in the client of \<open>httplib.h\<close>, which the program does not use or which
  call other libraries; messages to the standard error stream; sleeps and timeouts, whose outcomes are inputs of the model. Unsynchronised accesses to the map of the router
  are data races; the model takes each operation of the router as one step.
\<close>

end
